(* ===== verification/Prelude.thy ===== *)
theory Prelude
  imports Main "HOL-Library.Word"
begin

text \<open>
  Shared vocabulary of the development: the machine integer types of the C++ code, the faults a
  run of it can end in (a failed \<^verbatim>\<open>assert\<close>, a null or out-of-range access, a read of an
  uninitialised variable, an empty \<^verbatim>\<open>std::function\<close>, \<^verbatim>\<open>rte_panic\<close>, a data race), the result type
  \<open>fault + 'a\<close> with its sequencing operator, runs of fallible steps, and the lemmas on lists and
  words that several components use.
\<close>

unbundle bit_operations_syntax

type_synonym u8 = "8 word"
type_synonym u16 = "16 word"
type_synonym u32 = "32 word"
type_synonym u64 = "64 word"

datatype fault =
    AssertFailed    \<comment> \<open>\<^verbatim>\<open>assert\<close>: the process aborts\<close>
  | NullDeref       \<comment> \<open>access through a null pointer\<close>
  | OutOfBounds     \<comment> \<open>access outside an array or a buffer\<close>
  | Uninitialised   \<comment> \<open>use of a variable that was never written\<close>
  | BadCall         \<comment> \<open>call of an empty \<^verbatim>\<open>std::function\<close>\<close>
  | Panic           \<comment> \<open>\<^verbatim>\<open>rte_panic\<close>\<close>
  | DataRace        \<comment> \<open>two threads access an object, neither access before the other\<close>

named_theorems fault_simps \<open>sequencing of fallible operations\<close>

section \<open>Results and sequencing\<close>

definition bindR :: "fault + 'a \<Rightarrow> ('a \<Rightarrow> fault + 'b) \<Rightarrow> fault + 'b" where
  "bindR r f = (case r of Inl e \<Rightarrow> Inl e | Inr a \<Rightarrow> f a)"

definition assertR :: "bool \<Rightarrow> fault + unit" where
  "assertR b = (if b then Inr () else Inl AssertFailed)"

text \<open>The value of a variable that may be uninitialised (\<open>None\<close>).\<close>

definition useR :: "'a option \<Rightarrow> fault + 'a" where
  "useR v = (case v of None \<Rightarrow> Inl Uninitialised | Some a \<Rightarrow> Inr a)"

lemma bindR_simps [simp]:
  "bindR (Inl e) f = Inl e"
  "bindR (Inr a) f = f a"
  by (simp_all add: bindR_def)

lemma assertR_simps [simp]:
  "assertR True = Inr ()"
  "assertR False = Inl AssertFailed"
  by (simp_all add: assertR_def)

lemma useR_simps [simp]:
  "useR None = Inl Uninitialised"
  "useR (Some a) = Inr a"
  by (simp_all add: useR_def)

lemma bindR_eq_Inr [fault_simps]:
  "bindR r f = Inr b \<longleftrightarrow> (\<exists>a. r = Inr a \<and> f a = Inr b)"
  by (cases r) auto

lemma assertR_eq_Inr [fault_simps]: "assertR b = Inr u \<longleftrightarrow> b"
  by (cases b) auto

lemma useR_eq_Inr [fault_simps]: "useR v = Inr a \<longleftrightarrow> v = Some a"
  by (cases v) auto

lemma bindR_cong [fundef_cong]:
  "r = r' \<Longrightarrow> (\<And>a. r' = Inr a \<Longrightarrow> f a = g a) \<Longrightarrow> bindR r f = bindR r' g"
  by (cases r') auto

section \<open>Runs of fallible steps\<close>

primrec run_all :: "('s \<Rightarrow> 'e \<Rightarrow> fault + 's) \<Rightarrow> 's \<Rightarrow> 'e list \<Rightarrow> fault + 's" where
  "run_all f s [] = Inr s"
| "run_all f s (e # es) = bindR (f s e) (\<lambda>s'. run_all f s' es)"

lemma run_all_append:
  "run_all f s (xs @ ys) = bindR (run_all f s xs) (\<lambda>s'. run_all f s' ys)"
proof (induction xs arbitrary: s)
  case (Cons x xs)
  then show ?case by (cases "f s x") auto
qed simp

text \<open>A component whose every successful step keeps an invariant keeps it over every run.\<close>

locale kept_invariant =
  fixes step :: "'s \<Rightarrow> 'e \<Rightarrow> fault + 's"
    and inv :: "'s \<Rightarrow> bool"
  assumes step_inv: "inv s \<Longrightarrow> step s e = Inr s' \<Longrightarrow> inv s'"
begin

lemma run_inv: "inv s \<Longrightarrow> run_all step s es = Inr s' \<Longrightarrow> inv s'"
proof (induction es arbitrary: s)
  case (Cons e es)
  then show ?case by (auto simp: fault_simps dest: step_inv)
qed simp

lemma run_prefix_inv:
  assumes "inv s" and "run_all step s (xs @ ys) = Inr s'"
  shows "\<exists>t. run_all step s xs = Inr t \<and> inv t"
  using assms by (auto simp: run_all_append fault_simps intro: run_inv)

end

lemma bindR_assoc: "bindR (bindR r f) g = bindR r (\<lambda>a. bindR (f a) g)"
  by (cases r) simp_all

text \<open>Two computations that agree up to a relation on their results and have the same faults.\<close>

lemma rel_bindR:
  assumes "rel_sum (=) R r r'" and "\<And>a b. R a b \<Longrightarrow> rel_sum (=) S (f a) (g b)"
  shows "rel_sum (=) S (bindR r f) (bindR r' g)"
  using assms by (auto elim!: rel_sum.cases)

lemma rel_bindR_eq:
  assumes "\<And>a. rel_sum (=) S (f a) (g a)"
  shows "rel_sum (=) S (bindR r f) (bindR r g)"
  using assms by (cases r) simp_all

section \<open>Lists\<close>

lemma length_filter_rotate [simp]: "length (filter P (rotate n xs)) = length (filter P xs)"
proof -
  let ?k = "n mod length xs"
  have "length (filter P (rotate n xs)) =
    length (filter P (drop ?k xs)) + length (filter P (take ?k xs))"
    by (simp add: rotate_drop_take)
  also have "\<dots> = length (filter P (take ?k xs @ drop ?k xs))"
    by (simp only: filter_append length_append add.commute)
  finally show ?thesis by simp
qed

lemma length_filter_update:
  assumes "i < length xs"
  shows "length (filter P (xs[i := y])) + (if P (xs ! i) then 1 else 0)
       = length (filter P xs) + (if P y then 1 else 0)"
proof -
  have xs: "xs = take i xs @ xs ! i # drop (Suc i) xs"
    using assms by (rule id_take_nth_drop)
  have "length (filter P (xs[i := y])) =
    length (filter P (take i xs)) + (if P y then 1 else 0) + length (filter P (drop (Suc i) xs))"
    using assms by (simp add: upd_conv_take_nth_drop)
  moreover have "length (filter P xs) =
    length (filter P (take i xs)) + (if P (xs ! i) then 1 else 0) + length (filter P (drop (Suc i) xs))"
    by (subst xs) simp
  ultimately show ?thesis by simp
qed

lemma length_filter_pos: "i < length xs \<Longrightarrow> P (xs ! i) \<Longrightarrow> 0 < length (filter P xs)"
  by (metis length_greater_0_conv filter_empty_conv nth_mem)

lemma take_Suc_nth: "n < length xs \<Longrightarrow> take (Suc n) xs = take n xs @ [xs ! n]"
  by (rule take_Suc_conv_app_nth)

lemma list_all_update: "list_all P xs \<Longrightarrow> P x \<Longrightarrow> list_all P (xs[i := x])"
  by (auto simp: list_all_iff dest: set_update_subset_insert [THEN subsetD])

text \<open>Indices of a ring of \<open>n\<close> slots, at most one turn ahead.\<close>

lemma mod_wrap:
  assumes "x < 2 * n"
  shows "x mod n = (if x < n then x else x - (n :: nat))"
  using assms by (simp add: le_mod_geq)

section \<open>Words\<close>

lemma unat_u32_less: "unat (w :: u32) < 2 ^ 32"
  using unsigned_less [of w, where 'a = nat] by simp

text \<open>Two words side by side in a word of twice the width, as the readers assemble them.\<close>

lemma unat_concat:
  fixes hi lo :: "'a::len word"
  assumes "LENGTH('b::len) = 2 * LENGTH('a)"
  shows "unat (push_bit LENGTH('a) (ucast hi) OR ucast lo :: 'b word) = 2 ^ LENGTH('a) * unat hi + unat lo"
proof -
  let ?n = "LENGTH('a)"
  let ?a = "push_bit ?n (ucast hi) :: 'b word" and ?b = "ucast lo :: 'b word"
  have fit: "unat (ucast w :: 'b word) = unat w" for w :: "'a word"
  proof -
    have "unat w < 2 ^ (2 * ?n)" by (rule less_le_trans [OF unsigned_less]) simp
    then show ?thesis by (simp add: unsigned_ucast_eq assms take_bit_nat_eq_self)
  qed
  have "?a OR ?b = ?a + ?b"
    by (rule disjunctive_add [symmetric]) (auto simp: bit_simps dest: bit_imp_le_length)
  moreover have ua: "unat ?a = 2 ^ ?n * unat hi"
  proof -
    have "unat hi * 2 ^ ?n < 2 ^ ?n * 2 ^ ?n" using unsigned_less [of hi] by simp
    then have "unat hi * 2 ^ ?n < 2 ^ LENGTH('b)" by (simp add: assms power_add [symmetric] mult_2)
    moreover have "unat (ucast hi :: 'b word) = unat hi" by (rule fit)
    moreover have "unat ?a = take_bit LENGTH('b) (push_bit ?n (unat (ucast hi :: 'b word)))"
      by (rule unsigned_push_bit_eq)
    ultimately show ?thesis
      by (simp only: push_bit_eq_mult take_bit_nat_eq_self mult.commute)
  qed
  moreover have ub: "unat ?b = unat lo" by (rule fit)
  moreover have "2 ^ ?n * unat hi + unat lo < 2 ^ LENGTH('b)"
  proof -
    have "2 ^ ?n * unat hi + unat lo < 2 ^ ?n * unat hi + 2 ^ ?n" using unsigned_less [of lo] by simp
    also have "\<dots> = 2 ^ ?n * (unat hi + 1)" by simp
    also have "\<dots> \<le> 2 ^ ?n * 2 ^ ?n" using unsigned_less [of hi, where 'a = nat] by (intro mult_left_mono) (auto simp: Suc_le_eq)
    finally show ?thesis by (simp add: assms power_add [symmetric] mult_2)
  qed
  ultimately show ?thesis by (simp add: unat_word_ariths)
qed

end
