(* ===== verification/FixedTable.thy ===== *)
theory FixedTable
  imports Prelude
begin

text \<open>
  \<^verbatim>\<open>FixedDict\<close> of \<^verbatim>\<open>core/fixedtable.hxx\<close>: an open-addressing hash table in a fixed array. Every
  slot holds an optional pair and, for the keys whose home position is that slot, how many of them
  are stored anywhere in the table (\<open>numInserted\<close>); the probe loops stop early once that many
  keys of the same home position were seen.

  The capacity is the length of the array, keys are 64-bit words (the only key type the program
  uses) and an iterator \<^verbatim>\<open>T*\<close> is the index of the slot it points to, \<open>None\<close> for
  \<^verbatim>\<open>nullptr\<close>. The counters are \<open>nat\<close>: the invariant below bounds them by the capacity, and
  the two decrements happen only where it makes them positive.
\<close>

section \<open>State\<close>

record 'v TContent =
  numInserted :: nat
  content :: "(u64 \<times> 'v) option"

record 'v FixedDict =
  fd_data :: "'v TContent list"
  fd_cnt :: nat

text \<open>The default of the template parameter \<^verbatim>\<open>PRIME\<close>.\<close>

definition PRIME :: u64 where
  "PRIME = 39"

definition fd_empty_slot :: "'v TContent" where
  "fd_empty_slot = \<lparr>numInserted = 0, content = None\<rparr>"

text \<open>A value-initialised table with \<open>cap\<close> slots.\<close>

definition fd_new :: "nat \<Rightarrow> 'v FixedDict" where
  "fd_new cap = \<lparr>fd_data = replicate cap fd_empty_slot, fd_cnt = 0\<rparr>"

section \<open>Operations\<close>

text \<open>\<^verbatim>\<open>calcPos_\<close>: the product is taken in 64 bits, so it wraps.\<close>

definition calcPos :: "nat \<Rightarrow> u64 \<Rightarrow> nat" where
  "calcPos cap key = unat (key * PRIME) mod cap"

text \<open>
  The probe loop that \<^verbatim>\<open>emplace\<close>, \<^verbatim>\<open>find\<close> and \<^verbatim>\<open>erase\<close> share: \<open>i\<close> slots were visited from
  the home position \<open>pos\<close>, \<open>j\<close> of them hold keys of that home position.
\<close>

function fd_probe ::
  "'v TContent list \<Rightarrow> nat \<Rightarrow> nat \<Rightarrow> u64 \<Rightarrow> nat \<Rightarrow> nat \<Rightarrow> nat option" where
  "fd_probe dat pos num key i j =
     (if i < length dat \<and> j < num then
        (case content (dat ! ((i + pos) mod length dat)) of
           Some (key2, _) \<Rightarrow>
             (if key2 = key then Some ((i + pos) mod length dat)
              else if calcPos (length dat) key2 = pos
              then fd_probe dat pos num key (Suc i) (Suc j)
              else fd_probe dat pos num key (Suc i) j)
         | None \<Rightarrow> fd_probe dat pos num key (Suc i) j)
      else None)"
  by pat_completeness auto
termination
  by (relation "measure (\<lambda>(dat, pos, num, key, i, j). length dat - i)") auto

declare fd_probe.simps [simp del]

text \<open>The second loop of \<^verbatim>\<open>emplace\<close>: the first free slot from \<open>pos\<close> on, as an offset.\<close>

function fd_free :: "'v TContent list \<Rightarrow> nat \<Rightarrow> nat \<Rightarrow> nat option" where
  "fd_free dat pos i =
     (if i < length dat then
        (if content (dat ! ((i + pos) mod length dat)) = None then Some i
         else fd_free dat pos (Suc i))
      else None)"
  by pat_completeness auto
termination
  by (relation "measure (\<lambda>(dat, pos, i). length dat - i)") auto

declare fd_free.simps [simp del]

definition fd_set_content ::
  "nat \<Rightarrow> (u64 \<times> 'v) option \<Rightarrow> 'v TContent list \<Rightarrow> 'v TContent list" where
  "fd_set_content s c dat = dat[s := (dat ! s)\<lparr>content := c\<rparr>]"

definition fd_add_inserted ::
  "(nat \<Rightarrow> nat) \<Rightarrow> nat \<Rightarrow> 'v TContent list \<Rightarrow> 'v TContent list" where
  "fd_add_inserted f pos dat = dat[pos := (dat ! pos)\<lparr>numInserted := f (numInserted (dat ! pos))\<rparr>]"

text \<open>
  \<^verbatim>\<open>emplace\<close>. After the free slot is filled and the counters are raised, the code asserts
  \<^verbatim>\<open>cnt < CAPACITY\<close> and returns the address of \<^verbatim>\<open>data[i+pos]\<close>, an index that is not reduced
  modulo the capacity.
\<close>

definition fd_emplace ::
  "'v FixedDict \<Rightarrow> u64 \<Rightarrow> 'v \<Rightarrow> fault + (nat option \<times> 'v FixedDict)" where
  "fd_emplace d key v =
     (let cap = length (fd_data d) in
      if fd_cnt d \<ge> cap then Inr (None, d)
      else
        let pos = calcPos cap key;
            num = numInserted (fd_data d ! pos) in
        case fd_probe (fd_data d) pos num key 0 0 of
          Some s \<Rightarrow> Inr (Some s, d\<lparr>fd_data := fd_set_content s (Some (key, v)) (fd_data d)\<rparr>)
        | None \<Rightarrow>
            (case fd_free (fd_data d) pos 0 of
               None \<Rightarrow> Inr (None, d)
             | Some i \<Rightarrow>
                 let dat1 = fd_set_content ((i + pos) mod cap) (Some (key, v)) (fd_data d);
                     dat2 = fd_add_inserted Suc pos dat1;
                     d' = \<lparr>fd_data = dat2, fd_cnt = Suc (fd_cnt d)\<rparr> in
                 if \<not> fd_cnt d' < cap then Inl AssertFailed
                 else if \<not> i + pos < cap then Inl OutOfBounds
                 else Inr (Some (i + pos), d')))"

definition fd_find :: "'v FixedDict \<Rightarrow> u64 \<Rightarrow> nat option" where
  "fd_find d key =
     (let pos = calcPos (length (fd_data d)) key;
          num = numInserted (fd_data d ! pos) in
      fd_probe (fd_data d) pos num key 0 0)"

definition fd_erase :: "'v FixedDict \<Rightarrow> u64 \<Rightarrow> bool \<times> 'v FixedDict" where
  "fd_erase d key =
     (let pos = calcPos (length (fd_data d)) key;
          num = numInserted (fd_data d ! pos) in
      case fd_probe (fd_data d) pos num key 0 0 of
        None \<Rightarrow> (False, d)
      | Some s \<Rightarrow>
          (True, \<lparr>fd_data = fd_add_inserted (\<lambda>n. n - 1) pos (fd_set_content s None (fd_data d)),
                  fd_cnt = fd_cnt d - 1\<rparr>))"

definition fd_isempty :: "'v FixedDict \<Rightarrow> bool" where
  "fd_isempty d = (0 = fd_cnt d)"

definition fd_full :: "'v FixedDict \<Rightarrow> bool" where
  "fd_full d = (length (fd_data d) = fd_cnt d)"

definition fd_size :: "'v FixedDict \<Rightarrow> nat" where
  "fd_size d = fd_cnt d"

text \<open>Reading and writing \<^verbatim>\<open>->second\<close> through an iterator.\<close>

definition fd_at :: "'v FixedDict \<Rightarrow> nat \<Rightarrow> 'v option" where
  "fd_at d s = (if s < length (fd_data d) then map_option snd (content (fd_data d ! s)) else None)"

definition fd_put :: "'v FixedDict \<Rightarrow> nat \<Rightarrow> 'v \<Rightarrow> 'v FixedDict" where
  "fd_put d s v =
     d\<lparr>fd_data := fd_set_content s (map_option (\<lambda>(k, _). (k, v)) (content (fd_data d ! s)))
                     (fd_data d)\<rparr>"

section \<open>Abstraction and invariant\<close>

text \<open>The map a table stands for.\<close>

definition fd_entries :: "'v FixedDict \<Rightarrow> (u64 \<times> 'v) list" where
  "fd_entries d = List.map_filter content (fd_data d)"

definition fd_lookup :: "'v FixedDict \<Rightarrow> u64 \<Rightarrow> 'v option" where
  "fd_lookup d = map_of (fd_entries d)"

text \<open>A slot that holds a key with the given home position; an occupied slot.\<close>

definition homed :: "nat \<Rightarrow> nat \<Rightarrow> 'v TContent \<Rightarrow> bool" where
  "homed cap pos c = (case content c of None \<Rightarrow> False | Some (k, _) \<Rightarrow> calcPos cap k = pos)"

definition occupied :: "'v TContent \<Rightarrow> bool" where
  "occupied c = (content c \<noteq> None)"

definition fd_inv :: "'v FixedDict \<Rightarrow> bool" where
  "fd_inv d \<longleftrightarrow>
     fd_cnt d < length (fd_data d) \<and>
     fd_cnt d = length (filter occupied (fd_data d)) \<and>
     distinct (map fst (fd_entries d)) \<and>
     (\<forall>pos < length (fd_data d).
        numInserted (fd_data d ! pos) = length (filter (homed (length (fd_data d)) pos) (fd_data d)))"


section \<open>Slots, entries and counts\<close>

lemma fd_set_content_length [simp]: "length (fd_set_content s c dat) = length dat"
  by (simp add: fd_set_content_def)

lemma fd_add_inserted_length [simp]: "length (fd_add_inserted f pos dat) = length dat"
  by (simp add: fd_add_inserted_def)

lemma content_set_content [simp]:
  "t < length dat \<Longrightarrow>
   content (fd_set_content s c dat ! t) = (if t = s then c else content (dat ! t))"
  by (simp add: fd_set_content_def nth_list_update)

lemma content_add_inserted [simp]:
  "t < length dat \<Longrightarrow> content (fd_add_inserted f pos dat ! t) = content (dat ! t)"
  by (cases "t = pos") (simp_all add: fd_add_inserted_def)

lemma numInserted_set_content [simp]:
  "t < length dat \<Longrightarrow> numInserted (fd_set_content s c dat ! t) = numInserted (dat ! t)"
  by (cases "t = s") (simp_all add: fd_set_content_def)

lemma numInserted_add_inserted [simp]:
  "t < length dat \<Longrightarrow> numInserted (fd_add_inserted f pos dat ! t) =
     (if t = pos then f (numInserted (dat ! t)) else numInserted (dat ! t))"
  by (simp add: fd_add_inserted_def nth_list_update)

lemma calcPos_less: "0 < cap \<Longrightarrow> calcPos cap k < cap"
  by (simp add: calcPos_def)

lemma contents_add_inserted:
  "map content (fd_add_inserted f pos dat) = map content dat"
  by (rule nth_equalityI) simp_all

lemma contents_set_content:
  "map content (fd_set_content s c dat) = (map content dat)[s := c]"
  by (rule nth_equalityI) (simp_all add: nth_list_update)

text \<open>Entries, homes and occupation depend on the contents only.\<close>

lemma map_filter_contents: "List.map_filter content xs = List.map_filter id (map content xs)"
  by (induction xs) (auto simp: List.map_filter_def)

lemma filter_homed_contents:
  "length (filter (homed cap pos) xs) =
   length (filter (\<lambda>c. case c of None \<Rightarrow> False | Some (k, _) \<Rightarrow> calcPos cap k = pos) (map content xs))"
  by (induction xs) (auto simp: homed_def split: option.splits)

lemma filter_occupied_contents:
  "length (filter occupied xs) = length (filter (\<lambda>c. c \<noteq> None) (map content xs))"
  by (induction xs) (auto simp: occupied_def)

lemma entries_set_content:
  assumes "s < length dat"
  shows "List.map_filter content (fd_set_content s c dat) =
    List.map_filter content (take s dat) @ (case c of None \<Rightarrow> [] | Some e \<Rightarrow> [e]) @
    List.map_filter content (drop (Suc s) dat)"
  using assms
  by (simp add: fd_set_content_def upd_conv_take_nth_drop List.map_filter_def split: option.splits)

lemma entries_split:
  assumes "s < length dat"
  shows "List.map_filter content dat =
    List.map_filter content (take s dat) @ (case content (dat ! s) of None \<Rightarrow> [] | Some e \<Rightarrow> [e]) @
    List.map_filter content (drop (Suc s) dat)"
  by (subst (1) id_take_nth_drop [OF assms]) (simp add: List.map_filter_def split: option.splits)

lemma entries_add_inserted [simp]:
  "List.map_filter content (fd_add_inserted f pos dat) = List.map_filter content dat"
  by (simp add: map_filter_contents contents_add_inserted)

lemma homed_add_inserted [simp]:
  "length (filter (homed cap p) (fd_add_inserted f pos dat)) = length (filter (homed cap p) dat)"
  by (simp add: filter_homed_contents contents_add_inserted)

lemma occupied_add_inserted [simp]:
  "length (filter occupied (fd_add_inserted f pos dat)) = length (filter occupied dat)"
  by (simp add: filter_occupied_contents contents_add_inserted)

lemma set_entries:
  "e \<in> set (List.map_filter content dat) \<longleftrightarrow> (\<exists>s < length dat. content (dat ! s) = Some e)"
proof -
  have "e \<in> set (List.map_filter content dat) \<longleftrightarrow> (\<exists>c \<in> set dat. content c = Some e)"
    by (induction dat) (auto simp del: not_Some_eq split_paired_Ex simp: List.map_filter_simps split: option.splits)
  then show ?thesis by (metis in_set_conv_nth)
qed

lemma slot_unique:
  assumes "distinct (map fst (List.map_filter content dat))"
    and "s < length dat" "content (dat ! s) = Some (k, v)"
    and "t < length dat" "content (dat ! t) = Some (k, w)"
  shows "s = t"
proof (rule ccontr)
  assume "s \<noteq> t"
  have "(k, w) \<in> set (List.map_filter content (take s dat)) \<union>
      set (List.map_filter content (drop (Suc s) dat))"
  proof (cases "t < s")
    case True
    with assms(2,5) show ?thesis by (auto simp: set_entries intro!: exI [of _ t])
  next
    case False
    with \<open>s \<noteq> t\<close> have "dat ! t = drop (Suc s) dat ! (t - Suc s)" "t - Suc s < length (drop (Suc s) dat)"
      using assms(2,4) by auto
    with assms(5) show ?thesis by (auto simp: set_entries)
  qed
  then have "k \<in> fst ` (set (List.map_filter content (take s dat)) \<union>
      set (List.map_filter content (drop (Suc s) dat)))"
    by force
  moreover have "distinct (map fst (List.map_filter content (take s dat)) @ [k] @
      map fst (List.map_filter content (drop (Suc s) dat)))"
    using assms(1) by (subst (asm) entries_split [OF assms(2)]) (simp add: assms(3))
  ultimately show False by auto
qed


section \<open>The probe loops\<close>

lemma fd_probe_sound:
  "fd_probe dat pos num key i j = Some s \<Longrightarrow>
   s < length dat \<and> (\<exists>v. content (dat ! s) = Some (key, v))"
proof (induction dat pos num key i j rule: fd_probe.induct)
  case (1 dat pos num key i j)
  have "0 < length dat" if "i < length dat" using that by linarith
  with "1.prems" "1.IH" show ?case
    unfolding fd_probe.simps [of dat pos num key i j]
    by (auto split: if_splits option.splits)
qed

text \<open>
  The early exit loses nothing: as long as \<open>j\<close> plus the number of keys of this home position in
  the slots still ahead is the stored count, a slot ahead that holds the key is reached.
\<close>

lemma fd_probe_complete:
  assumes "i' < length dat" and "i \<le> i'"
    and "content (dat ! ((i' + pos) mod length dat)) = Some (key, v)"
    and "calcPos (length dat) key = pos"
    and "num = j + length (filter (homed (length dat) pos) (drop i (rotate pos dat)))"
  shows "fd_probe dat pos num key i j \<noteq> None"
  using assms
proof (induction dat pos num key i j rule: fd_probe.induct)
  case (1 dat pos num key i j)
  let ?c = "dat ! ((i + pos) mod length dat)"
  let ?H = "homed (length dat) pos"
  have i: "i < length dat" using "1.prems" by simp
  have rot: "rotate pos dat ! k = dat ! ((k + pos) mod length dat)" if "k < length dat" for k
    using that by (simp add: nth_rotate add.commute)
  have drop: "drop i (rotate pos dat) = ?c # drop (Suc i) (rotate pos dat)"
    using i by (simp add: Cons_nth_drop_Suc [symmetric] rot)
  have "drop i (rotate pos dat) ! (i' - i) = dat ! ((i' + pos) mod length dat)"
    using "1.prems" by (simp add: rot)
  then have "0 < length (filter ?H (drop i (rotate pos dat)))"
    using "1.prems" by (intro length_filter_pos [where i = "i' - i"]) (auto simp: homed_def)
  then have guard: "i < length dat \<and> j < num" using i "1.prems"(5) by simp
  have step: "Suc i \<le> i'" if "\<And>v. content ?c \<noteq> Some (key, v)"
    using that "1.prems"(2,3) by (cases "i = i'") auto
  show ?case
  proof (cases "content ?c")
    case None
    then have "fd_probe dat pos num key (Suc i) j \<noteq> None"
      using guard "1.prems" step drop by (intro "1.IH"(1)) (auto simp: homed_def)
    then show ?thesis using guard None by (subst fd_probe.simps) simp
  next
    case (Some e)
    obtain key2 w where e: "e = (key2, w)" by force
    show ?thesis
    proof (cases "key2 = key")
      case True
      then show ?thesis using guard Some e by (subst fd_probe.simps) simp
    next
      case False
      then have s: "Suc i \<le> i'" using Some e by (intro step) auto
      show ?thesis
      proof (cases "calcPos (length dat) key2 = pos")
        case True
        then have "fd_probe dat pos num key (Suc i) (Suc j) \<noteq> None"
          using guard "1.prems" s drop Some e False
          by (intro "1.IH"(2)) (auto simp: homed_def)
        then show ?thesis using guard Some e False True by (subst fd_probe.simps) simp
      next
        case ne: False
        then have "fd_probe dat pos num key (Suc i) j \<noteq> None"
          using guard "1.prems" s drop Some e False
          by (intro "1.IH"(3)) (auto simp: homed_def)
        then show ?thesis using guard Some e False ne by (subst fd_probe.simps) simp
      qed
    qed
  qed
qed

lemma fd_free_Some:
  "fd_free dat pos i = Some k \<Longrightarrow>
   i \<le> k \<and> k < length dat \<and> content (dat ! ((k + pos) mod length dat)) = None \<and>
   (\<forall>m. i \<le> m \<and> m < k \<longrightarrow> content (dat ! ((m + pos) mod length dat)) \<noteq> None)"
proof (induction dat pos i rule: fd_free.induct)
  case (1 dat pos i)
  show ?case
  proof (cases "i < length dat \<and> content (dat ! ((i + pos) mod length dat)) \<noteq> None")
    case True
    then have "fd_free dat pos (Suc i) = Some k"
      using "1.prems" unfolding fd_free.simps [of dat pos i] by auto
    then have IH: "Suc i \<le> k \<and> k < length dat \<and> content (dat ! ((k + pos) mod length dat)) = None \<and>
        (\<forall>m. Suc i \<le> m \<and> m < k \<longrightarrow> content (dat ! ((m + pos) mod length dat)) \<noteq> None)"
      using True by (intro "1.IH") auto
    have "content (dat ! ((m + pos) mod length dat)) \<noteq> None" if "i \<le> m \<and> m < k" for m
      using that IH True by (cases "m = i") auto
    with IH show ?thesis by simp
  next
    case False
    with "1.prems" show ?thesis by (subst (asm) fd_free.simps) (auto split: if_splits)
  qed
qed

lemma fd_free_None:
  "fd_free dat pos i = None \<Longrightarrow> i \<le> k \<Longrightarrow> k < length dat \<Longrightarrow>
   content (dat ! ((k + pos) mod length dat)) \<noteq> None"
proof (induction dat pos i rule: fd_free.induct)
  case (1 dat pos i)
  then have i: "i < length dat" by simp
  with "1.prems"(1) have occ: "content (dat ! ((i + pos) mod length dat)) \<noteq> None"
    by (subst (asm) fd_free.simps) (auto split: if_splits)
  with "1.prems"(1) i have "fd_free dat pos (Suc i) = None"
    by (subst (asm) fd_free.simps) simp
  with i occ "1.IH" "1.prems" show ?case by (cases "k = i") auto
qed

text \<open>Every slot is some offset away from every home position.\<close>

lemma offset_exists:
  assumes "s < n" "pos < (n :: nat)"
  shows "\<exists>i < n. (i + pos) mod n = s"
proof (cases "pos \<le> s")
  case True
  with assms show ?thesis by (intro exI [of _ "s - pos"]) auto
next
  case False
  with assms show ?thesis by (intro exI [of _ "s + n - pos"]) auto
qed

lemma fd_free_total:
  assumes "length (filter occupied dat) < length dat" and "pos < length dat"
  shows "fd_free dat pos 0 \<noteq> None"
proof
  assume none: "fd_free dat pos 0 = None"
  have "occupied (dat ! s)" if s: "s < length dat" for s
  proof -
    obtain i where "i < length dat" "(i + pos) mod length dat = s"
      using offset_exists [OF s assms(2)] by blast
    then show ?thesis using fd_free_None [OF none, of i] by (simp add: occupied_def)
  qed
  then have "filter occupied dat = dat" by (auto simp: filter_id_conv in_set_conv_nth)
  with assms(1) show False by simp
qed

section \<open>Lookup\<close>

lemma fd_invD:
  assumes "fd_inv d"
  shows "fd_cnt d < length (fd_data d)" and "0 < length (fd_data d)"
    and "fd_cnt d = length (filter occupied (fd_data d))"
    and "distinct (map fst (List.map_filter content (fd_data d)))"
    and "pos < length (fd_data d) \<Longrightarrow>
      numInserted (fd_data d ! pos) = length (filter (homed (length (fd_data d)) pos) (fd_data d))"
  using assms by (auto simp: fd_inv_def fd_entries_def)

lemma fd_lookup_slot:
  assumes "fd_inv d"
  shows "fd_lookup d k = Some v \<longleftrightarrow>
    (\<exists>s < length (fd_data d). content (fd_data d ! s) = Some (k, v))"
  using fd_invD(4) [OF assms]
  by (simp add: fd_lookup_def fd_entries_def set_entries)

lemma fd_find_slot:
  assumes inv: "fd_inv d"
  shows "fd_find d k = Some s \<longleftrightarrow>
    s < length (fd_data d) \<and> (\<exists>v. content (fd_data d ! s) = Some (k, v))"
proof
  assume "fd_find d k = Some s"
  then show "s < length (fd_data d) \<and> (\<exists>v. content (fd_data d ! s) = Some (k, v))"
    by (auto simp: fd_find_def Let_def dest: fd_probe_sound)
next
  assume s: "s < length (fd_data d) \<and> (\<exists>v. content (fd_data d ! s) = Some (k, v))"
  let ?n = "length (fd_data d)" and ?pos = "calcPos (length (fd_data d)) k"
  have pos: "?pos < ?n" using fd_invD(2) [OF inv] by (rule calcPos_less)
  obtain i where i: "i < ?n" "(i + ?pos) mod ?n = s" using offset_exists s pos by blast
  obtain v where v: "content (fd_data d ! s) = Some (k, v)" using s by blast
  have "fd_probe (fd_data d) ?pos (numInserted (fd_data d ! ?pos)) k 0 0 \<noteq> None"
    by (rule fd_probe_complete [where i' = i and v = v])
       (use i v fd_invD(5) [OF inv pos] in simp_all)
  then obtain t where t: "fd_find d k = Some t" by (auto simp: fd_find_def Let_def)
  then have "t < ?n \<and> (\<exists>w. content (fd_data d ! t) = Some (k, w))"
    by (auto simp: fd_find_def Let_def dest: fd_probe_sound)
  then have "t = s" using slot_unique [OF fd_invD(4) [OF inv]] s by blast
  with t show "fd_find d k = Some s" by simp
qed

lemma fd_find_None:
  assumes "fd_inv d"
  shows "fd_find d k = None \<longleftrightarrow> fd_lookup d k = None"
proof -
  have "fd_find d k \<noteq> None \<longleftrightarrow> fd_lookup d k \<noteq> None"
    by (auto simp: fd_find_slot [OF assms] fd_lookup_slot [OF assms])
  then show ?thesis by blast
qed

lemma fd_find_at:
  assumes "fd_inv d" and "fd_find d k = Some s"
  shows "fd_lookup d k = fd_at d s" and "fd_at d s \<noteq> None"
  using assms by (auto simp: fd_find_slot fd_at_def fd_lookup_slot)


section \<open>Updates\<close>

lemma map_eqI_Some: "(\<And>k v. m k = Some v \<longleftrightarrow> m' k = Some v) \<Longrightarrow> m = m'"
  by (rule ext) (metis not_Some_eq)

lemma homed_set_content:
  assumes "s < length dat"
  shows "length (filter (homed cap p) (fd_set_content s c dat)) + (if homed cap p (dat ! s) then 1 else 0)
    = length (filter (homed cap p) dat)
      + (if (case c of None \<Rightarrow> False | Some (k, _) \<Rightarrow> calcPos cap k = p) then 1 else 0)"
  using length_filter_update [OF assms, of "homed cap p" "(dat ! s)\<lparr>content := c\<rparr>"]
  by (simp add: fd_set_content_def homed_def)

lemma occupied_set_content:
  assumes "s < length dat"
  shows "length (filter occupied (fd_set_content s c dat)) + (if occupied (dat ! s) then 1 else 0)
    = length (filter occupied dat) + (if c \<noteq> None then 1 else 0)"
  using length_filter_update [OF assms, of occupied "(dat ! s)\<lparr>content := c\<rparr>"]
  by (simp add: fd_set_content_def occupied_def)

lemma distinct_set_content:
  assumes "distinct (map fst (List.map_filter content dat))" and "s < length dat"
    and "\<And>k v. c = Some (k, v) \<Longrightarrow>
      (\<exists>w. content (dat ! s) = Some (k, w)) \<or> k \<notin> fst ` set (List.map_filter content dat)"
  shows "distinct (map fst (List.map_filter content (fd_set_content s c dat)))"
proof (cases c)
  case None
  with assms(1) show ?thesis
    by (subst (asm) entries_split [OF assms(2)])
       (auto simp: entries_set_content [OF assms(2)] split: option.splits)
next
  case (Some e)
  obtain k v where e: "e = (k, v)" by force
  let ?A = "List.map_filter content (take s dat)" and ?B = "List.map_filter content (drop (Suc s) dat)"
  have AB: "distinct (map fst ?A @ map fst ?B)"
    using assms(1) by (subst (asm) entries_split [OF assms(2)]) (auto split: option.splits)
  have "(\<exists>w. content (dat ! s) = Some (k, w)) \<or> k \<notin> fst ` set (List.map_filter content dat)"
    using assms(3) [of k v] Some e by simp
  then have "k \<notin> fst ` set ?A \<union> fst ` set ?B"
  proof (elim disjE)
    assume "\<exists>w. content (dat ! s) = Some (k, w)"
    then show ?thesis
      using assms(1) by (subst (asm) entries_split [OF assms(2)]) (auto, (metis fst_conv image_eqI)+)
  next
    assume "k \<notin> fst ` set (List.map_filter content dat)"
    then show ?thesis by (subst (asm) entries_split [OF assms(2)]) auto
  qed
  with AB Some e show ?thesis by (simp add: entries_set_content [OF assms(2)])
qed

text \<open>Which entries are stored after a slot changed.\<close>

lemma slot_set_content [simp]:
  assumes "s < length dat"
  shows "(\<exists>t < length dat. content (fd_set_content s c dat ! t) = Some e) \<longleftrightarrow>
    c = Some e \<or> (\<exists>t < length dat. t \<noteq> s \<and> content (dat ! t) = Some e)"
proof -
  have "(\<exists>t < length dat. content (fd_set_content s c dat ! t) = Some e) \<longleftrightarrow>
      (\<exists>t < length dat. (if t = s then c else content (dat ! t)) = Some e)"
    by (simp cong: conj_cong)
  also have "\<dots> \<longleftrightarrow> c = Some e \<or> (\<exists>t < length dat. t \<noteq> s \<and> content (dat ! t) = Some e)"
    using assms by auto
  finally show ?thesis .
qed

lemma slot_add_inserted [simp]:
  assumes "length dat = n"
  shows "(\<exists>t < n. content (fd_add_inserted f p dat ! t) = Some e) \<longleftrightarrow>
    (\<exists>t < n. content (dat ! t) = Some e)"
  using assms by (auto simp: conj_commute cong: conj_cong)

text \<open>Replacing the value of a stored key.\<close>

lemma fd_replace_inv:
  assumes inv: "fd_inv d" and s: "s < length (fd_data d)" "content (fd_data d ! s) = Some (k, w)"
  shows "fd_inv (d\<lparr>fd_data := fd_set_content s (Some (k, v)) (fd_data d)\<rparr>)"
    and "fd_lookup (d\<lparr>fd_data := fd_set_content s (Some (k, v)) (fd_data d)\<rparr>) = (fd_lookup d)(k \<mapsto> v)"
proof -
  let ?d = "d\<lparr>fd_data := fd_set_content s (Some (k, v)) (fd_data d)\<rparr>"
  note I = fd_invD [OF inv]
  have "length (filter (homed (length (fd_data d)) p) (fd_data ?d))
      = length (filter (homed (length (fd_data d)) p) (fd_data d))" for p
    using homed_set_content [OF s(1), of "length (fd_data d)" p "Some (k, v)"] s(2)
    by (simp add: homed_def split: if_splits)
  moreover have "length (filter occupied (fd_data ?d)) = length (filter occupied (fd_data d))"
    using occupied_set_content [OF s(1), of "Some (k, v)"] s(2) by (simp add: occupied_def)
  moreover have "distinct (map fst (List.map_filter content (fd_data ?d)))"
    using distinct_set_content [OF I(4) s(1), of "Some (k, v)"] s(2) by simp
  ultimately show inv': "fd_inv ?d"
    using I(1,3,5) by (simp add: fd_inv_def fd_entries_def)
  have uniq: "t = s" if "t < length (fd_data d)" "content (fd_data d ! t) = Some (k, u)" for t u
    using slot_unique [OF I(4)] that s by blast
  show "fd_lookup ?d = (fd_lookup d)(k \<mapsto> v)"
  proof (rule map_eqI_Some)
    fix k' v'
    have "fd_lookup ?d k' = Some v' \<longleftrightarrow>
        (k' = k \<and> v' = v) \<or> (\<exists>t < length (fd_data d). t \<noteq> s \<and> content (fd_data d ! t) = Some (k', v'))"
      using s(1) fd_lookup_slot [OF inv', of k' v'] by auto
    also have "\<dots> \<longleftrightarrow> ((fd_lookup d)(k \<mapsto> v)) k' = Some v'"
      using s by (auto simp: fd_lookup_slot [OF inv] dest: uniq)
    finally show "fd_lookup ?d k' = Some v' \<longleftrightarrow> ((fd_lookup d)(k \<mapsto> v)) k' = Some v'" .
  qed
qed

text \<open>Filling a free slot with a key that is not stored.\<close>

lemma fd_insert_inv:
  fixes d :: "'v FixedDict" and v :: 'v
  assumes inv: "fd_inv d" and s: "s < length (fd_data d)" "content (fd_data d ! s) = None"
    and new: "fd_lookup d k = None" and room: "Suc (fd_cnt d) < length (fd_data d)"
  defines "d' \<equiv> \<lparr>fd_data = fd_add_inserted Suc (calcPos (length (fd_data d)) k)
      (fd_set_content s (Some (k, v)) (fd_data d)), fd_cnt = Suc (fd_cnt d)\<rparr>"
  shows "fd_inv d'" and "fd_lookup d' = (fd_lookup d)(k \<mapsto> v)"
proof -
  note I = fd_invD [OF inv]
  have fresh: "k \<notin> fst ` set (List.map_filter content (fd_data d))"
    using new by (simp add: fd_lookup_def fd_entries_def map_of_eq_None_iff)
  have "length (filter (homed (length (fd_data d)) p) (fd_set_content s (Some (k, v)) (fd_data d)))
      = length (filter (homed (length (fd_data d)) p) (fd_data d))
        + (if calcPos (length (fd_data d)) k = p then 1 else 0)" for p
    using homed_set_content [OF s(1), of "length (fd_data d)" p "Some (k, v)"] s(2)
    by (simp add: homed_def)
  moreover have "length (filter occupied (fd_set_content s (Some (k, v)) (fd_data d)))
      = Suc (length (filter occupied (fd_data d)))"
    using occupied_set_content [OF s(1), of "Some (k, v)"] s(2) by (simp add: occupied_def)
  moreover have "distinct (map fst (List.map_filter content (fd_set_content s (Some (k, v)) (fd_data d))))"
    using distinct_set_content [OF I(4) s(1), of "Some (k, v)"] fresh by simp
  ultimately show inv': "fd_inv d'"
    using I(3,5) room by (auto simp: d'_def fd_inv_def fd_entries_def)
  show "fd_lookup d' = (fd_lookup d)(k \<mapsto> v)"
  proof (rule map_eqI_Some)
    fix k' v'
    have "fd_lookup d' k' = Some v' \<longleftrightarrow>
        (k' = k \<and> v' = v) \<or> (\<exists>t < length (fd_data d). t \<noteq> s \<and> content (fd_data d ! t) = Some (k', v'))"
      using s(1) fd_lookup_slot [OF inv', of k' v'] by (auto simp: d'_def)
    also have "\<dots> \<longleftrightarrow> ((fd_lookup d)(k \<mapsto> v)) k' = Some v'"
      using s new fd_lookup_slot [OF inv, of k] fd_lookup_slot [OF inv, of k' v'] by auto
    finally show "fd_lookup d' k' = Some v' \<longleftrightarrow> ((fd_lookup d)(k \<mapsto> v)) k' = Some v'" .
  qed
qed

text \<open>Emptying the slot of a stored key.\<close>

lemma fd_remove_inv:
  assumes inv: "fd_inv d" and s: "s < length (fd_data d)" "content (fd_data d ! s) = Some (k, w)"
  defines "d' \<equiv> \<lparr>fd_data = fd_add_inserted (\<lambda>n. n - 1) (calcPos (length (fd_data d)) k)
      (fd_set_content s None (fd_data d)), fd_cnt = fd_cnt d - 1\<rparr>"
  shows "fd_inv d'" and "fd_lookup d' = (fd_lookup d)(k := None)"
    and "0 < fd_cnt d" and "0 < numInserted (fd_data d ! calcPos (length (fd_data d)) k)"
proof -
  let ?n = "length (fd_data d)"
  note I = fd_invD [OF inv]
  have hc: "length (filter (homed ?n p) (fd_set_content s None (fd_data d)))
        + (if calcPos ?n k = p then 1 else 0)
      = length (filter (homed ?n p) (fd_data d))" for p
    using homed_set_content [OF s(1), of ?n p None] s(2) by (simp add: homed_def)
  have oc: "Suc (length (filter occupied (fd_set_content s None (fd_data d))))
      = length (filter occupied (fd_data d))"
    using occupied_set_content [OF s(1), of None] s(2) by (simp add: occupied_def)
  show "0 < fd_cnt d" using oc I(3) by linarith
  show "0 < numInserted (fd_data d ! calcPos ?n k)"
    using hc [of "calcPos ?n k"] I(5) [OF calcPos_less [OF I(2)], of k] by (simp del: length_greater_0_conv)
  have "numInserted (fd_data d' ! p) = length (filter (homed ?n p) (fd_data d'))" if "p < ?n" for p
    using hc [of p] I(5) [OF that] that by (auto simp: d'_def split: if_splits)
  moreover have "distinct (map fst (List.map_filter content (fd_set_content s None (fd_data d))))"
    using distinct_set_content [OF I(4) s(1), of None] by simp
  moreover have "length (filter occupied (fd_set_content s None (fd_data d))) = fd_cnt d - 1"
    using oc I(3) by linarith
  ultimately show inv': "fd_inv d'"
    using I(1) by (simp add: fd_inv_def fd_entries_def d'_def)
  have uniq: "t = s" if "t < ?n" "content (fd_data d ! t) = Some (k, u)" for t u
    using slot_unique [OF I(4)] that s by blast
  show "fd_lookup d' = (fd_lookup d)(k := None)"
  proof (rule map_eqI_Some)
    fix k' v'
    have "fd_lookup d' k' = Some v' \<longleftrightarrow>
        (\<exists>t < ?n. t \<noteq> s \<and> content (fd_data d ! t) = Some (k', v'))"
      using s(1) fd_lookup_slot [OF inv', of k' v'] by (auto simp: d'_def)
    also have "\<dots> \<longleftrightarrow> ((fd_lookup d)(k := None)) k' = Some v'"
      using s by (auto simp: fd_lookup_slot [OF inv] dest: uniq)
    finally show "fd_lookup d' k' = Some v' \<longleftrightarrow> ((fd_lookup d)(k := None)) k' = Some v'" .
  qed
qed


section \<open>Contracts of the operations\<close>

lemma fd_find_replace:
  "fd_probe (fd_data d) (calcPos (length (fd_data d)) k)
     (numInserted (fd_data d ! calcPos (length (fd_data d)) k)) k 0 0 = fd_find d k"
  by (simp add: fd_find_def Let_def)

lemma fd_emplace_present:
  assumes inv: "fd_inv d" and find: "fd_find d k = Some s"
  shows "fd_emplace d k v =
    Inr (Some s, d\<lparr>fd_data := fd_set_content s (Some (k, v)) (fd_data d)\<rparr>)"
  using fd_invD(1) [OF inv] find
  by (simp add: fd_emplace_def Let_def fd_find_replace)

lemma fd_emplace_absent:
  assumes inv: "fd_inv d" and find: "fd_find d k = None"
  obtains i where "fd_free (fd_data d) (calcPos (length (fd_data d)) k) 0 = Some i"
    and "fd_emplace d k v =
      (if Suc (fd_cnt d) = length (fd_data d) then Inl AssertFailed
       else if length (fd_data d) \<le> i + calcPos (length (fd_data d)) k then Inl OutOfBounds
       else Inr (Some (i + calcPos (length (fd_data d)) k),
         \<lparr>fd_data = fd_add_inserted Suc (calcPos (length (fd_data d)) k)
            (fd_set_content (i + calcPos (length (fd_data d)) k) (Some (k, v)) (fd_data d)),
          fd_cnt = Suc (fd_cnt d)\<rparr>))"
proof -
  let ?n = "length (fd_data d)" and ?p = "calcPos (length (fd_data d)) k"
  note I = fd_invD [OF inv]
  have "fd_free (fd_data d) ?p 0 \<noteq> None"
    using I(1,3) by (intro fd_free_total calcPos_less [OF I(2)]) simp
  then obtain i where i: "fd_free (fd_data d) ?p 0 = Some i" by blast
  show thesis
    by (rule that [OF i]) (use I(1) i find in \<open>auto simp: fd_emplace_def Let_def fd_find_replace\<close>)
qed

lemma fd_emplace_stored:
  assumes inv: "fd_inv d" and emp: "fd_emplace d k v = Inr (Some s, d')"
  shows "fd_inv d'" and "fd_lookup d' = (fd_lookup d)(k \<mapsto> v)"
    and "length (fd_data d') = length (fd_data d)"
    and "s < length (fd_data d')" and "content (fd_data d' ! s) = Some (k, v)"
proof -
  have "fd_inv d' \<and> fd_lookup d' = (fd_lookup d)(k \<mapsto> v) \<and> length (fd_data d') = length (fd_data d) \<and>
      s < length (fd_data d') \<and> content (fd_data d' ! s) = Some (k, v)"
  proof (cases "fd_find d k")
    case (Some t)
    with fd_find_slot [OF inv] obtain w
      where t: "t < length (fd_data d)" "content (fd_data d ! t) = Some (k, w)" by blast
    from emp fd_emplace_present [OF inv Some, of v] have
      "s = t" and "d' = d\<lparr>fd_data := fd_set_content t (Some (k, v)) (fd_data d)\<rparr>" by auto
    with fd_replace_inv [OF inv t, of v] t show ?thesis by simp
  next
    case None
    let ?p = "calcPos (length (fd_data d)) k"
    obtain i where i: "fd_free (fd_data d) ?p 0 = Some i"
      and res: "fd_emplace d k v =
        (if Suc (fd_cnt d) = length (fd_data d) then Inl AssertFailed
         else if length (fd_data d) \<le> i + ?p then Inl OutOfBounds
         else Inr (Some (i + ?p),
           \<lparr>fd_data = fd_add_inserted Suc ?p (fd_set_content (i + ?p) (Some (k, v)) (fd_data d)),
            fd_cnt = Suc (fd_cnt d)\<rparr>))"
      by (rule fd_emplace_absent [OF inv None])
    from emp res have ok: "Suc (fd_cnt d) < length (fd_data d)" "i + ?p < length (fd_data d)"
      and s: "s = i + ?p"
      and d': "d' = \<lparr>fd_data = fd_add_inserted Suc ?p (fd_set_content (i + ?p) (Some (k, v)) (fd_data d)),
            fd_cnt = Suc (fd_cnt d)\<rparr>"
      using fd_invD(1) [OF inv] by (auto split: if_splits)
    from fd_free_Some [OF i] ok have free: "content (fd_data d ! (i + ?p)) = None" by simp
    from None have "fd_lookup d k = None" by (simp add: fd_find_None [OF inv])
    with fd_insert_inv [OF inv ok(2) free _ ok(1), of k v] s d' ok(2) show ?thesis by simp
  qed
  then show "fd_inv d'" and "fd_lookup d' = (fd_lookup d)(k \<mapsto> v)"
    and "length (fd_data d') = length (fd_data d)"
    and "s < length (fd_data d')" and "content (fd_data d' ! s) = Some (k, v)" by auto
qed

text \<open>The null iterator is never returned: the assertion stops the process one key earlier.\<close>

lemma fd_emplace_never_null:
  assumes inv: "fd_inv d"
  shows "fd_emplace d k v \<noteq> Inr (None, d')"
proof (cases "fd_find d k")
  case (Some s)
  then show ?thesis by (simp add: fd_emplace_present [OF inv])
next
  case None
  show ?thesis by (rule fd_emplace_absent [OF inv None, of v]) (auto split: if_splits)
qed

lemma fd_erase_spec:
  assumes inv: "fd_inv d"
  shows "fd_inv (snd (fd_erase d k))" and "fd_lookup (snd (fd_erase d k)) = (fd_lookup d)(k := None)"
    and "fst (fd_erase d k) \<longleftrightarrow> fd_lookup d k \<noteq> None"
    and "length (fd_data (snd (fd_erase d k))) = length (fd_data d)"
proof -
  have "fd_inv (snd (fd_erase d k)) \<and> fd_lookup (snd (fd_erase d k)) = (fd_lookup d)(k := None) \<and>
      (fst (fd_erase d k) \<longleftrightarrow> fd_lookup d k \<noteq> None) \<and>
      length (fd_data (snd (fd_erase d k))) = length (fd_data d)"
  proof (cases "fd_find d k")
    case None
    then show ?thesis
      using inv fd_find_None [OF inv, of k]
      by (auto simp: fd_erase_def Let_def fd_find_replace fun_upd_idem)
  next
    case (Some s)
    with fd_find_slot [OF inv] obtain w
      where s: "s < length (fd_data d)" "content (fd_data d ! s) = Some (k, w)" by blast
    with fd_remove_inv [OF inv s] Some fd_find_None [OF inv, of k] show ?thesis
      by (simp add: fd_erase_def Let_def fd_find_replace)
  qed
  then show "fd_inv (snd (fd_erase d k))" and "fd_lookup (snd (fd_erase d k)) = (fd_lookup d)(k := None)"
    and "fst (fd_erase d k) \<longleftrightarrow> fd_lookup d k \<noteq> None"
    and "length (fd_data (snd (fd_erase d k))) = length (fd_data d)" by auto
qed

lemma fd_put_spec:
  assumes inv: "fd_inv d" and find: "fd_find d k = Some s"
  shows "fd_inv (fd_put d s v)" and "fd_lookup (fd_put d s v) = (fd_lookup d)(k \<mapsto> v)"
    and "fd_find (fd_put d s v) k = Some s" and "fd_at (fd_put d s v) s = Some v"
    and "length (fd_data (fd_put d s v)) = length (fd_data d)"
proof -
  from find fd_find_slot [OF inv] obtain w
    where s: "s < length (fd_data d)" "content (fd_data d ! s) = Some (k, w)" by blast
  then have put: "fd_put d s v = d\<lparr>fd_data := fd_set_content s (Some (k, v)) (fd_data d)\<rparr>"
    by (simp add: fd_put_def)
  show inv': "fd_inv (fd_put d s v)" and "fd_lookup (fd_put d s v) = (fd_lookup d)(k \<mapsto> v)"
    using fd_replace_inv [OF inv s, of v] put by simp_all
  show "fd_at (fd_put d s v) s = Some v" and "length (fd_data (fd_put d s v)) = length (fd_data d)"
    using s put by (simp_all add: fd_at_def)
  show "fd_find (fd_put d s v) k = Some s"
    unfolding fd_find_slot [OF inv'] using s by (simp add: put)
qed

lemma fd_new_inv:
  assumes "0 < cap"
  shows "fd_inv (fd_new cap :: 'v FixedDict)" and "fd_lookup (fd_new cap :: 'v FixedDict) = Map.empty"
proof -
  have [simp]: "List.map_filter content (replicate cap (fd_empty_slot :: 'v TContent)) = []"
    by (induction cap) (simp_all add: fd_empty_slot_def)
  have [simp]: "content (fd_empty_slot :: 'v TContent) = None" "numInserted (fd_empty_slot :: 'v TContent) = 0"
    by (simp_all add: fd_empty_slot_def)
  show "fd_inv (fd_new cap :: 'v FixedDict)" and "fd_lookup (fd_new cap :: 'v FixedDict) = Map.empty"
    using assms
    by (simp_all add: fd_inv_def fd_new_def fd_entries_def fd_lookup_def
        homed_def occupied_def filter_empty_conv)
qed


section \<open>The interface the TCP server relies on\<close>

text \<open>
  A table of values under keys with iterators, as the TCP server uses it: what a lookup sees after
  each operation, and what every operation keeps. The server's handlers use only these laws.
\<close>

locale client_table =
  fixes find :: "'d \<Rightarrow> 'k \<Rightarrow> 'i option"
    and emplace :: "'d \<Rightarrow> 'k \<Rightarrow> 'v \<Rightarrow> fault + ('i option \<times> 'd)"
    and erase :: "'d \<Rightarrow> 'k \<Rightarrow> bool \<times> 'd"
    and at :: "'d \<Rightarrow> 'i \<Rightarrow> 'v option"
    and put :: "'d \<Rightarrow> 'i \<Rightarrow> 'v \<Rightarrow> 'd"
    and lookup :: "'d \<Rightarrow> 'k \<Rightarrow> 'v option"
    and inv :: "'d \<Rightarrow> bool"
  assumes find_None: "inv d \<Longrightarrow> find d k = None \<longleftrightarrow> lookup d k = None"
    and find_at: "inv d \<Longrightarrow> find d k = Some i \<Longrightarrow> at d i = lookup d k"
    and emplace_inv: "inv d \<Longrightarrow> emplace d k v = Inr (Some i, d') \<Longrightarrow> inv d'"
    and emplace_lookup: "inv d \<Longrightarrow> emplace d k v = Inr (Some i, d') \<Longrightarrow> lookup d' = (lookup d)(k \<mapsto> v)"
    and emplace_find: "inv d \<Longrightarrow> emplace d k v = Inr (Some i, d') \<Longrightarrow> find d' k = Some i"
    and emplace_null: "inv d \<Longrightarrow> emplace d k v \<noteq> Inr (None, d')"
    and erase_inv: "inv d \<Longrightarrow> inv (snd (erase d k))"
    and erase_lookup: "inv d \<Longrightarrow> lookup (snd (erase d k)) = (lookup d)(k := None)"
    and put_inv: "inv d \<Longrightarrow> find d k = Some i \<Longrightarrow> inv (put d i v)"
    and put_lookup: "inv d \<Longrightarrow> find d k = Some i \<Longrightarrow> lookup (put d i v) = (lookup d)(k \<mapsto> v)"
    and put_find: "inv d \<Longrightarrow> find d k = Some i \<Longrightarrow> find (put d i v) k = Some i"
begin

lemma find_lookup: "inv d \<Longrightarrow> find d k = Some i \<Longrightarrow> \<exists>v. lookup d k = Some v \<and> at d i = Some v"
  using find_None [of d k] find_at [of d k i] by auto

lemma put_at: "inv d \<Longrightarrow> find d k = Some i \<Longrightarrow> at (put d i v) i = Some v"
  using find_at [OF put_inv put_find] put_lookup by simp

lemma emplace_at: "inv d \<Longrightarrow> emplace d k v = Inr (Some i, d') \<Longrightarrow> at d' i = Some v"
  using find_at [OF emplace_inv emplace_find] emplace_lookup by simp

text \<open>Writing through an iterator the emplace returned, and giving the entry up again.\<close>

lemma emplace_put:
  assumes "inv d" and "emplace d k v = Inr (Some i, d')"
  shows "inv (put d' i w)" and "lookup (put d' i w) = (lookup d)(k \<mapsto> w)"
    and "find (put d' i w) k = Some i" and "at (put d' i w) i = Some w"
  using assms emplace_inv emplace_find emplace_lookup put_inv put_lookup put_find put_at
  by (metis, metis fun_upd_upd, metis+)

lemma emplace_put_erase:
  assumes "inv d" and "lookup d k = None" and "emplace d k v = Inr (Some i, d')"
  shows "lookup (snd (erase (put d' i w) k)) = lookup d"
  using emplace_put [OF assms(1,3), of w] erase_lookup assms(2) by (simp add: fun_upd_idem)

end

interpretation fd: client_table fd_find fd_emplace fd_erase fd_at fd_put fd_lookup fd_inv
proof unfold_locales
  fix d d' :: "'a FixedDict" and k i v
  show "fd_inv d \<Longrightarrow> fd_find d k = None \<longleftrightarrow> fd_lookup d k = None" by (rule fd_find_None)
  show "fd_inv d \<Longrightarrow> fd_find d k = Some i \<Longrightarrow> fd_at d i = fd_lookup d k" by (simp add: fd_find_at)
  show "fd_inv d \<Longrightarrow> fd_emplace d k v = Inr (Some i, d') \<Longrightarrow> fd_inv d'"
    and "fd_inv d \<Longrightarrow> fd_emplace d k v = Inr (Some i, d') \<Longrightarrow> fd_lookup d' = (fd_lookup d)(k \<mapsto> v)"
    by (rule fd_emplace_stored; assumption)+
  show "fd_inv d \<Longrightarrow> fd_emplace d k v = Inr (Some i, d') \<Longrightarrow> fd_find d' k = Some i"
    using fd_emplace_stored [of d k v i d'] fd_find_slot [of d'] by auto
  show "fd_inv d \<Longrightarrow> fd_emplace d k v \<noteq> Inr (None, d')" by (rule fd_emplace_never_null)
qed (simp_all add: fd_erase_spec fd_put_spec)

section \<open>Runs of table operations\<close>

datatype 'v dict_op = DEmplace u64 'v | DErase u64

fun fd_step :: "'v FixedDict \<Rightarrow> 'v dict_op \<Rightarrow> fault + 'v FixedDict" where
  "fd_step d (DEmplace k v) = bindR (fd_emplace d k v) (\<lambda>(_, d'). Inr d')"
| "fd_step d (DErase k) = Inr (snd (fd_erase d k))"

text \<open>The abstract specification: the same operations on a partial map.\<close>

fun map_step :: "(u64 \<Rightarrow> 'v option) \<Rightarrow> 'v dict_op \<Rightarrow> (u64 \<Rightarrow> 'v option)" where
  "map_step m (DEmplace k v) = m(k \<mapsto> v)"
| "map_step m (DErase k) = m(k := None)"

lemma fd_step_spec:
  assumes "fd_inv d" and "fd_step d e = Inr d'"
  shows "fd_inv d' \<and> fd_lookup d' = map_step (fd_lookup d) e \<and>
    length (fd_data d') = length (fd_data d)"
proof (cases e)
  case (DEmplace k v)
  with assms obtain r where r: "fd_emplace d k v = Inr (r, d')" by (auto simp: fault_simps)
  then obtain s where "r = Some s" using fd.emplace_null [OF assms(1)] by (cases r) auto
  with r DEmplace fd_emplace_stored [OF assms(1)] show ?thesis by simp
next
  case (DErase k)
  with assms fd_erase_spec [OF assms(1)] show ?thesis by auto
qed

interpretation fd_run: kept_invariant fd_step fd_inv
  by unfold_locales (simp add: fd_step_spec)

lemma fd_run_spec:
  "fd_inv d \<Longrightarrow> run_all fd_step d es = Inr d' \<Longrightarrow> fd_lookup d' = foldl map_step (fd_lookup d) es"
proof (induction es arbitrary: d)
  case (Cons e es)
  then obtain d1 where d1: "fd_step d e = Inr d1" "run_all fd_step d1 es = Inr d'"
    by (auto simp: fault_simps)
  with fd_step_spec [OF Cons.prems(1)] Cons.IH [of d1] show ?case by simp
qed simp


section \<open>Properties\<close>

text \<open>
  Property (C23). \<^verbatim>\<open>find\<close> is exact on every well-formed table: the early exit of the probe loop
  neither misses a stored key nor returns another one.
\<close>

theorem fd_find_correct:
  assumes "fd_inv d"
  shows "(case fd_find d k of None \<Rightarrow> fd_lookup d k = None
    | Some s \<Rightarrow> s < length (fd_data d) \<and> fd_lookup d k = fd_at d s \<and> fd_at d s \<noteq> None)"
  using fd_find_None [OF assms, of k] fd_find_at [OF assms, of k] fd_find_slot [OF assms, of k]
  by (auto split: option.split)

text \<open>
  A table of four slots in which keys 2 and 6 collide at position 2 and key 2 was erased again.
\<close>

definition fd_demo :: "nat FixedDict" where
  "fd_demo = \<lparr>fd_data = [\<lparr>numInserted = 0, content = None\<rparr>, \<lparr>numInserted = 0, content = None\<rparr>,
      \<lparr>numInserted = 1, content = None\<rparr>, \<lparr>numInserted = 0, content = Some (6, 60)\<rparr>], fd_cnt = 1\<rparr>"

lemma fd_demo_run:
  "run_all fd_step (fd_new 4) [DEmplace 2 20, DEmplace 6 60, DErase 2] = Inr fd_demo"
  by code_simp

lemma fd_demo_inv: "fd_inv fd_demo"
  by code_simp

theorem fd_find_correct_witness:
  "fd_inv fd_demo \<and> fd_find fd_demo 6 = Some 3 \<and> fd_lookup fd_demo 6 = Some 60"
proof -
  have "fd_find fd_demo 6 = Some 3" by code_simp
  moreover have "fd_at fd_demo 3 = Some 60" by code_simp
  ultimately show ?thesis using fd_find_correct [OF fd_demo_inv, of 6] fd_demo_inv by simp
qed

text \<open>
  \<^verbatim>\<open>emplace\<close> refines the update of a map: when it returns an iterator, the
  table is well-formed again, the key and only that key has the new value, and the iterator is what
  \<^verbatim>\<open>find\<close> returns for it.
\<close>

theorem fd_emplace_refines:
  assumes "fd_inv d" and "fd_emplace d k v = Inr (Some s, d')"
  shows "fd_inv d' \<and> fd_lookup d' = (fd_lookup d)(k \<mapsto> v) \<and> fd_find d' k = Some s \<and>
    fd_at d' s = Some v"
  using fd.emplace_inv [OF assms] fd.emplace_lookup [OF assms] fd.emplace_find [OF assms]
    fd.emplace_at [OF assms] by simp

theorem fd_emplace_refines_witness:
  "fd_emplace fd_demo 2 22 = Inr (Some 2, \<lparr>fd_data = [\<lparr>numInserted = 0, content = None\<rparr>,
      \<lparr>numInserted = 0, content = None\<rparr>, \<lparr>numInserted = 2, content = Some (2, 22)\<rparr>,
      \<lparr>numInserted = 0, content = Some (6, 60)\<rparr>], fd_cnt = 2\<rparr>) \<and>
   (\<exists>d'. fd_emplace fd_demo 2 22 = Inr (Some 2, d') \<and> fd_lookup d' = (fd_lookup fd_demo)(2 \<mapsto> 22))"
proof -
  let ?d = "\<lparr>fd_data = [\<lparr>numInserted = 0, content = None\<rparr>,
      \<lparr>numInserted = 0, content = None\<rparr>, \<lparr>numInserted = 2, content = Some (2, 22)\<rparr>,
      \<lparr>numInserted = 0, content = Some (6, 60)\<rparr>], fd_cnt = 2\<rparr>"
  have e: "fd_emplace fd_demo 2 22 = Inr (Some 2, ?d)" by code_simp
  then show ?thesis using fd_emplace_refines [OF fd_demo_inv e] by blast
qed

text \<open>
  Property (C22). When \<^verbatim>\<open>emplace\<close> cannot store a new key it does not return the null iterator
  its caller checks for: the process stops. Exactly, on a well-formed table without the key, the
  assertion fails when one slot is free, and the returned address lies outside the array when two
  or more are free and every slot from the home position to the end is taken (the probe then wrapped
  around, but the index of the returned element is not reduced modulo the capacity).
\<close>

theorem fd_emplace_faults:
  assumes "fd_inv d" and "fd_lookup d k = None"
  shows "(fd_emplace d k v = Inl AssertFailed \<longleftrightarrow> Suc (fd_cnt d) = length (fd_data d)) \<and>
    (fd_emplace d k v = Inl OutOfBounds \<longleftrightarrow>
       Suc (fd_cnt d) < length (fd_data d) \<and>
       (\<forall>s. calcPos (length (fd_data d)) k \<le> s \<and> s < length (fd_data d) \<longrightarrow>
          content (fd_data d ! s) \<noteq> None)) \<and>
    (\<forall>d'. fd_emplace d k v \<noteq> Inr (None, d'))"
proof -
  let ?n = "length (fd_data d)" and ?p = "calcPos (length (fd_data d)) k"
  have none: "fd_find d k = None" using assms by (simp add: fd_find_None)
  obtain i where i: "fd_free (fd_data d) ?p 0 = Some i"
    and res: "fd_emplace d k v =
      (if Suc (fd_cnt d) = ?n then Inl AssertFailed
       else if ?n \<le> i + ?p then Inl OutOfBounds
       else Inr (Some (i + ?p),
         \<lparr>fd_data = fd_add_inserted Suc ?p (fd_set_content (i + ?p) (Some (k, v)) (fd_data d)),
          fd_cnt = Suc (fd_cnt d)\<rparr>))"
    by (rule fd_emplace_absent [OF assms(1) none])
  have wrap: "?n \<le> i + ?p \<longleftrightarrow> (\<forall>s. ?p \<le> s \<and> s < ?n \<longrightarrow> content (fd_data d ! s) \<noteq> None)"
  proof
    assume far: "?n \<le> i + ?p"
    show "\<forall>s. ?p \<le> s \<and> s < ?n \<longrightarrow> content (fd_data d ! s) \<noteq> None"
    proof (intro allI impI)
      fix s
      assume s: "?p \<le> s \<and> s < ?n"
      then have "s - ?p < i" using far by linarith
      moreover have "(s - ?p + ?p) mod ?n = s" using s by simp
      ultimately show "content (fd_data d ! s) \<noteq> None"
        using fd_free_Some [OF i] by (metis le0)
    qed
  next
    assume full: "\<forall>s. ?p \<le> s \<and> s < ?n \<longrightarrow> content (fd_data d ! s) \<noteq> None"
    show "?n \<le> i + ?p"
    proof (rule ccontr)
      assume "\<not> ?n \<le> i + ?p"
      then show False using full fd_free_Some [OF i] by (auto dest: spec [of _ "i + ?p"])
    qed
  qed
  show ?thesis
    using res wrap fd_invD(1) [OF assms(1)] fd_emplace_never_null [OF assms(1)] by (auto split: if_splits)
qed

definition fd_demo_wrap :: "nat FixedDict" where
  "fd_demo_wrap = \<lparr>fd_data = [\<lparr>numInserted = 0, content = None\<rparr>, \<lparr>numInserted = 0, content = None\<rparr>,
      \<lparr>numInserted = 0, content = None\<rparr>, \<lparr>numInserted = 1, content = Some (1, 10)\<rparr>], fd_cnt = 1\<rparr>"

theorem fd_emplace_faults_witness: "fd_emplace fd_demo_wrap 5 50 = Inl OutOfBounds"
proof -
  have inv: "fd_inv fd_demo_wrap" and new: "fd_lookup fd_demo_wrap 5 = None"
    and pos: "calcPos 4 5 = 3" and len: "length (fd_data fd_demo_wrap) = 4" "fd_cnt fd_demo_wrap = 1"
    and last: "content (fd_data fd_demo_wrap ! 3) = Some (1, 10)"
    by code_simp+
  have "content (fd_data fd_demo_wrap ! s) \<noteq> None" if "3 \<le> s \<and> s < 4" for s
    using that last by (cases "s = 3") auto
  then show ?thesis
    using fd_emplace_faults [OF inv new, of 50] unfolding len pos by auto
qed

text \<open>
  \<^verbatim>\<open>erase\<close> refines the removal from a map: it reports whether the key was there,
  removes it and nothing else, and its two counter decrements never start from zero.
\<close>

theorem fd_erase_refines:
  assumes "fd_inv d"
  shows "fd_inv (snd (fd_erase d k)) \<and>
    fd_lookup (snd (fd_erase d k)) = (fd_lookup d)(k := None) \<and>
    (fst (fd_erase d k) \<longleftrightarrow> fd_lookup d k \<noteq> None) \<and>
    (fst (fd_erase d k) \<longrightarrow>
       0 < fd_cnt d \<and> 0 < numInserted (fd_data d ! calcPos (length (fd_data d)) k))"
proof -
  have "0 < fd_cnt d \<and> 0 < numInserted (fd_data d ! calcPos (length (fd_data d)) k)"
    if "fst (fd_erase d k)"
    using that fd_lookup_slot [OF assms, of k] fd_remove_inv(3,4) [OF assms]
    by (auto simp: fd_erase_spec [OF assms])
  then show ?thesis using fd_erase_spec [OF assms] by blast
qed

theorem fd_erase_refines_witness:
  "fst (fd_erase fd_demo 6) \<and> fd_lookup (snd (fd_erase fd_demo 6)) 6 = None \<and> \<not> fst (fd_erase fd_demo 2)"
proof -
  have "fd_lookup fd_demo 6 = Some 60" and "fd_lookup fd_demo 2 = None" by code_simp+
  then show ?thesis
    using fd_erase_refines [OF fd_demo_inv, of 6] fd_erase_refines [OF fd_demo_inv, of 2] by simp
qed

text \<open>
  Property (C6). Over every sequence of emplaces and erases that the process survives, starting
  from an empty table, the table is a refinement of a partial map that performs the same updates,
  its size is the number of keys of that map and it is never full.
\<close>

theorem fd_runs_refine_map:
  assumes "0 < cap" and "run_all fd_step (fd_new cap) es = Inr d"
  shows "fd_lookup d = foldl map_step Map.empty es \<and> fd_size d = card (dom (fd_lookup d)) \<and>
    \<not> fd_full d"
proof -
  have inv: "fd_inv d" using fd_run.run_inv [OF fd_new_inv(1) [OF assms(1)] assms(2)] .
  have "dom (fd_lookup d) = fst ` set (fd_entries d)"
    by (simp add: fd_lookup_def dom_map_of_conv_image_fst)
  then have "card (dom (fd_lookup d)) = length (fd_entries d)"
    using fd_invD(4) [OF inv] by (metis distinct_card fd_entries_def length_map list.set_map)
  moreover have "length (fd_entries d) = length (filter occupied (fd_data d))"
    by (simp add: fd_entries_def List.map_filter_def occupied_def [abs_def])
  moreover have "fd_lookup d = foldl map_step Map.empty es"
    using fd_run_spec [OF fd_new_inv(1) [OF assms(1)] assms(2)]
    unfolding fd_new_inv(2) [OF assms(1)] .
  ultimately show ?thesis
    using fd_invD(1,3) [OF inv] by (simp add: fd_size_def fd_full_def)
qed

theorem fd_runs_refine_map_witness:
  "fd_lookup fd_demo = foldl map_step Map.empty [DEmplace 2 20, DEmplace 6 60, DErase 2] \<and>
   \<not> fd_full fd_demo"
  using fd_runs_refine_map [of 4 "[DEmplace 2 20, DEmplace 6 60, DErase 2]" fd_demo] fd_demo_run by simp

end
