(* ===== verification/Circular.thy ===== *)
theory Circular
  imports Prelude
begin

text \<open>
  \<^verbatim>\<open>bus_mp_sc\<close> of \<^verbatim>\<open>core/circular.hxx\<close>: the ring through which threads pass messages. The ring
  starts with \<^verbatim>\<open>readPos = 0\<close> and \<^verbatim>\<open>writePos = 1\<close>; the messages are the slots after
  \<^verbatim>\<open>readPos\<close> and before \<^verbatim>\<open>writePos\<close>, so a ring of \<^verbatim>\<open>CAPACITY\<close> slots holds at most
  \<^verbatim>\<open>CAPACITY - 1\<close> of them. This theory runs every operation to completion; the theory
  \<^verbatim>\<open>BusSteps\<close> interleaves the atomic accesses of several threads.

  The capacity is the length of the array. An index outside it is a fault.
\<close>

section \<open>State and operations\<close>

record 'a bus_mp_sc =
  readPos :: nat
  bus_data :: "'a list"
  writePos :: nat

text \<open>A new ring over an array (its slots are default-initialised by the code).\<close>

definition bus_new :: "'a list \<Rightarrow> 'a bus_mp_sc" where
  "bus_new dat = \<lparr>readPos = 0, bus_data = dat, writePos = 1\<rparr>"

definition CAPACITY :: "'a bus_mp_sc \<Rightarrow> nat" where
  "CAPACITY b = length (bus_data b)"

definition bus_read :: "'a bus_mp_sc \<Rightarrow> nat \<Rightarrow> fault + 'a" where
  "bus_read b i = (if i < CAPACITY b then Inr (bus_data b ! i) else Inl OutOfBounds)"

definition bus_front :: "'a bus_mp_sc \<Rightarrow> fault + 'a" where
  "bus_front b = (let rp = readPos b in bus_read b rp)"

definition bus_back :: "'a bus_mp_sc \<Rightarrow> fault + 'a" where
  "bus_back b = (let wp = writePos b in bus_read b ((wp + CAPACITY b - 1) mod CAPACITY b))"

definition bus_empty :: "'a bus_mp_sc \<Rightarrow> bool" where
  "bus_empty b = (let wp = writePos b; rp = readPos b in (rp + 1) mod CAPACITY b = wp)"

text \<open>\<^verbatim>\<open>push\<close>: \<open>-1\<close> and an unchanged ring when it is full.\<close>

definition bus_push :: "'a bus_mp_sc \<Rightarrow> 'a \<Rightarrow> fault + (int \<times> 'a bus_mp_sc)" where
  "bus_push b given =
     (let wp = writePos b; rp = readPos b in
      if wp = rp then Inr (-1, b)
      else if \<not> wp < CAPACITY b then Inl OutOfBounds
      else Inr (0, b\<lparr>bus_data := (bus_data b)[wp := given], writePos := (wp + 1) mod CAPACITY b\<rparr>))"

definition bus_pop_front :: "'a bus_mp_sc \<Rightarrow> 'a bus_mp_sc" where
  "bus_pop_front b = (let rp = readPos b in b\<lparr>readPos := (rp + 1) mod CAPACITY b\<rparr>)"

section \<open>The queue a ring stands for\<close>

definition bus_inv :: "'a bus_mp_sc \<Rightarrow> bool" where
  "bus_inv b \<longleftrightarrow> 1 < CAPACITY b \<and> readPos b < CAPACITY b \<and> writePos b < CAPACITY b"

definition bus_len :: "'a bus_mp_sc \<Rightarrow> nat" where
  "bus_len b = (writePos b + CAPACITY b - readPos b - 1) mod CAPACITY b"

definition bus_slot :: "'a bus_mp_sc \<Rightarrow> nat \<Rightarrow> nat" where
  "bus_slot b i = (readPos b + 1 + i) mod CAPACITY b"

definition bus_list :: "'a bus_mp_sc \<Rightarrow> 'a list" where
  "bus_list b = map (\<lambda>i. bus_data b ! bus_slot b i) [0..<bus_len b]"

text \<open>How many messages fit.\<close>

definition bus_room :: "'a bus_mp_sc \<Rightarrow> nat" where
  "bus_room b = CAPACITY b - 1"

lemma bus_new_inv: "1 < length dat \<Longrightarrow> bus_inv (bus_new dat) \<and> bus_list (bus_new dat) = []"
  by (auto simp: bus_inv_def bus_new_def CAPACITY_def bus_list_def bus_len_def)

section \<open>Index arithmetic\<close>

lemma bus_len_cases:
  assumes "bus_inv b"
  shows "bus_len b = (if readPos b < writePos b then writePos b - readPos b - 1
    else writePos b + CAPACITY b - readPos b - 1)"
  unfolding bus_len_def using assms
  by (subst mod_wrap) (auto simp: bus_inv_def)

lemma bus_slot_cases:
  assumes "bus_inv b" and "i < CAPACITY b"
  shows "bus_slot b i = (if readPos b + 1 + i < CAPACITY b then readPos b + 1 + i
    else readPos b + 1 + i - CAPACITY b)"
  unfolding bus_slot_def using assms
  by (subst mod_wrap) (auto simp: bus_inv_def)

lemma bus_len_bound: "bus_inv b \<Longrightarrow> bus_len b \<le> bus_room b"
  by (auto simp: bus_len_cases bus_room_def bus_inv_def)

lemma bus_len_full: "bus_inv b \<Longrightarrow> bus_len b = bus_room b \<longleftrightarrow> writePos b = readPos b"
  by (auto simp: bus_len_cases bus_room_def bus_inv_def)

lemma bus_slot_write:
  assumes "bus_inv b" and "i < CAPACITY b"
  shows "bus_slot b i = writePos b \<longleftrightarrow> i = bus_len b"
  using assms bus_len_bound [OF assms(1)]
  by (auto simp: bus_slot_cases bus_len_cases bus_inv_def bus_room_def split: if_splits)

lemma bus_slot_less: "bus_inv b \<Longrightarrow> bus_slot b i < CAPACITY b"
  by (simp add: bus_slot_def bus_inv_def)

lemma bus_list_length [simp]: "length (bus_list b) = bus_len b"
  by (simp add: bus_list_def)

lemma bus_list_nth: "i < bus_len b \<Longrightarrow> bus_list b ! i = bus_data b ! bus_slot b i"
  by (simp add: bus_list_def)

lemma suc_mod: "wp < n \<Longrightarrow> Suc wp mod n = (if Suc wp = n then 0 else Suc wp)" for n :: nat
  by auto

section \<open>Contracts\<close>

lemma bus_empty_iff: "bus_inv b \<Longrightarrow> bus_empty b \<longleftrightarrow> bus_list b = []"
  unfolding bus_empty_def Let_def length_0_conv [symmetric] bus_list_length
  by (auto simp: bus_inv_def suc_mod bus_len_cases split: if_splits)

lemma bus_push_full: "bus_inv b \<Longrightarrow> bus_len b = bus_room b \<Longrightarrow> bus_push b x = Inr (-1, b)"
  by (simp add: bus_push_def bus_len_full)

lemma bus_push_room:
  assumes inv: "bus_inv b" and room: "bus_len b < bus_room b"
  shows "\<exists>b'. bus_push b x = Inr (0, b') \<and> bus_inv b' \<and> bus_list b' = bus_list b @ [x] \<and>
    CAPACITY b' = CAPACITY b \<and> readPos b' = readPos b"
proof -
  let ?b = "b\<lparr>bus_data := (bus_data b)[writePos b := x], writePos := Suc (writePos b) mod CAPACITY b\<rparr>"
  have ne: "writePos b \<noteq> readPos b" using room bus_len_full [OF inv] by simp
  have push: "bus_push b x = Inr (0, ?b)"
    using ne inv by (simp add: bus_push_def Let_def bus_inv_def)
  have inv': "bus_inv ?b"
    using inv by (auto simp: bus_inv_def CAPACITY_def intro!: mod_less_divisor)
  have len: "bus_len ?b = Suc (bus_len b)"
    using inv ne by (subst (1 2) bus_len_cases) (auto simp: inv inv' suc_mod bus_inv_def CAPACITY_def)
  have slot: "bus_slot ?b i = bus_slot b i" for i by (simp add: bus_slot_def CAPACITY_def)
  have "bus_list ?b = bus_list b @ [x]"
  proof (rule nth_equalityI)
    fix i
    assume "i < length (bus_list ?b)"
    then have i: "i < Suc (bus_len b)" by (simp add: len)
    with room have ic: "i < CAPACITY b" by (simp add: bus_room_def)
    show "bus_list ?b ! i = (bus_list b @ [x]) ! i"
    proof (cases "i = bus_len b")
      case True
      then have "bus_slot b i = writePos b" using bus_slot_write [OF inv ic] by simp
      moreover have "writePos b < length (bus_data b)"
        using inv by (simp add: bus_inv_def CAPACITY_def)
      ultimately show ?thesis using True by (simp add: bus_list_nth len slot nth_append)
    next
      case False
      then have "bus_slot b i \<noteq> writePos b" using bus_slot_write [OF inv ic] by simp
      with False i show ?thesis by (simp add: bus_list_nth len slot nth_append)
    qed
  qed (simp add: len)
  with push inv' show ?thesis by (simp add: CAPACITY_def)
qed

lemma bus_pop_tl:
  assumes inv: "bus_inv b" and ne: "bus_list b \<noteq> []"
  shows "bus_inv (bus_pop_front b) \<and> bus_list (bus_pop_front b) = tl (bus_list b) \<and>
    CAPACITY (bus_pop_front b) = CAPACITY b"
proof -
  let ?b = "bus_pop_front b"
  have f: "readPos ?b = (readPos b + 1) mod CAPACITY b" "writePos ?b = writePos b"
    "bus_data ?b = bus_data b" "CAPACITY ?b = CAPACITY b"
    by (simp_all add: bus_pop_front_def Let_def CAPACITY_def)
  have inv': "bus_inv ?b" using inv by (simp add: bus_inv_def f)
  have pos: "0 < bus_len b" using ne by (metis bus_list_length length_greater_0_conv)
  have len: "bus_len b = Suc (bus_len ?b)"
    using inv pos by (auto simp: bus_len_cases inv inv' f suc_mod bus_inv_def split: if_splits)
  have slot: "bus_slot ?b i = bus_slot b (Suc i)" for i
    using mod_add_left_eq [of "readPos b + 1" "CAPACITY b" "1 + i"]
    by (simp add: bus_slot_def f)
  have "bus_list ?b = tl (bus_list b)"
    by (rule nth_equalityI) (simp_all add: len nth_tl bus_list_nth slot f)
  with inv' f show ?thesis by simp
qed

lemma bus_front_pop:
  assumes inv: "bus_inv b" and ne: "bus_list b \<noteq> []"
  shows "bus_front (bus_pop_front b) = Inr (hd (bus_list b))"
proof -
  have pos: "0 < bus_len b" using ne by (metis bus_list_length length_greater_0_conv)
  have "hd (bus_list b) = bus_data b ! bus_slot b 0"
    using ne pos by (simp add: hd_conv_nth bus_list_nth)
  with bus_slot_less [OF inv, of 0] show ?thesis
    by (simp add: bus_front_def bus_read_def bus_pop_front_def Let_def bus_slot_def CAPACITY_def)
qed

lemma bus_back_last:
  assumes inv: "bus_inv b" and ne: "bus_list b \<noteq> []"
  shows "bus_back b = Inr (last (bus_list b))"
proof -
  have pos: "0 < bus_len b" using ne by (metis bus_list_length length_greater_0_conv)
  have c: "bus_len b - 1 < CAPACITY b"
    using inv bus_len_bound [OF inv] by (auto simp: bus_inv_def bus_room_def)
  have "(writePos b + CAPACITY b - 1) mod CAPACITY b = bus_slot b (bus_len b - 1)"
    using inv pos
    using c by (subst mod_wrap) (auto simp: bus_slot_cases inv bus_len_cases bus_inv_def split: if_splits)
  moreover have "last (bus_list b) = bus_data b ! bus_slot b (bus_len b - 1)"
    using ne pos by (simp add: last_conv_nth bus_list_nth)
  ultimately show ?thesis
    using bus_slot_less [OF inv] by (simp add: bus_back_def bus_read_def Let_def)
qed


section \<open>The queue interface\<close>

text \<open>
  What the threads expect of a message queue: a bounded first-in-first-out queue whose \<open>push\<close>
  reports \<open>0\<close> or, when no message fits, \<open>-1\<close>.
\<close>

locale bounded_queue =
  fixes push :: "'q \<Rightarrow> 'a \<Rightarrow> fault + (int \<times> 'q)"
    and pop :: "'q \<Rightarrow> 'q"
    and isempty :: "'q \<Rightarrow> bool"
    and newest :: "'q \<Rightarrow> fault + 'a"
    and contents :: "'q \<Rightarrow> 'a list"
    and room :: "'q \<Rightarrow> nat"
    and inv :: "'q \<Rightarrow> bool"
  assumes bound: "inv q \<Longrightarrow> length (contents q) \<le> room q"
    and push_ok: "inv q \<Longrightarrow> length (contents q) < room q \<Longrightarrow>
      \<exists>q'. push q x = Inr (0, q') \<and> inv q' \<and> contents q' = contents q @ [x] \<and> room q' = room q"
    and push_full: "inv q \<Longrightarrow> length (contents q) = room q \<Longrightarrow> push q x = Inr (-1, q)"
    and pop_tl: "inv q \<Longrightarrow> contents q \<noteq> [] \<Longrightarrow>
      inv (pop q) \<and> contents (pop q) = tl (contents q) \<and> room (pop q) = room q"
    and empty_iff: "inv q \<Longrightarrow> isempty q \<longleftrightarrow> contents q = []"
    and back_last: "inv q \<Longrightarrow> contents q \<noteq> [] \<Longrightarrow> newest q = Inr (last (contents q))"
begin

lemma push_total: "inv q \<Longrightarrow> \<exists>r q'. push q x = Inr (r, q') \<and> inv q' \<and> room q' = room q"
  using bound [of q] push_ok [of q x] push_full [of q x]
  by (cases "length (contents q) = room q") auto

lemma push_cases:
  assumes "inv q" and "push q x = Inr (r, q')"
  shows "inv q' \<and> room q' = room q \<and>
    (r = 0 \<and> length (contents q) < room q \<and> contents q' = contents q @ [x] \<or>
     r = -1 \<and> length (contents q) = room q \<and> q' = q)"
  using assms bound [of q] push_ok [of q x] push_full [of q x]
  by (cases "length (contents q) = room q") auto

lemma push_back: "inv q \<Longrightarrow> push q x = Inr (0, q') \<Longrightarrow> newest q' = Inr x \<and> \<not> isempty q'"
  using push_cases [of q x 0 q'] back_last [of q'] empty_iff [of q'] by auto

lemma push_pop: "inv q \<Longrightarrow> isempty q \<Longrightarrow> push q x = Inr (0, q') \<Longrightarrow> isempty (pop q')"
  using push_cases [of q x 0 q'] pop_tl [of q'] empty_iff [of q] empty_iff [of "pop q'"] by auto

end

interpretation bus: bounded_queue bus_push bus_pop_front bus_empty bus_back bus_list bus_room bus_inv
proof unfold_locales
  fix q :: "'a bus_mp_sc" and x
  show "bus_inv q \<Longrightarrow> length (bus_list q) < bus_room q \<Longrightarrow>
      \<exists>q'. bus_push q x = Inr (0, q') \<and> bus_inv q' \<and> bus_list q' = bus_list q @ [x] \<and> bus_room q' = bus_room q"
    using bus_push_room [of q x] by (auto simp: bus_room_def)
  show "bus_inv q \<Longrightarrow> length (bus_list q) \<le> bus_room q" by (simp add: bus_len_bound)
qed (simp_all add: bus_push_full bus_pop_tl bus_empty_iff bus_back_last bus_room_def)

section \<open>Runs of pushes and pops\<close>

datatype 'a bus_op = BPush 'a | BPop

fun bus_step :: "'a bus_mp_sc \<Rightarrow> 'a bus_op \<Rightarrow> fault + 'a bus_mp_sc" where
  "bus_step b (BPush x) = bindR (bus_push b x) (\<lambda>(_, b'). Inr b')"
| "bus_step b BPop = Inr (bus_pop_front b)"

text \<open>The specification: a list that takes a message only while fewer than \<open>n\<close> are waiting.\<close>

fun queue_step :: "nat \<Rightarrow> 'a list \<Rightarrow> 'a bus_op \<Rightarrow> 'a list" where
  "queue_step n xs (BPush x) = (if length xs < n then xs @ [x] else xs)"
| "queue_step n xs BPop = tl xs"

text \<open>The consumer pops only a queue that is not empty.\<close>

primrec pops_guarded :: "nat \<Rightarrow> 'a list \<Rightarrow> 'a bus_op list \<Rightarrow> bool" where
  "pops_guarded n xs [] = True"
| "pops_guarded n xs (e # es) =
     ((e = BPop \<longrightarrow> xs \<noteq> []) \<and> pops_guarded n (queue_step n xs e) es)"

lemma bus_run_refines:
  assumes "bus_inv b" and "pops_guarded (bus_room b) (bus_list b) es"
  shows "\<exists>b'. run_all bus_step b es = Inr b' \<and> bus_inv b' \<and>
    bus_list b' = foldl (queue_step (bus_room b)) (bus_list b) es"
  using assms
proof (induction es arbitrary: b)
  case (Cons e es)
  have "\<exists>b1. bus_step b e = Inr b1 \<and> bus_inv b1 \<and> bus_room b1 = bus_room b \<and>
      bus_list b1 = queue_step (bus_room b) (bus_list b) e"
  proof (cases e)
    case (BPush x)
    obtain r b1 where r: "bus_push b x = Inr (r, b1)" using bus.push_total [OF Cons.prems(1)] by blast
    with bus.push_cases [OF Cons.prems(1) r] BPush show ?thesis by auto
  next
    case BPop
    with Cons.prems bus.pop_tl [OF Cons.prems(1)] show ?thesis by simp
  qed
  then obtain b1 where "bus_step b e = Inr b1" "bus_inv b1" "bus_room b1 = bus_room b"
    "bus_list b1 = queue_step (bus_room b) (bus_list b) e" by blast
  with Cons.IH [of b1] Cons.prems(2) show ?case by simp
qed simp

section \<open>Properties\<close>

text \<open>
  Property (C16). A message ring of any capacity from two on is a first-in-first-out queue of
  \<^verbatim>\<open>CAPACITY - 1\<close> messages: every run of pushes and of pops of a ring that is not empty ends
  without a fault, a push is dropped exactly when the ring is full, and the messages waiting are
  those of the list specification, in order.
\<close>

theorem bus_refines_queue:
  assumes "1 < length dat" and "pops_guarded (length dat - 1) [] es"
  shows "\<exists>b. run_all bus_step (bus_new dat) es = Inr b \<and>
    bus_list b = foldl (queue_step (length dat - 1)) [] es \<and> length (bus_list b) \<le> length dat - 1 \<and>
    (bus_empty b \<longleftrightarrow> bus_list b = [])"
proof -
  have room: "bus_room (bus_new dat) = length dat - 1"
    by (simp add: bus_room_def CAPACITY_def bus_new_def)
  have n: "bus_inv (bus_new dat)" "bus_list (bus_new dat) = []" using bus_new_inv [OF assms(1)] by auto
  obtain b where b: "run_all bus_step (bus_new dat) es = Inr b" "bus_inv b"
    "bus_list b = foldl (queue_step (length dat - 1)) [] es"
    using bus_run_refines [OF n(1), of es] assms(2) unfolding room n(2) by blast
  have "length (foldl (queue_step k) xs es) \<le> k" if "length xs \<le> k" for k and xs :: "'a list"
    using that
  proof (induction es arbitrary: xs)
    case (Cons e es)
    then show ?case by (cases e) auto
  qed simp
  from this [of "[]"] have "length (bus_list b) \<le> length dat - 1" unfolding b(3) by simp
  with b bus.empty_iff [OF b(2)] show ?thesis by blast
qed

theorem bus_refines_queue_witness:
  "\<exists>b. run_all bus_step (bus_new [0, 0, 0 :: nat]) [BPush 1, BPush 2, BPush 3, BPop, BPush 4] = Inr b \<and>
     bus_list b = [2, 4]"
  using bus_refines_queue [of "[0, 0, 0 :: nat]" "[BPush 1, BPush 2, BPush 3, BPop, BPush 4]"] by auto

text \<open>
  \<^verbatim>\<open>front\<close> does not return the oldest message. On a ring that is not empty,
  popping first and calling \<^verbatim>\<open>front\<close> afterwards yields the message the pop removed; called before
  the first pop it returns the initial content of slot 0, whatever was pushed.
\<close>

theorem bus_front_lags:
  fixes b :: "'a bus_mp_sc"
  assumes "bus_inv b" and "bus_list b \<noteq> []"
  shows "bus_front (bus_pop_front b) = Inr (hd (bus_list b)) \<and>
    (\<forall>(dat :: 'a list) x b'. 1 < length dat \<and> bus_push (bus_new dat) x = Inr (0, b') \<longrightarrow>
       bus_front b' = Inr (dat ! 0) \<and> bus_list b' = [x])"
proof (intro conjI allI impI)
  show "bus_front (bus_pop_front b) = Inr (hd (bus_list b))" using assms by (rule bus_front_pop)
next
  fix dat :: "'a list" and x b'
  assume a: "1 < length dat \<and> bus_push (bus_new dat) x = Inr (0, b')"
  then have n: "bus_inv (bus_new dat)" "bus_list (bus_new dat) = []" using bus_new_inv [of dat] by auto
  with a bus.push_cases [OF n(1), of x 0 b'] show "bus_list b' = [x]" by simp
  from a show "bus_front b' = Inr (dat ! 0)"
    by (auto simp: bus_push_def bus_new_def Let_def CAPACITY_def bus_front_def bus_read_def split: if_splits)
qed

theorem bus_front_lags_witness:
  "bus_front (bus_pop_front \<lparr>readPos = 0, bus_data = [7, 8, 9 :: nat], writePos = 2\<rparr>) = Inr 8 \<and>
   bus_list \<lparr>readPos = 0, bus_data = [7, 8, 9 :: nat], writePos = 2\<rparr> = [8]"
proof -
  let ?b = "\<lparr>readPos = 0, bus_data = [7, 8, 9 :: nat], writePos = 2\<rparr>"
  have i: "bus_inv ?b" and l: "bus_list ?b = [8]" by code_simp+
  have "bus_list ?b \<noteq> []" using l by simp
  with bus_front_lags [OF i this] l show ?thesis unfolding l by auto
qed

text \<open>
  A pop of an empty ring is not guarded by the code and corrupts it: the ring then
  counts as full, all its stale slots are waiting messages and every push is refused.
\<close>

theorem bus_pop_empty_fills:
  assumes "bus_inv b" and "bus_empty b"
  shows "length (bus_list (bus_pop_front b)) = bus_room b \<and>
    (\<forall>x. bus_push (bus_pop_front b) x = Inr (-1, bus_pop_front b))"
proof -
  have w: "writePos (bus_pop_front b) = readPos (bus_pop_front b)" and
    inv: "bus_inv (bus_pop_front b)" and room: "bus_room (bus_pop_front b) = bus_room b"
    using assms
    by (auto simp: bus_pop_front_def bus_empty_def Let_def bus_inv_def CAPACITY_def bus_room_def)
  then have "bus_len (bus_pop_front b) = bus_room b" using bus_len_full by metis
  with bus.push_full [OF inv] room show ?thesis by simp
qed

theorem bus_pop_empty_fills_witness:
  "bus_push (bus_pop_front (bus_new [0, 0, 0 :: nat])) 5 = Inr (-1, bus_pop_front (bus_new [0, 0, 0]))"
proof -
  have "bus_inv (bus_new [0, 0, 0 :: nat])" and "bus_empty (bus_new [0, 0, 0 :: nat])" by code_simp+
  then show ?thesis using bus_pop_empty_fills by blast
qed

end
