(* ===== verification/Autobuf.thy ===== *)
theory Autobuf
  imports Prelude
begin

text \<open>
  \<^verbatim>\<open>aroop_autobuf\<close> of \<^verbatim>\<open>core/buffer.hxx\<close>: a smart pointer to an object that carries its own
  reference count. The class is a template over three callbacks (read the count, add to the count,
  deallocate); they are an argument here. The state \<open>'h\<close> they act on is whatever memory holds the
  objects, \<open>'p\<close> is the type of their addresses, and \<open>None\<close> is \<^verbatim>\<open>nullptr\<close>. The count is
  \<^verbatim>\<open>uint16_t\<close>, the increment \<^verbatim>\<open>int16_t\<close>, both as 16-bit words.
\<close>

section \<open>Callbacks and state\<close>

record ('h, 'p) refcount_cb =
  READ_CB :: "'h \<Rightarrow> 'p \<Rightarrow> u16 \<times> 'h"
  UPDATE_CB :: "'h \<Rightarrow> 'p \<Rightarrow> u16 \<Rightarrow> 'h"
  DEALLOC_CB :: "'h \<Rightarrow> 'p \<Rightarrow> 'h"

record 'p aroop_autobuf =
  ab_data :: "'p option"

section \<open>Operations\<close>

definition autobuf_new :: "'p aroop_autobuf" where
  "autobuf_new = \<lparr>ab_data = None\<rparr>"

text \<open>
  \<^verbatim>\<open>clear\<close>: when the count is one the object is deallocated, and in every case the count is
  decremented afterwards.
\<close>

definition autobuf_clear ::
  "('h, 'p) refcount_cb \<Rightarrow> 'p aroop_autobuf \<Rightarrow> 'h \<Rightarrow> 'p aroop_autobuf \<times> 'h" where
  "autobuf_clear cb self h =
     (case ab_data self of
        None \<Rightarrow> (self, h)
      | Some p \<Rightarrow>
          let (cnt, h1) = READ_CB cb h p;
              h2 = (if 1 = cnt then DEALLOC_CB cb h1 p else h1);
              h3 = UPDATE_CB cb h2 p (-1) in
          (self\<lparr>ab_data := None\<rparr>, h3))"

definition autobuf_destroy :: "('h, 'p) refcount_cb \<Rightarrow> 'p aroop_autobuf \<Rightarrow> 'h \<Rightarrow> 'h" where
  "autobuf_destroy cb self h = snd (autobuf_clear cb self h)"

definition autobuf_reset ::
  "('h, 'p) refcount_cb \<Rightarrow> 'p aroop_autobuf \<Rightarrow> 'p option \<Rightarrow> 'h \<Rightarrow> 'p aroop_autobuf \<times> 'h" where
  "autobuf_reset cb self givenData h =
     (if givenData = ab_data self then (self, h)
      else
        let (self1, h1) = autobuf_clear cb self h in
        case givenData of
          None \<Rightarrow> (self1, h1)
        | Some p \<Rightarrow> (self1\<lparr>ab_data := Some p\<rparr>, UPDATE_CB cb h1 p 1))"

text \<open>The converting constructor from a raw pointer: it takes an additional reference.\<close>

definition autobuf_of_ptr ::
  "('h, 'p) refcount_cb \<Rightarrow> 'p option \<Rightarrow> 'h \<Rightarrow> 'p aroop_autobuf \<times> 'h" where
  "autobuf_of_ptr cb givenData h = autobuf_reset cb autobuf_new givenData h"

text \<open>
  The move constructor and the move assignment; the result is the new value of this object, that of
  the source object, and the memory. \<open>same\<close> tells whether both are the same object.
\<close>

definition autobuf_move_new ::
  "('h, 'p) refcount_cb \<Rightarrow> 'p aroop_autobuf \<Rightarrow> 'h \<Rightarrow>
     'p aroop_autobuf \<times> 'p aroop_autobuf \<times> 'h" where
  "autobuf_move_new cb given h =
     (let (self, h1) = autobuf_clear cb autobuf_new h in
      (self\<lparr>ab_data := ab_data given\<rparr>, given\<lparr>ab_data := None\<rparr>, h1))"

definition autobuf_move_assign ::
  "('h, 'p) refcount_cb \<Rightarrow> bool \<Rightarrow> 'p aroop_autobuf \<Rightarrow> 'p aroop_autobuf \<Rightarrow> 'h \<Rightarrow>
     'p aroop_autobuf \<times> 'p aroop_autobuf \<times> 'h" where
  "autobuf_move_assign cb same self given h =
     (if same then (self, given, h)
      else
        let (self1, h1) = autobuf_clear cb self h in
        (self1\<lparr>ab_data := ab_data given\<rparr>, given\<lparr>ab_data := None\<rparr>, h1))"

definition autobuf_own ::
  "('h, 'p) refcount_cb \<Rightarrow> 'p aroop_autobuf \<Rightarrow> 'p option \<Rightarrow> 'h \<Rightarrow> 'p aroop_autobuf \<times> 'h" where
  "autobuf_own cb self givenData h =
     (let (self1, h1) = autobuf_clear cb self h in (self1\<lparr>ab_data := givenData\<rparr>, h1))"

definition autobuf_get :: "'p aroop_autobuf \<Rightarrow> 'p option" where
  "autobuf_get self = ab_data self"

definition autobuf_release :: "'p aroop_autobuf \<Rightarrow> 'p option \<times> 'p aroop_autobuf" where
  "autobuf_release self = (ab_data self, self\<lparr>ab_data := None\<rparr>)"

section \<open>The contract of the callbacks\<close>

text \<open>
  \<open>cnt\<close> is the count of an allocated object, \<open>None\<close> for one that is not allocated; \<open>ok\<close> says
  that no callback was applied to an object that is not allocated so far.
\<close>

locale refcounted =
  fixes cb :: "('h, 'p) refcount_cb"
    and cnt :: "'h \<Rightarrow> 'p \<Rightarrow> u16 option"
    and ok :: "'h \<Rightarrow> bool"
  assumes read_live: "cnt h p = Some c \<Longrightarrow> fst (READ_CB cb h p) = c \<and>
      cnt (snd (READ_CB cb h p)) = cnt h \<and> (ok (snd (READ_CB cb h p)) \<longleftrightarrow> ok h)"
    and read_dead: "cnt h p = None \<Longrightarrow> \<not> ok (snd (READ_CB cb h p))"
    and update_live: "cnt h p = Some c \<Longrightarrow> cnt (UPDATE_CB cb h p v) = (cnt h)(p \<mapsto> c + v) \<and>
      (ok (UPDATE_CB cb h p v) \<longleftrightarrow> ok h)"
    and update_dead: "cnt h p = None \<Longrightarrow> \<not> ok (UPDATE_CB cb h p v) \<and> cnt (UPDATE_CB cb h p v) = cnt h"
    and dealloc_last: "cnt h p = Some 1 \<Longrightarrow> cnt (DEALLOC_CB cb h p) = (cnt h)(p := None) \<and>
      (ok (DEALLOC_CB cb h p) \<longleftrightarrow> ok h)"
    and dealloc_dead: "cnt h p = None \<Longrightarrow> \<not> ok (DEALLOC_CB cb h p)"
begin

lemma clear_shared:
  assumes "ab_data b = Some p" and "cnt h p = Some c" and "c \<noteq> 1"
  shows "ab_data (fst (autobuf_clear cb b h)) = None \<and>
    cnt (snd (autobuf_clear cb b h)) = (cnt h)(p \<mapsto> c - 1) \<and>
    (ok (snd (autobuf_clear cb b h)) \<longleftrightarrow> ok h)"
proof -
  obtain h1 where r: "READ_CB cb h p = (c, h1)" and c1: "cnt h1 = cnt h" and o1: "ok h1 \<longleftrightarrow> ok h"
    using read_live [OF assms(2)] by (cases "READ_CB cb h p") auto
  have "cnt h1 p = Some c" using c1 assms(2) by simp
  from update_live [OF this, of "-1"] show ?thesis
    using assms r c1 o1 by (simp add: autobuf_clear_def Let_def)
qed

lemma clear_last:
  assumes "ab_data b = Some p" and "cnt h p = Some 1"
  shows "ab_data (fst (autobuf_clear cb b h)) = None \<and>
    cnt (snd (autobuf_clear cb b h)) = (cnt h)(p := None) \<and> \<not> ok (snd (autobuf_clear cb b h))"
proof -
  obtain h1 where r: "READ_CB cb h p = (1, h1)" and c1: "cnt h1 = cnt h"
    using read_live [OF assms(2)] by (cases "READ_CB cb h p") auto
  have "cnt h1 p = Some 1" using c1 assms(2) by simp
  from dealloc_last [OF this] have d: "cnt (DEALLOC_CB cb h1 p) = (cnt h)(p := None)" using c1 by simp
  then have "cnt (DEALLOC_CB cb h1 p) p = None" by simp
  from update_dead [OF this, of "-1"] show ?thesis
    using assms r d by (simp add: autobuf_clear_def Let_def)
qed

text \<open>Wrapping a live raw pointer and dropping the wrapper again leaves the count as it was.\<close>

lemma of_ptr_live:
  assumes "cnt h p = Some c"
  shows "ab_data (fst (autobuf_of_ptr cb (Some p) h)) = Some p \<and>
    cnt (snd (autobuf_of_ptr cb (Some p) h)) = (cnt h)(p \<mapsto> c + 1) \<and>
    (ok (snd (autobuf_of_ptr cb (Some p) h)) \<longleftrightarrow> ok h)"
  using update_live [OF assms, of 1]
  by (simp add: autobuf_of_ptr_def autobuf_reset_def autobuf_clear_def autobuf_new_def)

lemma of_ptr_destroy:
  assumes "cnt h p = Some c" and "c \<noteq> 0"
  shows "cnt (autobuf_destroy cb (fst (autobuf_of_ptr cb (Some p) h)) (snd (autobuf_of_ptr cb (Some p) h))) = cnt h
    \<and> (ok (autobuf_destroy cb (fst (autobuf_of_ptr cb (Some p) h)) (snd (autobuf_of_ptr cb (Some p) h))) \<longleftrightarrow> ok h)"
proof -
  let ?b = "fst (autobuf_of_ptr cb (Some p) h)" and ?h = "snd (autobuf_of_ptr cb (Some p) h)"
  have h: "ab_data ?b = Some p" "cnt ?h = (cnt h)(p \<mapsto> c + 1)" "ok ?h \<longleftrightarrow> ok h"
    using of_ptr_live [OF assms(1)] by auto
  then have "cnt ?h p = Some (c + 1)" by simp
  moreover have "c + 1 \<noteq> 1" using assms(2) by simp
  ultimately show ?thesis
    using clear_shared [OF h(1)] h assms(1) by (simp add: autobuf_destroy_def fun_upd_idem)
qed

end

section \<open>Facts that hold for any callbacks\<close>

lemma autobuf_clear_empty [simp]: "ab_data b = None \<Longrightarrow> autobuf_clear cb b h = (b, h)"
  by (simp add: autobuf_clear_def)

lemma autobuf_destroy_empty [simp]: "ab_data b = None \<Longrightarrow> autobuf_destroy cb b h = h"
  by (simp add: autobuf_destroy_def)

lemma autobuf_new_data [simp]: "ab_data autobuf_new = None"
  by (simp add: autobuf_new_def)

lemma autobuf_own_new [simp]: "autobuf_own cb autobuf_new p h = (\<lparr>ab_data = p\<rparr>, h)"
  by (simp add: autobuf_own_def autobuf_new_def)

lemma autobuf_release_simp [simp]: "autobuf_release \<lparr>ab_data = p\<rparr> = (p, \<lparr>ab_data = None\<rparr>)"
  by (simp add: autobuf_release_def)

lemma autobuf_move_new_simp [simp]:
  "autobuf_move_new cb given h = (\<lparr>ab_data = ab_data given\<rparr>, given\<lparr>ab_data := None\<rparr>, h)"
  by (simp add: autobuf_move_new_def autobuf_new_def)

section \<open>The default callbacks\<close>

text \<open>
  \<^verbatim>\<open>readUseCount\<close>, \<^verbatim>\<open>updateUseCount\<close> and \<^verbatim>\<open>free\<close>, on a heap of objects that hold a count.
  \<open>cells\<close> has the allocated objects and \<open>bad\<close> records every access to one that is not allocated,
  after which the program's behaviour is undefined.
\<close>

record heap =
  cells :: "nat \<Rightarrow> u16 option"
  bad :: "nat list"

definition readUseCount :: "heap \<Rightarrow> nat \<Rightarrow> u16 \<times> heap" where
  "readUseCount h x = (case cells h x of Some c \<Rightarrow> (c, h) | None \<Rightarrow> (0, h\<lparr>bad := x # bad h\<rparr>))"

definition updateUseCount :: "heap \<Rightarrow> nat \<Rightarrow> u16 \<Rightarrow> heap" where
  "updateUseCount h x val =
     (case cells h x of
        Some c \<Rightarrow> h\<lparr>cells := (cells h)(x \<mapsto> c + val)\<rparr>
      | None \<Rightarrow> h\<lparr>bad := x # bad h\<rparr>)"

definition heap_free :: "heap \<Rightarrow> nat \<Rightarrow> heap" where
  "heap_free h x =
     (case cells h x of
        Some _ \<Rightarrow> h\<lparr>cells := (cells h)(x := None)\<rparr>
      | None \<Rightarrow> h\<lparr>bad := x # bad h\<rparr>)"

definition default_cb :: "(heap, nat) refcount_cb" where
  "default_cb = \<lparr>READ_CB = readUseCount, UPDATE_CB = updateUseCount, DEALLOC_CB = heap_free\<rparr>"

definition heap_ok :: "heap \<Rightarrow> bool" where
  "heap_ok h = (bad h = [])"

interpretation dflt: refcounted default_cb cells heap_ok
  by unfold_locales
    (simp_all add: default_cb_def readUseCount_def updateUseCount_def heap_free_def heap_ok_def
      split: option.split)

section \<open>Text buffers\<close>

text \<open>
  \<^verbatim>\<open>aroop_txt_t\<close>, for which \<open>'p\<close> is the pointer of its \<^verbatim>\<open>rte_autobuf\<close>. Nothing
  sets its members: the hash code is the value somebody stored, if anybody did.
\<close>

datatype 'p aroop_txt_content = TxtPkt "'p aroop_autobuf" | TxtChars "nat option"

record 'p aroop_txt_t =
  txt_size :: "u16 option"
  txt_len :: "u16 option"
  txt_hash :: "u64 option"
  txt_content :: "'p aroop_txt_content"

definition txt_new :: "'p aroop_txt_t" where
  "txt_new = \<lparr>txt_size = None, txt_len = None, txt_hash = None, txt_content = TxtPkt autobuf_new\<rparr>"

definition hashCode :: "'p aroop_txt_t \<Rightarrow> fault + u64" where
  "hashCode self = useR (txt_hash self)"

section \<open>Properties\<close>

text \<open>
  Dropping one of several references decrements the count, empties the handle,
  keeps every other count and touches only allocated memory; wrapping a live object in a temporary
  handle and destroying the handle changes nothing.
\<close>

theorem autobuf_shared_drop:
  assumes "ab_data b = Some p" and "cells h p = Some c" and "c \<noteq> 1" and "c \<noteq> 0" and "heap_ok h"
  shows "cells (autobuf_destroy default_cb b h) = (cells h)(p \<mapsto> c - 1) \<and>
    heap_ok (autobuf_destroy default_cb b h) \<and>
    (let (t, h1) = autobuf_of_ptr default_cb (Some p) h in
       ab_data t = Some p \<and> cells (autobuf_destroy default_cb t h1) = cells h \<and>
       heap_ok (autobuf_destroy default_cb t h1))"
  using dflt.clear_shared [OF assms(1-3)] dflt.of_ptr_live [OF assms(2)]
    dflt.of_ptr_destroy [OF assms(2,4)] assms(5)
  by (simp add: autobuf_destroy_def split_beta)

theorem autobuf_shared_drop_witness:
  "cells (autobuf_destroy default_cb \<lparr>ab_data = Some 7\<rparr> \<lparr>cells = [7 \<mapsto> 2], bad = []\<rparr>) 7 = Some 1"
  using autobuf_shared_drop [of "\<lparr>ab_data = Some 7\<rparr>" 7 "\<lparr>cells = [7 \<mapsto> 2], bad = []\<rparr>" 2]
  by (simp add: heap_ok_def)

text \<open>
  Property (C39). Dropping the last reference frees the object and then decrements the count
  inside the freed object: a use after free on every last drop, by destructor, \<^verbatim>\<open>clear\<close>,
  \<^verbatim>\<open>reset\<close> to another object or move assignment.
\<close>

theorem autobuf_last_drop_use_after_free:
  assumes "ab_data b = Some p" and "cells h p = Some 1"
  shows "cells (autobuf_destroy default_cb b h) p = None \<and>
    \<not> heap_ok (autobuf_destroy default_cb b h) \<and>
    \<not> heap_ok (snd (autobuf_clear default_cb b h)) \<and>
    \<not> heap_ok (snd (autobuf_reset default_cb b None h)) \<and>
    \<not> heap_ok (snd (snd (autobuf_move_assign default_cb False b g h)))"
  using dflt.clear_last [OF assms] assms(1)
  by (simp add: autobuf_destroy_def autobuf_reset_def autobuf_move_assign_def split_beta)

theorem autobuf_last_drop_use_after_free_witness:
  "\<not> heap_ok (autobuf_destroy default_cb \<lparr>ab_data = Some 7\<rparr> \<lparr>cells = [7 \<mapsto> 1], bad = []\<rparr>)"
  using autobuf_last_drop_use_after_free [of "\<lparr>ab_data = Some 7\<rparr>" 7 "\<lparr>cells = [7 \<mapsto> 1], bad = []\<rparr>"]
  by simp

end
