(* ===== verification/Timer.thy ===== *)
theory Timer
  imports Prelude
begin

text \<open>
  \<^verbatim>\<open>mtimer_unit\<close> and \<^verbatim>\<open>multi_timer\<close> of \<^verbatim>\<open>core/multi_timer.hxx\<close>. The timer object and
  the functions on it belong to DPDK: \<open>'t\<close> is the type of \<^verbatim>\<open>struct rte_timer\<close> and the record
  \<open>timer_api\<close> has the functions the code calls. The callback and the kind \<^verbatim>\<open>SINGLE\<close> are the same
  in every call and are left out; \<^verbatim>\<open>uintptr_t\<close> has 64 bits.
\<close>

record 't timer_api =
  rte_timer_init :: 't
  rte_timer_state :: "'t \<Rightarrow> u16"           \<comment> \<open>\<^verbatim>\<open>status.state\<close>\<close>
  RTE_TIMER_STOP :: u16
  rte_timer_reset :: "'t \<Rightarrow> u64 \<Rightarrow> int \<Rightarrow> u64 \<Rightarrow> int \<times> 't"
  rte_timer_stop :: "'t \<Rightarrow> 't"

record 't mtimer_unit =
  tmrObj :: 't

section \<open>One timer\<close>

definition mtimer_new :: "'t timer_api \<Rightarrow> 't mtimer_unit" where
  "mtimer_new api = \<lparr>tmrObj = rte_timer_init api\<rparr>"

definition mtimer_isRunning :: "'t timer_api \<Rightarrow> 't mtimer_unit \<Rightarrow> bool" where
  "mtimer_isRunning api u = (RTE_TIMER_STOP api \<noteq> rte_timer_state api (tmrObj u))"

definition mtimer_stop :: "'t timer_api \<Rightarrow> 't mtimer_unit \<Rightarrow> 't mtimer_unit" where
  "mtimer_stop api u =
     (if mtimer_isRunning api u then u\<lparr>tmrObj := rte_timer_stop api (tmrObj u)\<rparr> else u)"

text \<open>The destructor.\<close>

definition mtimer_destroy :: "'t timer_api \<Rightarrow> 't mtimer_unit \<Rightarrow> 't mtimer_unit" where
  "mtimer_destroy api u = mtimer_stop api u"

text \<open>
  \<^verbatim>\<open>start\<close>. \<^verbatim>\<open>givenMs*100\<close> is a product of 32-bit operands, so it wraps before it is widened.
\<close>

definition mtimer_ticks :: "u32 \<Rightarrow> u64" where
  "mtimer_ticks givenMs = ucast (givenMs * 100)"

definition mtimer_tag :: "u32 \<Rightarrow> u64 \<Rightarrow> u64" where
  "mtimer_tag givenTmrEvent srcAddr = srcAddr OR push_bit 56 (ucast (0xFF AND givenTmrEvent))"

definition mtimer_start ::
  "'t timer_api \<Rightarrow> int \<Rightarrow> 't mtimer_unit \<Rightarrow> u32 \<Rightarrow> u32 \<Rightarrow> u64 \<Rightarrow> bool \<times> 't mtimer_unit" where
  "mtimer_start api thr u givenTmrEvent givenMs srcAddr =
     (let numTicks = mtimer_ticks givenMs in
      if 0 = numTicks then (False, u)
      else
        let u1 = (if mtimer_isRunning api u then mtimer_stop api u else u);
            src = mtimer_tag givenTmrEvent srcAddr;
            (rc, t) = rte_timer_reset api (tmrObj u1) numTicks thr src in
        if 0 = rc then (True, u1\<lparr>tmrObj := t\<rparr>) else (False, u1\<lparr>tmrObj := t\<rparr>))"

section \<open>The timers of one connection\<close>

record 't multi_timer =
  tmrs :: "'t mtimer_unit list"
  tm_srcAddr :: u64

definition multi_timer_new :: "'t timer_api \<Rightarrow> nat \<Rightarrow> 't multi_timer" where
  "multi_timer_new api MAX_TMR = \<lparr>tmrs = replicate MAX_TMR (mtimer_new api), tm_srcAddr = 0\<rparr>"

definition multi_timer_setSrcAddr :: "u64 \<Rightarrow> 't multi_timer \<Rightarrow> 't multi_timer" where
  "multi_timer_setSrcAddr givenSrcAddr m = m\<lparr>tm_srcAddr := givenSrcAddr\<rparr>"

text \<open>\<^verbatim>\<open>start<TMR_ID>\<close>; the index is a template argument checked at compile time.\<close>

definition multi_timer_start ::
  "'t timer_api \<Rightarrow> int \<Rightarrow> nat \<Rightarrow> u32 \<Rightarrow> 't multi_timer \<Rightarrow> bool \<times> 't multi_timer" where
  "multi_timer_start api thr TMR_ID givenMs m =
     (let (ok, u) = mtimer_start api thr (tmrs m ! TMR_ID) (of_nat TMR_ID) givenMs (tm_srcAddr m) in
      (ok, m\<lparr>tmrs := (tmrs m)[TMR_ID := u]\<rparr>))"

text \<open>Destroying the array of timers runs every destructor.\<close>

definition multi_timer_destroy :: "'t timer_api \<Rightarrow> 't multi_timer \<Rightarrow> 't multi_timer" where
  "multi_timer_destroy api m = m\<lparr>tmrs := map (mtimer_destroy api) (tmrs m)\<rparr>"

section \<open>Documented behaviour\<close>

text \<open>
  A new timer is stopped; stopping stops; a reset of a stopped timer succeeds and leaves it running.
  (DPDK refuses to stop or reset a timer only while another core works on it; the timers here are set,
  stopped and run on the core of their connection.)
\<close>

definition timer_documented :: "'t timer_api \<Rightarrow> bool" where
  "timer_documented api \<longleftrightarrow>
     rte_timer_state api (rte_timer_init api) = RTE_TIMER_STOP api \<and>
     (\<forall>t. rte_timer_state api (rte_timer_stop api t) = RTE_TIMER_STOP api) \<and>
     (\<forall>t n c a. rte_timer_state api t = RTE_TIMER_STOP api \<longrightarrow>
        fst (rte_timer_reset api t n c a) = 0 \<and>
        rte_timer_state api (snd (rte_timer_reset api t n c a)) \<noteq> RTE_TIMER_STOP api)"

lemma timer_documentedD:
  assumes "timer_documented api"
  shows "rte_timer_state api (rte_timer_init api) = RTE_TIMER_STOP api"
    and "rte_timer_state api (rte_timer_stop api t) = RTE_TIMER_STOP api"
    and "rte_timer_state api t = RTE_TIMER_STOP api \<Longrightarrow> fst (rte_timer_reset api t n c a) = 0"
    and "rte_timer_state api t = RTE_TIMER_STOP api \<Longrightarrow>
      rte_timer_state api (snd (rte_timer_reset api t n c a)) \<noteq> RTE_TIMER_STOP api"
  using assms by (auto simp: timer_documented_def)

text \<open>
  A concrete timer service with this behaviour (the object remembers its ticks and argument), and
  one whose resets always fail.
\<close>

definition demo_timer :: "(u64 \<times> u64) option timer_api" where
  "demo_timer = \<lparr>rte_timer_init = None,
     rte_timer_state = (\<lambda>t. case t of None \<Rightarrow> 0 | Some _ \<Rightarrow> 1), RTE_TIMER_STOP = 0,
     rte_timer_reset = (\<lambda>t n c a. (0, Some (n, a))), rte_timer_stop = (\<lambda>t. None)\<rparr>"

definition broken_timer :: "(u64 \<times> u64) option timer_api" where
  "broken_timer = demo_timer\<lparr>rte_timer_reset := (\<lambda>t n c a. (-1, t))\<rparr>"

lemma demo_timer_documented: "timer_documented demo_timer"
  by (simp add: timer_documented_def demo_timer_def)

section \<open>Lemmas\<close>

lemma mtimer_stop_stopped:
  "timer_documented api \<Longrightarrow> \<not> mtimer_isRunning api (mtimer_stop api u)"
  by (auto simp: mtimer_stop_def mtimer_isRunning_def timer_documentedD)

lemma mtimer_start_documented:
  assumes "timer_documented api" and "mtimer_ticks ms \<noteq> 0"
  shows "\<exists>t. rte_timer_state api t = RTE_TIMER_STOP api \<and>
    mtimer_start api thr u ev ms src =
      (True, \<lparr>tmrObj = snd (rte_timer_reset api t (mtimer_ticks ms) thr (mtimer_tag ev src))\<rparr>)"
proof -
  let ?u = "if mtimer_isRunning api u then mtimer_stop api u else u"
  have st: "rte_timer_state api (tmrObj ?u) = RTE_TIMER_STOP api"
    using mtimer_stop_stopped [OF assms(1), of u] by (auto simp: mtimer_isRunning_def)
  have "fst (rte_timer_reset api (tmrObj ?u) (mtimer_ticks ms) thr (mtimer_tag ev src)) = 0"
    by (rule timer_documentedD(3) [OF assms(1) st])
  then have "mtimer_start api thr u ev ms src =
      (True, \<lparr>tmrObj = snd (rte_timer_reset api (tmrObj ?u) (mtimer_ticks ms) thr (mtimer_tag ev src))\<rparr>)"
    using assms(2) by (simp add: mtimer_start_def Let_def split_beta)
  with st show ?thesis by blast
qed

lemma mtimer_ticks_100 [simp]: "mtimer_ticks 100 = 10000"
  and mtimer_ticks_10000 [simp]: "mtimer_ticks 10000 = 1000000"
  by (simp_all add: mtimer_ticks_def)

lemma multi_timer_start_length [simp]:
  "length (tmrs (snd (multi_timer_start api thr i ms m))) = length (tmrs m)"
  "tm_srcAddr (snd (multi_timer_start api thr i ms m)) = tm_srcAddr m"
  by (simp_all add: multi_timer_start_def split_beta)

lemma multi_timer_start_True:
  assumes "timer_documented api" and "mtimer_ticks ms \<noteq> 0"
  shows "fst (multi_timer_start api thr i ms m)"
  using mtimer_start_documented [OF assms, of thr "tmrs m ! i" "of_nat i" "tm_srcAddr m"]
  by (auto simp: multi_timer_start_def)

section \<open>Properties\<close>

text \<open>
  Property (C38). With a timer service that behaves as documented, \<^verbatim>\<open>start\<close> succeeds from any
  state of the timer exactly when the tick count does not wrap to zero, leaves the timer running and
  the other timers of the connection alone; when the count wraps to zero nothing is started or
  stopped.
\<close>

theorem multi_timer_start_spec:
  assumes "timer_documented api" and "i < length (tmrs m)"
  shows "(fst (multi_timer_start api thr i ms m) \<longleftrightarrow> unat ms * 100 mod 2 ^ 32 \<noteq> 0) \<and>
    (fst (multi_timer_start api thr i ms m) \<longrightarrow>
       mtimer_isRunning api (tmrs (snd (multi_timer_start api thr i ms m)) ! i)) \<and>
    (\<not> fst (multi_timer_start api thr i ms m) \<longrightarrow> snd (multi_timer_start api thr i ms m) = m) \<and>
    (\<forall>j. j \<noteq> i \<longrightarrow> tmrs (snd (multi_timer_start api thr i ms m)) ! j = tmrs m ! j)"
proof -
  have ticks: "mtimer_ticks ms = 0 \<longleftrightarrow> unat ms * 100 mod 2 ^ 32 = 0"
  proof -
    have "mtimer_ticks ms = 0 \<longleftrightarrow> unat (mtimer_ticks ms) = 0" by (simp add: unat_eq_zero)
    also have "unat (mtimer_ticks ms) = unat ms * 100 mod 2 ^ 32"
      by (simp add: mtimer_ticks_def unsigned_ucast_eq take_bit_nat_eq_self unat_word_ariths)
    finally show ?thesis .
  qed
  show ?thesis
  proof (cases "mtimer_ticks ms = 0")
    case True
    with ticks show ?thesis by (simp add: multi_timer_start_def mtimer_start_def)
  next
    case False
    then obtain t where st: "rte_timer_state api t = RTE_TIMER_STOP api"
      and s: "mtimer_start api thr (tmrs m ! i) (of_nat i) ms (tm_srcAddr m) =
        (True, \<lparr>tmrObj = snd (rte_timer_reset api t (mtimer_ticks ms) thr (mtimer_tag (of_nat i) (tm_srcAddr m)))\<rparr>)"
      using mtimer_start_documented [OF assms(1)] by blast
    with False ticks assms(2) timer_documentedD(4) [OF assms(1) st, THEN not_sym] show ?thesis
      by (auto simp: multi_timer_start_def mtimer_isRunning_def)
  qed
qed

theorem multi_timer_start_spec_witness:
  "fst (multi_timer_start demo_timer 1 2 100 (multi_timer_new demo_timer 5)) \<and>
   \<not> fst (multi_timer_start demo_timer 1 2 1073741824 (multi_timer_new demo_timer 5))"
proof -
  have l: "2 < length (tmrs (multi_timer_new demo_timer 5))" by (simp add: multi_timer_new_def)
  show ?thesis
    using multi_timer_start_spec [OF demo_timer_documented l, of 1 100]
      multi_timer_start_spec [OF demo_timer_documented l, of 1 1073741824] by simp
qed

end
