(* ===== verification/Mbuf.thy ===== *)
theory Mbuf
  imports Prelude
begin

text \<open>
  Walking over packet buffers: \<^verbatim>\<open>RteMbufIterator\<close>, \<^verbatim>\<open>RteMbufStream\<close> and
  \<^verbatim>\<open>RteMbufReader\<close> of \<^verbatim>\<open>core/buffer.hxx\<close>.

  A packet is a chain of segments, the pointer to a segment is the chain from there on and
  \<^verbatim>\<open>nullptr\<close> is the empty chain. Of a segment the code reads the fields \<^verbatim>\<open>data_len\<close> and
  \<^verbatim>\<open>pkt_len\<close> and the memory from \<^verbatim>\<open>buf_addr + data_off\<close> to the end of its buffer, which may
  be longer than \<^verbatim>\<open>data_len\<close>; reading past its end is a fault. Sizes and offsets
  (\<^verbatim>\<open>std::size_t\<close>) are \<open>nat\<close>: the invariant \<open>itr_wf\<close> keeps them below \<open>2 ^ 16\<close>.
  A variable that may be uninitialised is an \<open>option\<close>, and an extraction operator takes the
  variable's old value because it leaves it alone at the end of the packet.
\<close>

section \<open>Segments and iterators\<close>

record rte_mbuf_seg =
  data_len :: u16
  pkt_len :: u32
  seg_mem :: "u8 list"

record RteMbufIterator =
  itr_m :: "rte_mbuf_seg list"
  itr_offset :: nat
  itr_pkt_offset :: nat

definition itr_new :: "rte_mbuf_seg list \<Rightarrow> RteMbufIterator" where
  "itr_new given = \<lparr>itr_m = given, itr_offset = 0, itr_pkt_offset = 0\<rparr>"

text \<open>\<^verbatim>\<open>RteMbufStream\<close>: the iterators at the head of a chain and at its end.\<close>

definition stream_begin :: "rte_mbuf_seg list \<Rightarrow> RteMbufIterator" where
  "stream_begin m = itr_new m"

definition stream_end :: RteMbufIterator where
  "stream_end = itr_new []"

definition itr_incr :: "RteMbufIterator \<Rightarrow> RteMbufIterator" where
  "itr_incr it =
     (case itr_m it of
        [] \<Rightarrow> it
      | s # rest \<Rightarrow>
          if itr_offset it < unat (data_len s) then it\<lparr>itr_offset := itr_offset it + 1\<rparr>
          else it\<lparr>itr_offset := 0, itr_m := rest\<rparr>)"

text \<open>
  The loop of \<^verbatim>\<open>skip\<close> over the segment pointer, the offset and the rest of the increment, which
  is a \<^verbatim>\<open>uint32_t\<close>.
\<close>

fun skip_loop :: "rte_mbuf_seg list \<Rightarrow> nat \<Rightarrow> nat \<Rightarrow> rte_mbuf_seg list \<times> nat" where
  "skip_loop [] off inc = ([], off)"
| "skip_loop (s # rest) off inc =
     (if inc = 0 then (s # rest, off)
      else if off + inc < unat (data_len s) then (s # rest, off + inc)
      else skip_loop rest 0 ((inc + off - unat (data_len s)) mod 2 ^ 32))"

definition itr_skip :: "u32 \<Rightarrow> RteMbufIterator \<Rightarrow> RteMbufIterator" where
  "itr_skip givenInc it =
     (let (m, off) = skip_loop (itr_m it) (itr_offset it) (unat givenInc) in
      it\<lparr>itr_m := m, itr_offset := off\<rparr>)"

definition itr_size :: "RteMbufIterator \<Rightarrow> fault + nat" where
  "itr_size it =
     (case itr_m it of
        [] \<Rightarrow> Inr 0
      | s # rest \<Rightarrow>
          bindR (assertR (itr_pkt_offset it \<le> unat (pkt_len s)))
            (\<lambda>_. Inr (unat (pkt_len s) - itr_pkt_offset it)))"

definition itr_eof :: "RteMbufIterator \<Rightarrow> fault + bool" where
  "itr_eof it = bindR (itr_size it) (\<lambda>n. Inr (0 = n))"

text \<open>A raw pointer is the memory from it to the end of its buffer, \<open>None\<close> is \<^verbatim>\<open>nullptr\<close>.\<close>

definition itr_getRawBuffer :: "RteMbufIterator \<Rightarrow> fault + u8 list option" where
  "itr_getRawBuffer it =
     bindR (itr_eof it) (\<lambda>e.
       if e then Inr None
       else case itr_m it of
          [] \<Rightarrow> Inl NullDeref
        | s # _ \<Rightarrow> Inr (Some (drop (itr_offset it) (seg_mem s))))"

definition itr_deref :: "RteMbufIterator \<Rightarrow> fault + u8" where
  "itr_deref it =
     (case itr_m it of
        [] \<Rightarrow> Inl NullDeref
      | s # _ \<Rightarrow>
          if itr_offset it < length (seg_mem s) then Inr (seg_mem s ! itr_offset it)
          else Inl OutOfBounds)"

text \<open>A load at a byte offset from a raw pointer.\<close>

definition load8 :: "u8 list option \<Rightarrow> nat \<Rightarrow> fault + u8" where
  "load8 p k =
     (case p of None \<Rightarrow> Inl NullDeref
      | Some bs \<Rightarrow> if k < length bs then Inr (bs ! k) else Inl OutOfBounds)"

section \<open>The reader\<close>

text \<open>\<^verbatim>\<open>RteMbufReader\<close> holds nothing but its iterator.\<close>

type_synonym RteMbufReader = RteMbufIterator

definition rd_new :: "rte_mbuf_seg list \<Rightarrow> RteMbufReader" where
  "rd_new given = itr_new given"

definition rd_getRawBuffer :: "RteMbufReader \<Rightarrow> fault + u8 list option" where
  "rd_getRawBuffer rd = itr_getRawBuffer rd"

definition rd_skip :: "u32 \<Rightarrow> RteMbufReader \<Rightarrow> RteMbufReader" where
  "rd_skip numBytes rd = itr_skip numBytes rd"

definition rd_size :: "RteMbufReader \<Rightarrow> fault + nat" where
  "rd_size rd = itr_size rd"

lemmas reader_defs [simp] = rd_new_def rd_getRawBuffer_def rd_skip_def rd_size_def

definition rd_u8 :: "u8 option \<Rightarrow> RteMbufReader \<Rightarrow> fault + (u8 option \<times> RteMbufReader)" where
  "rd_u8 outv rd =
     bindR (itr_eof rd) (\<lambda>e.
       if e then Inr (outv, rd)
       else bindR (itr_deref rd) (\<lambda>b. Inr (Some b, itr_incr rd)))"

text \<open>The overload for \<^verbatim>\<open>char\<close> has the same body.\<close>

definition rd_char :: "u8 option \<Rightarrow> RteMbufReader \<Rightarrow> fault + (u8 option \<times> RteMbufReader)" where
  "rd_char c rd =
     bindR (itr_eof rd) (\<lambda>e.
       if e then Inr (c, rd)
       else bindR (itr_deref rd) (\<lambda>b. Inr (Some b, itr_incr rd)))"

definition rd_u16 :: "u16 option \<Rightarrow> RteMbufReader \<Rightarrow> fault + (u16 option \<times> RteMbufReader)" where
  "rd_u16 outv rd =
     bindR (itr_size rd) (\<lambda>n.
       if n < 2 then Inr (outv, rd)
       else bindR (rd_u8 None rd) (\<lambda>(outhi, rd1). bindR (rd_u8 None rd1) (\<lambda>(outlo, rd2).
         bindR (useR outhi) (\<lambda>hi. bindR (useR outlo) (\<lambda>lo.
           Inr (Some (push_bit 8 (ucast hi) OR ucast lo), rd2))))))"

definition rd_u32 :: "u32 option \<Rightarrow> RteMbufReader \<Rightarrow> fault + (u32 option \<times> RteMbufReader)" where
  "rd_u32 outv rd =
     bindR (itr_size rd) (\<lambda>n.
       if n < 4 then Inr (outv, rd)
       else bindR (rd_u16 None rd) (\<lambda>(outhi, rd1). bindR (rd_u16 None rd1) (\<lambda>(outlo, rd2).
         bindR (useR outhi) (\<lambda>hi. bindR (useR outlo) (\<lambda>lo.
           Inr (Some (push_bit 16 (ucast hi) OR ucast lo), rd2))))))"

definition rd_u64 :: "u64 option \<Rightarrow> RteMbufReader \<Rightarrow> fault + (u64 option \<times> RteMbufReader)" where
  "rd_u64 outv rd =
     bindR (itr_size rd) (\<lambda>n.
       if n < 8 then Inr (outv, rd)
       else bindR (rd_u32 None rd) (\<lambda>(outhi, rd1). bindR (rd_u32 None rd1) (\<lambda>(outlo, rd2).
         bindR (useR outhi) (\<lambda>hi. bindR (useR outlo) (\<lambda>lo.
           Inr (Some (push_bit 32 (ucast hi) OR ucast lo), rd2))))))"

section \<open>Well-formed packets\<close>

definition seg_ok :: "rte_mbuf_seg \<Rightarrow> bool" where
  "seg_ok s \<longleftrightarrow> unat (data_len s) \<le> length (seg_mem s)"

definition seg_bytes :: "rte_mbuf_seg \<Rightarrow> u8 list" where
  "seg_bytes s = take (unat (data_len s)) (seg_mem s)"

definition itr_wf :: "RteMbufIterator \<Rightarrow> bool" where
  "itr_wf it \<longleftrightarrow> itr_pkt_offset it = 0 \<and> list_all seg_ok (itr_m it) \<and>
     (case itr_m it of [] \<Rightarrow> True | s # _ \<Rightarrow> itr_offset it \<le> unat (data_len s))"

text \<open>The data bytes an iterator has ahead.\<close>

definition itr_rest :: "RteMbufIterator \<Rightarrow> u8 list" where
  "itr_rest it =
     (case itr_m it of [] \<Rightarrow> []
      | s # rest \<Rightarrow> drop (itr_offset it) (seg_bytes s) @ concat (map seg_bytes rest))"

lemma seg_bytes_length [simp]: "seg_ok s \<Longrightarrow> length (seg_bytes s) = unat (data_len s)"
  by (simp add: seg_bytes_def seg_ok_def)

lemma itr_new_wf: "list_all seg_ok m \<Longrightarrow> itr_wf (itr_new m)"
  by (cases m) (simp_all add: itr_wf_def itr_new_def)

lemma itr_size_wf:
  "itr_wf it \<Longrightarrow> itr_size it = Inr (case itr_m it of [] \<Rightarrow> 0 | s # _ \<Rightarrow> unat (pkt_len s))"
  by (simp add: itr_size_def itr_wf_def split: list.split)

lemma itr_incr_wf: "itr_wf it \<Longrightarrow> itr_wf (itr_incr it)"
  by (auto simp: itr_wf_def itr_incr_def split: list.splits)

lemma skip_loop_pos:
  assumes "list_all seg_ok m" and "case m of [] \<Rightarrow> True | s # _ \<Rightarrow> off \<le> unat (data_len s)"
    and "inc < 2 ^ 32" and "skip_loop m off inc = (m', off')"
  shows "list_all seg_ok m' \<and> (case m' of [] \<Rightarrow> True | s # _ \<Rightarrow> off' \<le> unat (data_len s)) \<and>
    (case m' of [] \<Rightarrow> [] | s # rest \<Rightarrow> drop off' (seg_bytes s) @ concat (map seg_bytes rest)) =
    drop inc (case m of [] \<Rightarrow> [] | s # rest \<Rightarrow> drop off (seg_bytes s) @ concat (map seg_bytes rest))"
  using assms
proof (induction m off inc arbitrary: m' off' rule: skip_loop.induct)
  case (2 s rest off inc)
  let ?inc = "(inc + off - unat (data_len s)) mod 2 ^ 32"
  show ?case
  proof (cases "inc = 0 \<or> off + inc < unat (data_len s)")
    case True
    with "2.prems" show ?thesis by (auto split: if_splits simp: add.commute)
  next
    case False
    then have inc: "?inc = inc - (unat (data_len s) - off)" and "?inc < 2 ^ 32"
      using "2.prems"(2,3) by auto
    moreover have "skip_loop rest 0 ?inc = (m', off')" using False "2.prems"(4) by simp
    moreover have "list_all seg_ok rest" and "case rest of [] \<Rightarrow> True | s # _ \<Rightarrow> 0 \<le> unat (data_len s)"
      using "2.prems"(1) by (auto split: list.split)
    ultimately have IH: "list_all seg_ok m' \<and> (case m' of [] \<Rightarrow> True | s # _ \<Rightarrow> off' \<le> unat (data_len s)) \<and>
      (case m' of [] \<Rightarrow> [] | s # rest \<Rightarrow> drop off' (seg_bytes s) @ concat (map seg_bytes rest)) =
      drop ?inc (case rest of [] \<Rightarrow> [] | s # rest \<Rightarrow> drop 0 (seg_bytes s) @ concat (map seg_bytes rest))"
      using False by (intro "2.IH") auto
    have "drop inc (drop off (seg_bytes s) @ concat (map seg_bytes rest)) = drop ?inc (concat (map seg_bytes rest))"
      unfolding inc using False "2.prems"(1,2) by simp
    with IH show ?thesis by (cases rest) auto
  qed
qed auto

lemma itr_skip_wf: "itr_wf it \<Longrightarrow> itr_wf (itr_skip n it)"
  and itr_skip_rest: "itr_wf it \<Longrightarrow> itr_rest (itr_skip n it) = drop (unat n) (itr_rest it)"
proof -
  assume wf: "itr_wf it"
  obtain m off where s: "skip_loop (itr_m it) (itr_offset it) (unat n) = (m, off)" by force
  note n = unat_u32_less [of n]
  note P = skip_loop_pos [OF _ _ n s]
  from wf P s show "itr_wf (itr_skip n it)"
    by (auto simp: itr_wf_def itr_skip_def split: list.splits)
  from wf P s show "itr_rest (itr_skip n it) = drop (unat n) (itr_rest it)"
    by (auto simp: itr_wf_def itr_skip_def itr_rest_def split: list.splits)
qed


section \<open>What the reader delivers\<close>

text \<open>The big-endian value of a list of bytes.\<close>

definition be_val :: "u8 list \<Rightarrow> nat" where
  "be_val bs = foldl (\<lambda>a b. 256 * a + unat b) 0 bs"

text \<open>
  An iterator leaves a segment only after it was dereferenced at the end of its data, so the reader
  takes one byte of the buffer behind the data of every segment it leaves: these are the bytes it
  delivers.
\<close>

definition seg_stream :: "rte_mbuf_seg \<Rightarrow> u8 list" where
  "seg_stream s = take (Suc (unat (data_len s))) (seg_mem s)"

definition itr_stream :: "RteMbufIterator \<Rightarrow> u8 list" where
  "itr_stream it =
     (case itr_m it of [] \<Rightarrow> []
      | s # rest \<Rightarrow> drop (itr_offset it) (seg_stream s) @ concat (map seg_stream rest))"

text \<open>
  The next \<open>n\<close> bytes are in the buffers, and the packet length of the segment each one is read from
  (only that of the first is kept up by DPDK) covers the bytes from there on.
\<close>

fun itr_covers :: "nat \<Rightarrow> RteMbufIterator \<Rightarrow> bool" where
  "itr_covers 0 it = True"
| "itr_covers (Suc n) it =
     (case itr_m it of [] \<Rightarrow> False
      | s # _ \<Rightarrow> itr_offset it < length (seg_mem s) \<and> n < unat (pkt_len s) \<and> itr_covers n (itr_incr it))"

definition itr_readable :: "RteMbufIterator \<Rightarrow> nat \<Rightarrow> bool" where
  "itr_readable it n \<longleftrightarrow> itr_wf it \<and> itr_covers n it"

definition itr_next :: "nat \<Rightarrow> RteMbufIterator \<Rightarrow> RteMbufIterator" where
  "itr_next n it = (itr_incr ^^ n) it"

lemma itr_next_simps [simp]:
  "itr_next 0 it = it" "itr_next (Suc n) it = itr_next n (itr_incr it)"
  "itr_next a (itr_next b it) = itr_next (b + a) it"
  by (simp_all add: itr_next_def funpow_swap1 funpow_add add.commute)

lemma itr_covers_mono: "itr_covers n it \<Longrightarrow> k \<le> n \<Longrightarrow> itr_covers k it"
proof (induction k arbitrary: n it)
  case (Suc k)
  then obtain m where "n = Suc m" "k \<le> m" by (cases n) auto
  with Suc show ?case by (auto split: list.splits)
qed simp

lemma itr_readable_mono: "itr_readable it n \<Longrightarrow> k \<le> n \<Longrightarrow> itr_readable it k"
  by (auto simp: itr_readable_def intro: itr_covers_mono)

lemma itr_readable_next: "itr_readable it (k + n) \<Longrightarrow> itr_readable (itr_next k it) n"
  by (induction k arbitrary: it) (auto simp: itr_readable_def itr_incr_wf split: list.splits)

text \<open>One step along the stream.\<close>

lemma itr_stream_Cons:
  assumes "itr_readable it (Suc n)"
  obtains s rest where "itr_m it = s # rest" "itr_offset it < length (seg_mem s)" "n < unat (pkt_len s)"
    "itr_stream it = seg_mem s ! itr_offset it # itr_stream (itr_incr it)"
proof -
  from assms obtain s rest where s: "itr_m it = s # rest" "itr_offset it < length (seg_mem s)" "n < unat (pkt_len s)"
    "itr_offset it \<le> unat (data_len s)"
    by (auto simp: itr_readable_def itr_wf_def split: list.splits)
  let ?o = "itr_offset it"
  have l: "?o < length (seg_stream s)" using s by (simp add: seg_stream_def)
  then have d: "drop ?o (seg_stream s) = seg_mem s ! ?o # drop (Suc ?o) (seg_stream s)"
    by (simp add: Cons_nth_drop_Suc [symmetric] seg_stream_def)
  have "itr_stream (itr_incr it) = drop (Suc ?o) (seg_stream s) @ concat (map seg_stream rest)"
  proof (cases "?o < unat (data_len s)")
    case False
    with s(4) have "drop (Suc ?o) (seg_stream s) = []" by (simp add: seg_stream_def)
    with False s show ?thesis by (cases rest) (simp_all add: itr_stream_def itr_incr_def)
  qed (use s in \<open>simp add: itr_stream_def itr_incr_def\<close>)
  with s d that show ?thesis by (simp add: itr_stream_def)
qed

lemma itr_stream_length: "itr_readable it n \<Longrightarrow> n \<le> length (itr_stream it)"
proof (induction n arbitrary: it)
  case (Suc n)
  have "itr_readable (itr_incr it) n" using itr_readable_next [of it 1 n] Suc.prems by simp
  moreover obtain b where "itr_stream it = b # itr_stream (itr_incr it)"
    using itr_stream_Cons [OF Suc.prems] by blast
  ultimately show ?case using Suc.IH by simp
qed simp

lemma itr_next_stream: "itr_readable it n \<Longrightarrow> itr_stream (itr_next n it) = drop n (itr_stream it)"
proof (induction n arbitrary: it)
  case (Suc n)
  have "itr_readable (itr_incr it) n" using itr_readable_next [of it 1 n] Suc.prems by simp
  moreover obtain b where "itr_stream it = b # itr_stream (itr_incr it)"
    using itr_stream_Cons [OF Suc.prems] by blast
  ultimately show ?case using Suc.IH by simp
qed simp

text \<open>A reader that gets past the end of the data of its segment finds a byte of the buffer there.\<close>

lemma itr_readable_end:
  "itr_readable it n \<Longrightarrow> itr_m it = s # rest \<Longrightarrow> itr_offset it + k = unat (data_len s) \<Longrightarrow> k < n \<Longrightarrow>
     unat (data_len s) < length (seg_mem s)"
proof (induction k arbitrary: it n)
  case 0
  then show ?case by (cases n) (auto simp: itr_readable_def)
next
  case (Suc k)
  then obtain m where m: "n = Suc m" by (cases n) auto
  have "itr_readable (itr_incr it) m" using itr_readable_next [of it 1 m] Suc.prems(1) m by simp
  moreover have "itr_incr it = it\<lparr>itr_offset := Suc (itr_offset it)\<rparr>"
    using Suc.prems(2,3) by (simp add: itr_incr_def)
  ultimately show ?case using Suc.IH [of "itr_incr it" m] Suc.prems m by simp
qed

lemma itr_readable_size: "itr_readable it n \<Longrightarrow> 0 < n \<Longrightarrow> \<exists>k. itr_size it = Inr k \<and> n \<le> k"
  by (cases n) (auto simp: itr_readable_def itr_size_wf split: list.splits)

lemma rd_u8_stream:
  assumes "itr_readable it n" and "0 < n"
  shows "rd_u8 v it = Inr (Some (itr_stream it ! 0), itr_next 1 it)"
proof -
  obtain m where m: "n = Suc m" using assms(2) by (cases n) auto
  obtain k where k: "itr_size it = Inr k" "n \<le> k" using itr_readable_size [OF assms] by blast
  from itr_stream_Cons [OF assms(1) [unfolded m]] obtain s rest where "itr_m it = s # rest"
    "itr_offset it < length (seg_mem s)" "itr_stream it = seg_mem s ! itr_offset it # itr_stream (itr_incr it)" by blast
  with k assms(2) show ?thesis by (simp add: rd_u8_def itr_eof_def itr_deref_def)
qed

lemma itr_next_nth:
  assumes "itr_readable it n" and "k < n"
  shows "itr_stream (itr_next k it) ! 0 = itr_stream it ! k"
  using itr_next_stream [OF itr_readable_mono [OF assms(1), of k]] itr_stream_length [OF assms(1)] assms(2)
  by simp

lemma rd_u16_stream:
  assumes "itr_readable it n" and "2 \<le> n"
  shows "rd_u16 v it = Inr (Some (push_bit 8 (ucast (itr_stream it ! 0)) OR ucast (itr_stream it ! 1)), itr_next 2 it)"
proof -
  obtain k where k: "itr_size it = Inr k" "n \<le> k" using itr_readable_size [OF assms(1)] assms(2) by auto
  have a: "itr_readable (itr_next 1 it) (n - 1)"
    by (rule itr_readable_next) (use assms in simp)
  have "itr_next 1 (itr_next 1 it) = itr_next 2 it" by (simp only: itr_next_simps(3) one_add_one)
  then show ?thesis
    using k assms rd_u8_stream [OF assms(1), of None] rd_u8_stream [OF a, of None]
      itr_next_nth [OF assms(1), of 1]
    by (simp add: rd_u16_def del: itr_next_simps)
qed

lemma rd_u32_stream:
  assumes "itr_readable it n" and "4 \<le> n"
  shows "rd_u32 v it = Inr (Some (push_bit 16 (ucast (push_bit 8 (ucast (itr_stream it ! 0)) OR ucast (itr_stream it ! 1) :: u16))
      OR ucast (push_bit 8 (ucast (itr_stream it ! 2)) OR ucast (itr_stream it ! 3) :: u16)), itr_next 4 it)"
proof -
  obtain k where k: "itr_size it = Inr k" "n \<le> k" using itr_readable_size [OF assms(1)] assms(2) by auto
  have a: "itr_readable (itr_next 2 it) (n - 2)"
    by (rule itr_readable_next) (use assms in \<open>simp del: add_2_eq_Suc\<close>)
  have l: "itr_stream (itr_next 2 it) = drop 2 (itr_stream it)" "4 \<le> length (itr_stream it)"
    using itr_next_stream [OF itr_readable_mono [OF assms(1), of 2]] itr_stream_length [OF assms(1)] assms by auto
  have n4: "itr_next 2 (itr_next 2 it) = itr_next 4 it" by (simp only: itr_next_simps(3)) simp
  have nth: "itr_stream it ! Suc (Suc 0) = itr_stream it ! 2" "itr_stream it ! Suc (Suc (Suc 0)) = itr_stream it ! 3"
    by (simp_all add: eval_nat_numeral)
  show ?thesis
    using k assms l n4 nth rd_u16_stream [OF assms(1), of None] rd_u16_stream [OF a, of None]
    by (simp add: rd_u32_def del: itr_next_simps)
qed

lemma unat_byte_pair: "unat (push_bit 8 (ucast a) OR ucast b :: u16) = 256 * unat a + unat b" for a b :: u8
  using unat_concat [where 'b = 16, of a b] by simp

lemma unat_half_pair: "unat (push_bit 16 (ucast a) OR ucast b :: u32) = 65536 * unat a + unat b" for a b :: u16
  using unat_concat [where 'b = 32, of a b] by simp

lemma unat_word_pair: "unat (push_bit 32 (ucast a) OR ucast b :: u64) = 4294967296 * unat a + unat b" for a b :: u32
  using unat_concat [where 'b = 64, of a b] by simp

lemma take_nths:
  "2 \<le> length xs \<Longrightarrow> take 2 xs = [xs ! 0, xs ! 1]"
  "4 \<le> length xs \<Longrightarrow> take 4 xs = [xs ! 0, xs ! 1, xs ! 2, xs ! 3]"
  by (simp_all add: list_eq_iff_nth_eq numeral_2_eq_2 numeral_3_eq_3 numeral_eq_Suc nth_Cons' less_Suc_eq)

lemma be_val_append: "be_val (xs @ ys) = be_val xs * 256 ^ length ys + be_val ys"
proof (induction ys rule: rev_induct)
  case (snoc y ys)
  have "be_val ((xs @ ys) @ [y]) = 256 * be_val (xs @ ys) + unat y" by (simp add: be_val_def)
  with snoc show ?case by (simp add: be_val_def algebra_simps)
qed (simp add: be_val_def)

lemma rd_u16_val:
  assumes "itr_readable it n" and "2 \<le> n"
  shows "\<exists>w. rd_u16 v it = Inr (Some w, itr_next 2 it) \<and> unat w = be_val (take 2 (itr_stream it))"
proof -
  have "2 \<le> length (itr_stream it)" using itr_stream_length [OF assms(1)] assms(2) by simp
  then show ?thesis
    using rd_u16_stream [OF assms, of v] by (simp add: unat_byte_pair take_nths be_val_def del: itr_next_simps)
qed

lemma rd_u32_val:
  assumes "itr_readable it n" and "4 \<le> n"
  shows "\<exists>w. rd_u32 v it = Inr (Some w, itr_next 4 it) \<and> unat w = be_val (take 4 (itr_stream it))"
proof -
  have "4 \<le> length (itr_stream it)" using itr_stream_length [OF assms(1)] assms(2) by simp
  then show ?thesis
    using rd_u32_stream [OF assms, of v]
    by (simp add: unat_half_pair unat_byte_pair take_nths be_val_def del: itr_next_simps)
qed

text \<open>The stream around the end of the segment at hand, \<open>k\<close> bytes ahead.\<close>

lemma itr_stream_cut:
  assumes "itr_readable it n" and "itr_m it = s # rest" and "itr_offset it + k = unat (data_len s)" and "k < n"
  shows "take k (itr_stream it) = take k (itr_rest it)" and "itr_stream it ! k = seg_mem s ! unat (data_len s)"
    and "drop (Suc k) (itr_stream it) = itr_stream (itr_new rest)"
proof -
  let ?d = "unat (data_len s)" and ?o = "itr_offset it"
  have ok: "seg_ok s" and l: "Suc k \<le> length (itr_stream it)"
    using assms(1,2) itr_stream_length [OF itr_readable_mono [OF assms(1), of "Suc k"]] assms(4)
    by (auto simp: itr_readable_def itr_wf_def)
  have long: "?d < length (seg_mem s)" using itr_readable_end [OF assms] .
  have st: "itr_stream it = take k (drop ?o (seg_mem s)) @ seg_mem s ! ?d # itr_stream (itr_new rest)"
  proof -
    have "drop ?o (seg_stream s) = take k (drop ?o (seg_mem s)) @ [seg_mem s ! ?d]"
      using assms(3) long by (simp add: seg_stream_def drop_take take_Suc_nth Suc_diff_le flip: assms(3))
    then show ?thesis using assms(2) by (cases rest) (simp_all add: itr_stream_def itr_new_def)
  qed
  have lk: "length (take k (drop ?o (seg_mem s))) = k" using assms(3) long by simp
  show "take k (itr_stream it) = take k (itr_rest it)"
    using assms(2,3) lk by (simp add: st itr_rest_def seg_bytes_def drop_take flip: assms(3))
  show "itr_stream it ! k = seg_mem s ! ?d" unfolding st using lk by (simp add: nth_append)
  show "drop (Suc k) (itr_stream it) = itr_stream (itr_new rest)" unfolding st using lk by simp
qed

text \<open>The same after \<open>k\<close> bytes.\<close>

lemma itr_readable_at:
  assumes "itr_readable it n" and "k + m \<le> n"
  shows "itr_readable (itr_next k it) m" and "itr_stream (itr_next k it) = drop k (itr_stream it)"
  using itr_readable_next [OF itr_readable_mono [OF assms]]
    itr_next_stream [OF itr_readable_mono [OF assms(1), of k]] assms(2) by simp_all

lemma rd_u16_at:
  assumes "itr_readable rd n" and "k + 2 \<le> n"
  shows "\<exists>w. rd_u16 v (itr_next k rd) = Inr (Some w, itr_next (k + 2) rd) \<and>
    unat w = be_val (take 2 (drop k (itr_stream rd)))"
  using rd_u16_val [OF itr_readable_at(1) [OF assms], of v] itr_readable_at(2) [OF assms]
  by (simp only: itr_next_simps(3))

lemma rd_u32_at:
  assumes "itr_readable rd n" and "k + 4 \<le> n"
  shows "\<exists>w. rd_u32 v (itr_next k rd) = Inr (Some w, itr_next (k + 4) rd) \<and>
    unat w = be_val (take 4 (drop k (itr_stream rd)))"
  using rd_u32_val [OF itr_readable_at(1) [OF assms], of v] itr_readable_at(2) [OF assms]
  by (simp only: itr_next_simps(3))

lemma rd_u64_val:
  assumes "itr_readable it n" and "8 \<le> n"
  shows "\<exists>w. rd_u64 v it = Inr (Some w, itr_next 8 it) \<and> unat w = be_val (take 8 (itr_stream it))"
proof -
  obtain k where k: "itr_size it = Inr k" "n \<le> k" using itr_readable_size [OF assms(1)] assms(2) by auto
  obtain x where x: "rd_u32 None it = Inr (Some x, itr_next 4 it)" "unat x = be_val (take 4 (itr_stream it))"
    using rd_u32_val [OF assms(1)] assms(2) by auto
  have "4 + 4 \<le> n" using assms(2) by simp
  from rd_u32_at [OF assms(1) this, of None] obtain y where
    y: "rd_u32 None (itr_next 4 it) = Inr (Some y, itr_next 8 it)" "unat y = be_val (take 4 (drop 4 (itr_stream it)))"
    by auto
  have l: "8 \<le> length (itr_stream it)" using itr_stream_length [OF assms(1)] assms(2) by simp
  have "take 8 (itr_stream it) = take 4 (itr_stream it) @ take 4 (drop 4 (itr_stream it))"
    by (simp add: take_add [symmetric])
  then have "be_val (take 8 (itr_stream it)) = 4294967296 * unat x + unat y"
    using x(2) y(2) l by (simp add: be_val_append)
  with k assms(2) x(1) y(1) show ?thesis by (simp add: rd_u64_def unat_word_pair del: itr_next_simps)
qed

section \<open>Inside one segment\<close>

text \<open>The next \<open>n\<close> bytes lie in the data of the segment at hand: there the stream is the data.\<close>

definition itr_ahead :: "RteMbufIterator \<Rightarrow> nat \<Rightarrow> bool" where
  "itr_ahead it n \<longleftrightarrow> itr_wf it \<and>
     (case itr_m it of [] \<Rightarrow> False
      | s # _ \<Rightarrow> itr_offset it + n \<le> unat (data_len s) \<and> n \<le> unat (pkt_len s))"

definition itr_adv :: "nat \<Rightarrow> RteMbufIterator \<Rightarrow> RteMbufIterator" where
  "itr_adv n it = it\<lparr>itr_offset := itr_offset it + n\<rparr>"

lemma itr_adv_simps [simp]:
  "itr_m (itr_adv n it) = itr_m it"
  "itr_offset (itr_adv n it) = itr_offset it + n"
  "itr_adv a (itr_adv b it) = itr_adv (b + a) it"
  "itr_adv 0 it = it"
  by (simp_all add: itr_adv_def)

lemma itr_ahead_mono: "itr_ahead it n \<Longrightarrow> k \<le> n \<Longrightarrow> itr_ahead it k"
  by (auto simp: itr_ahead_def split: list.splits)

lemma itr_ahead_adv: "itr_ahead it (k + n) \<Longrightarrow> itr_ahead (itr_adv k it) n"
  by (auto simp: itr_ahead_def itr_wf_def itr_adv_def split: list.splits)

lemma itr_ahead_length: "itr_ahead it n \<Longrightarrow> n \<le> length (itr_rest it)"
  by (auto simp: itr_ahead_def itr_wf_def itr_rest_def split: list.splits)

lemma itr_adv_rest: "itr_ahead it n \<Longrightarrow> itr_rest (itr_adv n it) = drop n (itr_rest it)"
  by (auto simp: itr_ahead_def itr_wf_def itr_rest_def add.commute split: list.splits)

lemma itr_ahead_covers: "itr_ahead it n \<Longrightarrow> itr_covers n it \<and> itr_next n it = itr_adv n it"
proof (induction n arbitrary: it)
  case (Suc n)
  from Suc.prems have "itr_incr it = itr_adv 1 it"
    by (auto simp: itr_ahead_def itr_incr_def itr_adv_def split: list.splits)
  with Suc.IH [of "itr_adv 1 it"] itr_ahead_adv [of it 1 n] Suc.prems show ?case
    by (auto simp: itr_ahead_def itr_wf_def seg_ok_def split: list.splits)
qed simp

lemma itr_ahead_readable:
  assumes "itr_ahead it n"
  shows "itr_readable it n" and "itr_next n it = itr_adv n it"
    and "take n (itr_stream it) = take n (itr_rest it)"
proof -
  from assms have wf: "itr_wf it" by (simp add: itr_ahead_def)
  with itr_ahead_covers [OF assms] show "itr_readable it n" and "itr_next n it = itr_adv n it"
    by (simp_all add: itr_readable_def)
  from assms obtain s rest where s: "itr_m it = s # rest" "itr_offset it + n \<le> unat (data_len s)" "seg_ok s"
    by (auto simp: itr_ahead_def itr_wf_def split: list.splits)
  then have "take n (drop (itr_offset it) (seg_stream s)) = take n (drop (itr_offset it) (seg_bytes s))"
    by (simp add: seg_stream_def seg_bytes_def take_drop min_def)
  moreover have "n \<le> length (drop (itr_offset it) (seg_stream s))" "n \<le> length (drop (itr_offset it) (seg_bytes s))"
    using s by (auto simp: seg_stream_def seg_bytes_def seg_ok_def)
  ultimately show "take n (itr_stream it) = take n (itr_rest it)"
    using s(1) by (simp add: itr_stream_def itr_rest_def)
qed

section \<open>Properties\<close>

text \<open>
  Property (C37). \<^verbatim>\<open>skip\<close> drops exactly the given number of data bytes, across any number of
  segments and empty ones included, stops at the end of the chain, terminates and keeps the offset
  inside its segment.
\<close>

theorem itr_skip_drops:
  assumes "itr_wf it"
  shows "itr_wf (itr_skip n it) \<and> itr_rest (itr_skip n it) = drop (unat n) (itr_rest it) \<and>
    (length (itr_rest it) \<le> unat n \<longrightarrow> itr_rest (itr_skip n it) = [])"
  using itr_skip_wf [OF assms] itr_skip_rest [OF assms] by simp

definition demo_chain :: "rte_mbuf_seg list" where
  "demo_chain = [\<lparr>data_len = 3, pkt_len = 5, seg_mem = [1, 2, 3, 99]\<rparr>,
                 \<lparr>data_len = 2, pkt_len = 2, seg_mem = [4, 5]\<rparr>]"

theorem itr_skip_drops_witness:
  "itr_wf (itr_new demo_chain) \<and> itr_rest (itr_skip 4 (itr_new demo_chain)) = [5]"
proof -
  have wf: "itr_wf (itr_new demo_chain)" by code_simp
  moreover have "drop (unat (4 :: u32)) (itr_rest (itr_new demo_chain)) = [5]" by code_simp
  ultimately show ?thesis using itr_skip_drops [OF wf, of 4] by simp
qed

text \<open>
  Property (C35). What the reader delivers, wherever in a chain of segments: each extraction operator
  decodes the next 1, 2, 4 or 8 bytes of the stream as a big-endian integer and moves on by exactly
  that many. The stream is the data as long as a segment lasts; at its end it has one byte that is not
  data.
\<close>

theorem reader_big_endian:
  assumes "itr_readable rd n"
  shows "(1 \<le> n \<longrightarrow> rd_u8 va rd = Inr (Some (itr_stream rd ! 0), itr_next 1 rd) \<and> rd_char va rd = rd_u8 va rd) \<and>
    (2 \<le> n \<longrightarrow> (\<exists>w. rd_u16 vb rd = Inr (Some w, itr_next 2 rd) \<and> unat w = be_val (take 2 (itr_stream rd)))) \<and>
    (4 \<le> n \<longrightarrow> (\<exists>w. rd_u32 vc rd = Inr (Some w, itr_next 4 rd) \<and> unat w = be_val (take 4 (itr_stream rd)))) \<and>
    (8 \<le> n \<longrightarrow> (\<exists>w. rd_u64 vd rd = Inr (Some w, itr_next 8 rd) \<and> unat w = be_val (take 8 (itr_stream rd)))) \<and>
    itr_stream (itr_next n rd) = drop n (itr_stream rd) \<and>
    (itr_ahead rd n \<longrightarrow> itr_next n rd = itr_adv n rd \<and> take n (itr_stream rd) = take n (itr_rest rd))"
  using rd_u8_stream [OF assms, of va] rd_u16_val [OF assms, of vb] rd_u32_val [OF assms, of vc]
    rd_u64_val [OF assms, of vd] itr_next_stream [OF assms] itr_ahead_readable(2,3) [of rd n]
  by (auto simp: rd_char_def rd_u8_def simp del: itr_next_simps)

text \<open>A 32-bit integer across the boundary of two segments takes the byte 99 behind the data.\<close>

theorem reader_big_endian_witness:
  "\<exists>w. rd_u32 None (itr_adv 1 (itr_new demo_chain)) = Inr (Some w, itr_next 4 (itr_adv 1 (itr_new demo_chain))) \<and>
     unat w = be_val [2, 3, 99, 4]"
proof -
  have a: "itr_readable (itr_adv 1 (itr_new demo_chain)) 4" by code_simp
  have "take 4 (itr_stream (itr_adv 1 (itr_new demo_chain))) = [2, 3, 99, 4]" by code_simp
  then show ?thesis using reader_big_endian [OF a, where vc = None] by (auto simp del: itr_next_simps)
qed

text \<open>
  The end of the data of a segment is not the end of its reading: after the last data byte the reader
  is not at the end of the packet (its size is the packet length, which never decreases because
  \<^verbatim>\<open>pkt_offset\<close> is never advanced) and the next extraction delivers the byte of the buffer behind
  the data, or runs out of the buffer.
\<close>

theorem reader_over_reads:
  assumes "itr_wf rd" and "itr_m rd = s # rest" and "itr_offset rd = unat (data_len s)"
    and "pkt_len s \<noteq> 0"
  shows "itr_size rd = Inr (unat (pkt_len s)) \<and>
    rd_u8 v rd =
      (if length (seg_mem s) = unat (data_len s) then Inl OutOfBounds
       else Inr (Some (seg_mem s ! unat (data_len s)), rd\<lparr>itr_offset := 0, itr_m := rest\<rparr>))"
proof -
  have "unat (pkt_len s) \<noteq> 0" using assms(4) by (simp add: unat_eq_zero)
  moreover have "seg_ok s" using assms(1,2) by (simp add: itr_wf_def)
  ultimately show ?thesis
    using assms
    by (auto simp: itr_size_wf rd_u8_def itr_eof_def itr_deref_def itr_incr_def seg_ok_def)
qed

theorem reader_over_reads_witness:
  "rd_u8 None (itr_adv 3 (itr_new demo_chain)) =
     Inr (Some 99, itr_new [\<lparr>data_len = 2, pkt_len = 2, seg_mem = [4, 5]\<rparr>])"
proof -
  let ?s = "\<lparr>data_len = 3, pkt_len = 5, seg_mem = [1, 2, 3, 99 :: u8]\<rparr> :: rte_mbuf_seg"
  have "itr_wf (itr_adv 3 (itr_new demo_chain))" by code_simp
  then show ?thesis
    using reader_over_reads [of "itr_adv 3 (itr_new demo_chain)" ?s
        "[\<lparr>data_len = 2, pkt_len = 2, seg_mem = [4, 5]\<rparr>]" None]
    by (simp add: demo_chain_def itr_new_def itr_adv_def)
qed

end
