(* ===== verification/TcpHeader.thy ===== *)
theory TcpHeader
  imports Mbuf
begin

text \<open>
  The headers of a received segment (\<^verbatim>\<open>tcp/inc/tcp_header.hxx\<close>), the key of a client
  (\<^verbatim>\<open>makeClientId\<close> of \<^verbatim>\<open>tcp/inc/tcp_common.hxx\<close>) and the parsing half of
  \<^verbatim>\<open>tcpImpl::handleTcpRx\<close> of \<^verbatim>\<open>tcp/tcp_rx.cc\<close>, from the packet to the filled header. The layout of
  the Ethernet and IPv4 headers and the byte order functions are DPDK's; they are the record
  \<open>net_api\<close>, and \<open>net_documented\<close> states what their documentation says.
\<close>

section \<open>Headers\<close>

text \<open>The namespace \<^verbatim>\<open>tcp_mask\<close>.\<close>

definition tcp_FIN :: u16 where "tcp_FIN = 1"
definition tcp_SYN :: u16 where "tcp_SYN = push_bit 1 1"
definition tcp_RST :: u16 where "tcp_RST = push_bit 2 1"
definition tcp_PSH :: u16 where "tcp_PSH = push_bit 3 1"
definition tcp_ACK :: u16 where "tcp_ACK = push_bit 4 1"
definition tcp_URG :: u16 where "tcp_URG = push_bit 5 1"
definition tcp_ECE :: u16 where "tcp_ECE = push_bit 6 1"
definition tcp_CWR :: u16 where "tcp_CWR = push_bit 7 1"

lemmas tcp_mask_defs = tcp_FIN_def tcp_SYN_def tcp_RST_def tcp_PSH_def tcp_ACK_def tcp_URG_def
  tcp_ECE_def tcp_CWR_def

record IpHeader =
  daddr4 :: u32
  saddr4 :: u32
  packetSize :: u16

text \<open>
  The fields an extraction operator may leave unwritten are options; \<open>data_offset\<close> and
  \<open>evtmask\<close> are assigned before their first use.
\<close>

record TcpSegmentHeader =
  ipHeader :: IpHeader
  sport :: "u16 option"
  dport :: "u16 option"
  seqno :: "u32 option"
  ackno :: "u32 option"
  data_offset :: u8
  evtmask :: u8
  supp_window_size :: "u16 option"
  checksum :: "u16 option"
  uptr :: "u16 option"
  num_option_bytes :: u32
  total_header_bytes :: u32

text \<open>The test \<^verbatim>\<open>header.evtmask & tcp_mask::X\<close>.\<close>

definition has_flag :: "TcpSegmentHeader \<Rightarrow> u16 \<Rightarrow> bool" where
  "has_flag h m = (ucast (evtmask h) AND m \<noteq> (0 :: u16))"

definition makeClientId :: "u32 \<Rightarrow> u16 \<Rightarrow> u64" where
  "makeClientId ipv4Addr port = push_bit 16 (ucast ipv4Addr) OR ucast port"

section \<open>The packet layout\<close>

record net_api =
  sizeof_rte_ether_hdr :: u32
  off_version_ihl :: nat
  off_total_length :: nat
  off_next_proto_id :: nat
  off_src_addr :: nat
  off_dst_addr :: nat
  rte_ipv4_hdr_len :: "u8 \<Rightarrow> u8"                          \<comment> \<open>of \<^verbatim>\<open>version_ihl\<close>\<close>
  rte_be_to_cpu_16 :: "u8 \<Rightarrow> u8 \<Rightarrow> u16"                    \<comment> \<open>bytes in memory order\<close>
  rte_be_to_cpu_32 :: "u8 \<Rightarrow> u8 \<Rightarrow> u8 \<Rightarrow> u8 \<Rightarrow> u32"

definition net_documented :: "net_api \<Rightarrow> bool" where
  "net_documented net \<longleftrightarrow>
     sizeof_rte_ether_hdr net = 14 \<and> off_version_ihl net = 0 \<and> off_total_length net = 2 \<and>
     off_next_proto_id net = 9 \<and> off_src_addr net = 12 \<and> off_dst_addr net = 16 \<and>
     (\<forall>v. rte_ipv4_hdr_len net v = (v AND 0xF) * 4) \<and>
     (\<forall>a b. unat (rte_be_to_cpu_16 net a b) = be_val [a, b]) \<and>
     (\<forall>a b c d. unat (rte_be_to_cpu_32 net a b c d) = be_val [a, b, c, d])"

definition load_be16 :: "net_api \<Rightarrow> u8 list option \<Rightarrow> nat \<Rightarrow> fault + u16" where
  "load_be16 net p k =
     bindR (load8 p k) (\<lambda>a. bindR (load8 p (k + 1)) (\<lambda>b. Inr (rte_be_to_cpu_16 net a b)))"

definition load_be32 :: "net_api \<Rightarrow> u8 list option \<Rightarrow> nat \<Rightarrow> fault + u32" where
  "load_be32 net p k =
     bindR (load8 p k) (\<lambda>a. bindR (load8 p (k + 1)) (\<lambda>b. bindR (load8 p (k + 2)) (\<lambda>c.
       bindR (load8 p (k + 3)) (\<lambda>d. Inr (rte_be_to_cpu_32 net a b c d)))))"

section \<open>Parsing\<close>

text \<open>
  The start that \<^verbatim>\<open>handleTcpRx\<close> and \<^verbatim>\<open>processRx\<close> share: the two size checks, and the reader
  and the raw pointer at the IP header. \<open>None\<close> is the early return. (\<^verbatim>\<open>RTE_ASSERT\<close> of a
  non-null pointer is always true here: the size was checked before.)
\<close>

definition rx_ip_header ::
  "net_api \<Rightarrow> rte_mbuf_seg list \<Rightarrow> fault + (RteMbufReader \<times> u8 list option) option" where
  "rx_ip_header net m =
     (let reader = rd_new m in
      bindR (rd_size reader) (\<lambda>n.
        if n < unat (sizeof_rte_ether_hdr net) then Inr None
        else bindR (rd_getRawBuffer reader) (\<lambda>ethhdr. bindR (assertR (ethhdr \<noteq> None)) (\<lambda>_.
          let reader1 = rd_skip (sizeof_rte_ether_hdr net) reader in
          bindR (rd_size reader1) (\<lambda>n1.
            if n1 < 20 then Inr None
            else bindR (rd_getRawBuffer reader1) (\<lambda>iphdr. bindR (assertR (iphdr \<noteq> None)) (\<lambda>_.
              Inr (Some (reader1, iphdr)))))))))"

definition TCP_HEADER_NUM_DEFAULT_WORD32 :: u32 where
  "TCP_HEADER_NUM_DEFAULT_WORD32 = 5"

text \<open>The TCP header proper, from the reader at its first byte.\<close>

definition tcp_read_header ::
  "IpHeader \<Rightarrow> u32 \<Rightarrow> RteMbufReader \<Rightarrow> fault + (TcpSegmentHeader \<times> RteMbufReader) option" where
  "tcp_read_header ip prefix_len reader =
     bindR (rd_u16 None reader) (\<lambda>(sp, r1). bindR (rd_u16 None r1) (\<lambda>(dp, r2).
     bindR (rd_u32 None r2) (\<lambda>(sq, r3). bindR (rd_u32 None r3) (\<lambda>(ak, r4).
     bindR (rd_u16 (Some 0) r4) (\<lambda>(left, r5). bindR (useR left) (\<lambda>left.
       let evt = ucast (left AND 0xF); doff = ucast (0xF AND drop_bit 12 left) :: u8 in
       if ucast doff < TCP_HEADER_NUM_DEFAULT_WORD32 then Inr None
       else
         let nopt = 4 * (ucast doff - TCP_HEADER_NUM_DEFAULT_WORD32) in
         bindR (rd_u16 None r5) (\<lambda>(win, r6). bindR (rd_u16 None r6) (\<lambda>(sum, r7).
         bindR (rd_u16 None r7) (\<lambda>(urg, r8).
           Inr (Some (\<lparr>ipHeader = ip, sport = sp, dport = dp, seqno = sq, ackno = ak,
                      data_offset = doff, evtmask = evt, supp_window_size = win, checksum = sum,
                      uptr = urg, num_option_bytes = nopt, total_header_bytes = prefix_len + nopt\<rparr>,
                    rd_skip nopt r8)))))))))))"

text \<open>
  Everything \<^verbatim>\<open>handleTcpRx\<close> does before it looks for the connection. \<open>listenId\<close> is
  \<^verbatim>\<open>self.listen.clientId\<close>; the result is the header and the reader at the payload, or \<open>None\<close> when
  the packet is dropped.
\<close>

definition tcp_parse ::
  "net_api \<Rightarrow> u64 \<Rightarrow> rte_mbuf_seg list \<Rightarrow> fault + (TcpSegmentHeader \<times> RteMbufReader) option" where
  "tcp_parse net listenId m =
     bindR (rx_ip_header net m) (\<lambda>r.
       case r of
         None \<Rightarrow> Inr None
       | Some (reader, iphdr) \<Rightarrow>
           bindR (load8 iphdr (off_next_proto_id net)) (\<lambda>proto.
           if proto \<noteq> 6 then Inr None
           else
             bindR (load_be32 net iphdr (off_dst_addr net)) (\<lambda>da.
             bindR (load_be32 net iphdr (off_src_addr net)) (\<lambda>sa.
             bindR (load_be16 net iphdr (off_total_length net)) (\<lambda>sz.
             bindR (load8 iphdr (off_version_ihl net)) (\<lambda>vihl.
               let ip_header_len = rte_ipv4_hdr_len net vihl in
               bindR (tcp_read_header \<lparr>daddr4 = da, saddr4 = sa, packetSize = sz\<rparr>
                   (sizeof_rte_ether_hdr net + ucast ip_header_len)
                   (rd_skip (ucast ip_header_len) reader)) (\<lambda>p.
                 case p of
                   None \<Rightarrow> Inr None
                 | Some (header, reader1) \<Rightarrow>
                     bindR (useR (dport header)) (\<lambda>dp.
                       if ucast dp \<noteq> (listenId AND 0xFFFF) then Inr None
                       else Inr (Some (header, reader1))))))))))"


section \<open>Clients\<close>

lemma unat_makeClientId: "unat (makeClientId ip port) = 65536 * unat ip + unat port"
proof -
  have ip: "unat ip < 4294967296" and port: "unat port < 65536"
    using unsigned_less [of ip, where 'a = nat] unsigned_less [of port, where 'a = nat] by simp_all
  have "makeClientId ip port = push_bit 16 (ucast ip) + ucast port"
    unfolding makeClientId_def
    by (rule disjunctive_add [symmetric]) (auto simp: bit_simps dest: bit_imp_le_length)
  moreover have "unat (push_bit 16 (ucast ip :: u64)) = 65536 * unat ip"
  proof -
    have "unat (push_bit 16 (ucast ip :: u64)) = take_bit LENGTH(64) (push_bit 16 (unat (ucast ip :: u64)))"
      by (rule unsigned_push_bit_eq)
    then show ?thesis using ip
      by (simp add: unsigned_ucast_eq push_bit_eq_mult take_bit_nat_eq_self)
  qed
  moreover have "unat (ucast port :: u64) = unat port"
    using port by (simp add: unsigned_ucast_eq take_bit_nat_eq_self)
  ultimately show ?thesis using ip port by (simp add: unat_word_ariths)
qed

section \<open>Flags and data offset of a parsed header\<close>

lemma unat_and_15: "unat (w AND 15) = unat w mod 16" for w :: "'a::len word"
proof -
  have "w AND 15 = take_bit 4 w" by (simp add: take_bit_eq_mask mask_eq_exp_minus_1)
  then have "unat (w AND 15) = take_bit 4 (unat w)" by (simp only: unsigned_take_bit_eq)
  then show ?thesis by (simp add: take_bit_eq_mod)
qed


lemma unat_ucast_le: "LENGTH('a) \<le> LENGTH('b) \<Longrightarrow> unat (ucast (w :: 'a::len word) :: 'b::len word) = unat w"
proof -
  assume "LENGTH('a) \<le> LENGTH('b)"
  then have "(2 :: nat) ^ LENGTH('a) \<le> 2 ^ LENGTH('b)" by simp
  then have "unat w < 2 ^ LENGTH('b)" using unsigned_less [of w, where 'a = nat] by linarith
  then show ?thesis by (simp add: unsigned_ucast_eq take_bit_nat_eq_self)
qed

text \<open>The two fields taken from the 16 bits that hold data offset and flags.\<close>

lemma left_fields:
  fixes left :: u16
  assumes "unat left = 256 * a + b" and "b < 256"
  shows "unat (ucast (left AND 0xF) :: u8) = b mod 16"
    and "unat (ucast (0xF AND drop_bit 12 left) :: u8) = a div 16"
proof -
  have a: "a < 256" using assms unsigned_less [of left, where 'a = nat] by simp
  have d16: "a div 16 < 16" using a by (intro less_mult_imp_div_less) simp
  have "unat (left AND 0xF) = (256 * a + b) mod 16" by (simp only: unat_and_15 assms(1))
  also have "\<dots> = (b + 16 * (16 * a)) mod 16" by (simp add: add.commute)
  also have "\<dots> = b mod 16" by (rule mod_mult_self2)
  finally have l: "unat (left AND 0xF) = b mod 16" .
  then show "unat (ucast (left AND 0xF) :: u8) = b mod 16"
    by (simp add: unsigned_ucast_eq take_bit_eq_mod)
  have "unat (0xF AND drop_bit 12 left) = unat (drop_bit 12 left) mod 16"
    by (simp only: and.commute [of "0xF"] unat_and_15)
  also have "unat (drop_bit 12 left) = (256 * a + b) div 4096"
    unfolding unat_drop_bit_eq assms(1) by (simp add: drop_bit_eq_div)
  also have "(256 * a + b) div 4096 = (256 * a + b) div 256 div 16" by (simp add: div_mult2_eq [symmetric])
  also have "(256 * a + b) div 256 = a" using assms(2) by simp
  also have "a div 16 mod 16 = a div 16" using d16 by simp
  finally have d: "unat (0xF AND drop_bit 12 left) = a div 16" .
  with d16 show "unat (ucast (0xF AND drop_bit 12 left) :: u8) = a div 16"
    by (simp add: unsigned_ucast_eq take_bit_nat_eq_self)
qed

text \<open>Only the low four flags survive the mask in \<^verbatim>\<open>left&0xF\<close>.\<close>

lemma ucast_nibble_and:
  fixes left m :: u16
  assumes "m AND 15 = 0"
  shows "ucast (ucast (left AND 0xF) :: u8) AND m = 0"
proof -
  have "ucast (ucast (left AND 0xF) :: u8) = left AND 0xF"
    by (rule bit_word_eqI) (auto simp: bit_simps bit_numeral_rec numeral_eq_Suc less_Suc_eq_0_disj dest: bit_imp_le_length)
  then have "ucast (ucast (left AND 0xF) :: u8) AND m = left AND (0xF AND m)" by (simp add: and.assoc)
  then show ?thesis using assms by (simp add: and.commute)
qed

lemma high_flags: "tcp_ACK AND 15 = 0" "tcp_URG AND 15 = 0" "tcp_ECE AND 15 = 0" "tcp_CWR AND 15 = 0"
  by (simp_all add: tcp_mask_defs)

lemma tcp_read_header_evtmask:
  assumes "tcp_read_header ip len rd = Inr (Some (h, rd'))"
  shows "\<exists>left. evtmask h = ucast (left AND 0xF :: u16)"
  using assms by (auto simp: tcp_read_header_def fault_simps Let_def split: if_splits)

lemma tcp_parse_evtmask:
  assumes "tcp_parse net lid m = Inr (Some (h, rd))"
  shows "\<exists>left. evtmask h = ucast (left AND 0xF :: u16)"
  using assms
  by (auto simp: tcp_parse_def fault_simps Let_def split: option.splits prod.splits if_splits
      dest: tcp_read_header_evtmask)


section \<open>Reading a header\<close>

text \<open>The header the bytes from the first byte of the TCP header on describe.\<close>

definition tcp_header_of :: "IpHeader \<Rightarrow> u32 \<Rightarrow> u8 list \<Rightarrow> TcpSegmentHeader \<Rightarrow> bool" where
  "tcp_header_of ip len bs h \<longleftrightarrow>
     ipHeader h = ip \<and>
     map_option unat (sport h) = Some (be_val (take 2 bs)) \<and>
     map_option unat (dport h) = Some (be_val (take 2 (drop 2 bs))) \<and>
     map_option unat (seqno h) = Some (be_val (take 4 (drop 4 bs))) \<and>
     map_option unat (ackno h) = Some (be_val (take 4 (drop 8 bs))) \<and>
     unat (data_offset h) = unat (bs ! 12) div 16 \<and>
     unat (evtmask h) = unat (bs ! 13) mod 16 \<and>
     map_option unat (supp_window_size h) = Some (be_val (take 2 (drop 14 bs))) \<and>
     map_option unat (checksum h) = Some (be_val (take 2 (drop 16 bs))) \<and>
     map_option unat (uptr h) = Some (be_val (take 2 (drop 18 bs))) \<and>
     unat (num_option_bytes h) = 4 * (unat (bs ! 12) div 16 - 5) \<and>
     total_header_bytes h = len + num_option_bytes h"

lemma option_bytes:
  fixes d :: u8
  assumes "unat d = k" and "k < 16"
  shows "ucast d < TCP_HEADER_NUM_DEFAULT_WORD32 \<longleftrightarrow> k < 5"
    and "5 \<le> k \<Longrightarrow> unat (4 * (ucast d - TCP_HEADER_NUM_DEFAULT_WORD32)) = 4 * (k - 5)"
proof -
  have u: "unat (ucast d :: u32) = k" using assms(1) by (simp add: unat_ucast_le)
  then show "ucast d < TCP_HEADER_NUM_DEFAULT_WORD32 \<longleftrightarrow> k < 5"
    by (simp add: TCP_HEADER_NUM_DEFAULT_WORD32_def word_less_nat_alt)
  assume "5 \<le> k"
  with u have "unat (ucast d - TCP_HEADER_NUM_DEFAULT_WORD32 :: u32) = k - 5"
    by (simp add: TCP_HEADER_NUM_DEFAULT_WORD32_def unat_sub word_le_nat_alt)
  with assms(2) show "unat (4 * (ucast d - TCP_HEADER_NUM_DEFAULT_WORD32)) = 4 * (k - 5)"
    unfolding unat_word_ariths by simp
qed

lemma tcp_read_header_stream:
  assumes a: "itr_readable rd 20"
  defines "bs \<equiv> itr_stream rd"
  shows "if unat (bs ! 12) div 16 < 5 then tcp_read_header ip len rd = Inr None
    else \<exists>h. tcp_read_header ip len rd = Inr (Some (h, itr_skip (num_option_bytes h) (itr_next 20 rd))) \<and>
      tcp_header_of ip len bs h"
proof -
  obtain sp where sp: "rd_u16 None rd = Inr (Some sp, itr_next 2 rd)" "unat sp = be_val (take 2 bs)"
    using rd_u16_val [OF a, of None] by (auto simp: bs_def)
  obtain dp where dp: "rd_u16 None (itr_next 2 rd) = Inr (Some dp, itr_next 4 rd)"
    "unat dp = be_val (take 2 (drop 2 bs))"
    using rd_u16_at [OF a, of 2 None] by (auto simp: bs_def)
  obtain sq where sq: "rd_u32 None (itr_next 4 rd) = Inr (Some sq, itr_next 8 rd)"
    "unat sq = be_val (take 4 (drop 4 bs))"
    using rd_u32_at [OF a, of 4 None] by (auto simp: bs_def)
  obtain ak where ak: "rd_u32 None (itr_next 8 rd) = Inr (Some ak, itr_next 12 rd)"
    "unat ak = be_val (take 4 (drop 8 bs))"
    using rd_u32_at [OF a, of 8 None] by (auto simp: bs_def)
  obtain left where left: "rd_u16 (Some 0) (itr_next 12 rd) = Inr (Some left, itr_next 14 rd)"
    "unat left = be_val (take 2 (drop 12 bs))"
    using rd_u16_at [OF a, of 12 "Some 0"] by (auto simp: bs_def)
  obtain win where win: "rd_u16 None (itr_next 14 rd) = Inr (Some win, itr_next 16 rd)"
    "unat win = be_val (take 2 (drop 14 bs))"
    using rd_u16_at [OF a, of 14 None] by (auto simp: bs_def)
  obtain sum where sum: "rd_u16 None (itr_next 16 rd) = Inr (Some sum, itr_next 18 rd)"
    "unat sum = be_val (take 2 (drop 16 bs))"
    using rd_u16_at [OF a, of 16 None] by (auto simp: bs_def)
  obtain urg where urg: "rd_u16 None (itr_next 18 rd) = Inr (Some urg, itr_next 20 rd)"
    "unat urg = be_val (take 2 (drop 18 bs))"
    using rd_u16_at [OF a, of 18 None] by (auto simp: bs_def)
  have "20 \<le> length bs" using itr_stream_length [OF a] by (simp add: bs_def)
  then have "unat left = 256 * unat (bs ! 12) + unat (bs ! 13)"
    using left(2) take_nths(1) [of "drop 12 bs"] by (simp add: be_val_def)
  from left_fields [OF this] have f:
    "unat (ucast (left AND 0xF) :: u8) = unat (bs ! 13) mod 16"
    "unat (ucast (0xF AND drop_bit 12 left) :: u8) = unat (bs ! 12) div 16"
    using unsigned_less [of "bs ! 13", where 'a = nat] by simp_all
  have lim: "unat (bs ! 12) div 16 < 16"
    using unsigned_less [of "bs ! 12", where 'a = nat] by (intro less_mult_imp_div_less) simp
  note o = option_bytes [OF f(2) lim]
  show ?thesis
    using o sp dp sq ak left win sum urg f
    by (auto simp: tcp_read_header_def tcp_header_of_def Let_def simp del: itr_next_simps)
qed

text \<open>Only the first 20 bytes matter.\<close>

lemma tcp_header_of_cong:
  assumes "take 20 bs = take 20 bs'" and "20 \<le> length bs" and "20 \<le> length bs'"
  shows "tcp_header_of ip len bs h \<longleftrightarrow> tcp_header_of ip len bs' h" and "bs ! 12 = bs' ! 12"
proof -
  have n: "bs ! k = bs' ! k" if "k < 20" for k using assms(1) that by (metis nth_take)
  have t: "take m (drop k bs) = take m (drop k bs')" if "k + m \<le> 20" for k m
    using assms that by (intro nth_equalityI) (auto simp: n)
  note T = t [of 0 2] t [of 2 2] t [of 4 4] t [of 8 4] t [of 14 2] t [of 16 2] t [of 18 2]
  show "tcp_header_of ip len bs h \<longleftrightarrow> tcp_header_of ip len bs' h"
    using T by (simp add: tcp_header_of_def n)
  show "bs ! 12 = bs' ! 12" by (simp add: n)
qed


section \<open>Packets\<close>

text \<open>
  The data of a packet, and a packet as DPDK delivers it: the data of each segment lies in its
  buffer, and the first segment carries the length of the whole. A packet of one segment is the
  special case.
\<close>

definition packet_bytes :: "rte_mbuf_seg list \<Rightarrow> u8 list" where
  "packet_bytes m = concat (map seg_bytes m)"

definition packet_ok :: "rte_mbuf_seg list \<Rightarrow> bool" where
  "packet_ok m \<longleftrightarrow> list_all seg_ok m \<and>
     (case m of [] \<Rightarrow> True | s # _ \<Rightarrow> unat (pkt_len s) = length (packet_bytes m))"

definition one_segment :: "rte_mbuf_seg \<Rightarrow> bool" where
  "one_segment s \<longleftrightarrow> seg_ok s \<and> unat (pkt_len s) = unat (data_len s)"

lemma one_segment_packet: "one_segment s \<Longrightarrow> packet_ok [s]"
  by (simp add: one_segment_def packet_ok_def packet_bytes_def)

lemma packet_okD:
  assumes "packet_ok (s # ms)"
  shows "seg_ok s" and "list_all seg_ok (s # ms)" and "unat (data_len s) \<le> unat (pkt_len s)"
    and "k < unat (data_len s) \<Longrightarrow> seg_mem s ! k = packet_bytes (s # ms) ! k"
    and "unat (data_len s) \<le> length (packet_bytes (s # ms))"
  using assms by (auto simp: packet_ok_def packet_bytes_def nth_append) (simp_all add: seg_bytes_def)

lemma itr_skip_adv:
  assumes "itr_m it = s # rest" and "itr_offset it + unat n < unat (data_len s)"
  shows "itr_skip n it = itr_adv (unat n) it"
  using assms by (cases it) (auto simp: itr_skip_def itr_adv_def)

lemma net_documentedD:
  assumes "net_documented net"
  shows "sizeof_rte_ether_hdr net = 14" "off_version_ihl net = 0" "off_total_length net = 2"
    "off_next_proto_id net = 9" "off_src_addr net = 12" "off_dst_addr net = 16"
    "rte_ipv4_hdr_len net v = (v AND 0xF) * 4"
    "unat (rte_be_to_cpu_16 net a b) = be_val [a, b]"
    "unat (rte_be_to_cpu_32 net a b c d) = be_val [a, b, c, d]"
  using assms by (auto simp: net_documented_def)

lemma rx_ip_header_chain:
  assumes net: "net_documented net" and m: "packet_ok (s # ms)" and n: "14 < unat (data_len s)"
  shows "rx_ip_header net (s # ms) = Inr (if unat (pkt_len s) < 20 then None
    else Some (itr_adv 14 (itr_new (s # ms)), Some (drop 14 (seg_mem s))))"
proof -
  let ?it = "itr_new (s # ms)"
  have pl: "14 < unat (pkt_len s)" using packet_okD(3) [OF m] n by linarith
  have sz: "itr_size ?it = Inr (unat (pkt_len s))" by (simp add: itr_size_def itr_new_def)
  then have raw: "itr_getRawBuffer ?it = Inr (Some (seg_mem s))"
    using pl by (simp add: itr_getRawBuffer_def itr_eof_def itr_new_def)
  have skip: "itr_skip 14 ?it = itr_adv 14 ?it"
    using n itr_skip_adv [of ?it s ms 14] by (simp add: itr_new_def)
  have sz1: "itr_size (itr_adv 14 ?it) = Inr (unat (pkt_len s))"
    by (simp add: itr_size_def itr_adv_def itr_new_def)
  then have "itr_getRawBuffer (itr_adv 14 ?it) = Inr (Some (drop 14 (seg_mem s)))"
    using pl by (simp add: itr_getRawBuffer_def itr_eof_def itr_new_def)
  then show ?thesis
    using pl sz sz1 skip raw net_documentedD(1) [OF net] by (simp add: rx_ip_header_def Let_def)
qed

lemma rx_ip_header_one:
  assumes net: "net_documented net" and s: "one_segment s"
  shows "rx_ip_header net [s] = Inr (if unat (data_len s) < 20 then None
    else Some (itr_adv 14 (itr_new [s]), Some (drop 14 (seg_mem s))))"
proof -
  let ?it = "itr_new [s]"
  have pl: "unat (pkt_len s) = unat (data_len s)" using s by (simp add: one_segment_def)
  then have sz: "itr_size ?it = Inr (unat (data_len s))" by (simp add: itr_size_def itr_new_def)
  consider "unat (data_len s) < 14" | "unat (data_len s) = 14" | "14 < unat (data_len s)" by linarith
  then show ?thesis
  proof cases
    case 1
    then show ?thesis using sz net_documentedD(1) [OF net] by (simp add: rx_ip_header_def)
  next
    case 2
    then have "itr_skip 14 ?it = itr_new []" by (simp add: itr_skip_def itr_new_def)
    moreover have "itr_size (itr_new []) = Inr 0" by (simp add: itr_size_def itr_new_def)
    moreover have "itr_getRawBuffer ?it = Inr (Some (seg_mem s))"
      using 2 sz by (simp add: itr_getRawBuffer_def itr_eof_def itr_new_def)
    ultimately show ?thesis
      using 2 sz net_documentedD(1) [OF net] by (simp add: rx_ip_header_def Let_def)
  next
    case 3
    with rx_ip_header_chain [OF net one_segment_packet [OF s]] pl show ?thesis by simp
  qed
qed

lemma load8_drop:
  "k + d < length mem \<Longrightarrow> load8 (Some (drop d mem)) k = Inr (mem ! (d + k))"
  "length mem \<le> k + d \<Longrightarrow> load8 (Some (drop d mem)) k = Inl OutOfBounds"
  by (auto simp: load8_def)

lemma take_drop_nths:
  "k + 2 \<le> length xs \<Longrightarrow> take 2 (drop k xs) = [xs ! k, xs ! (k + 1)]"
  "k + 4 \<le> length xs \<Longrightarrow> take 4 (drop k xs) = [xs ! k, xs ! (k + 1), xs ! (k + 2), xs ! (k + 3)]"
  using take_nths(1) [of "drop k xs"] take_nths(2) [of "drop k xs"] by simp_all

text \<open>Where the TCP header of a packet starts, and the IP header fields the parser keeps.\<close>

definition tcp_start :: "u8 list \<Rightarrow> nat" where
  "tcp_start bs = 14 + 4 * (unat (bs ! 14) mod 16)"

definition ip_header_of :: "u8 list \<Rightarrow> IpHeader \<Rightarrow> bool" where
  "ip_header_of bs ip \<longleftrightarrow>
     unat (daddr4 ip) = be_val (take 4 (drop 30 bs)) \<and>
     unat (saddr4 ip) = be_val (take 4 (drop 26 bs)) \<and>
     unat (packetSize ip) = be_val (take 2 (drop 16 bs))"

lemma ip_len_val: "unat ((v AND 0xF) * 4 :: u8) = 4 * (unat v mod 16)"
  unfolding unat_word_ariths unat_and_15 by simp

text \<open>
  The reader at the TCP header, and the parsing of what it delivers from there, whether the header
  lies in one segment or not.
\<close>

definition tcp_reader :: "rte_mbuf_seg list \<Rightarrow> RteMbufReader" where
  "tcp_reader m = itr_skip (ucast ((packet_bytes m ! 14 AND 0xF) * 4)) (itr_adv 14 (itr_new m))"

lemma ip_skip_val: "unat (ucast ((v AND 0xF) * 4 :: u8) :: u32) = 4 * (unat v mod 16)"
  by (simp add: unat_ucast_le ip_len_val)

lemma tcp_reader_rest:
  assumes m: "packet_ok (s # ms)" and n: "14 < unat (data_len s)"
  shows "itr_wf (tcp_reader (s # ms))"
    and "itr_rest (tcp_reader (s # ms)) = drop (tcp_start (packet_bytes (s # ms))) (packet_bytes (s # ms))"
proof -
  let ?it = "itr_new (s # ms)"
  have a: "itr_ahead ?it 14"
    using itr_new_wf [OF packet_okD(2) [OF m]] packet_okD(3) [OF m] n by (simp add: itr_ahead_def itr_new_def)
  then have wf: "itr_wf (itr_adv 14 ?it)" using itr_ahead_adv [of ?it 14 0] by (simp add: itr_ahead_def)
  then show "itr_wf (tcp_reader (s # ms))" by (simp add: tcp_reader_def itr_skip_wf)
  show "itr_rest (tcp_reader (s # ms)) = drop (tcp_start (packet_bytes (s # ms))) (packet_bytes (s # ms))"
  proof -
    have "itr_rest ?it = packet_bytes (s # ms)" by (simp add: itr_rest_def itr_new_def packet_bytes_def)
    then show ?thesis using itr_skip_rest [OF wf] itr_adv_rest [OF a]
      by (simp add: tcp_reader_def tcp_start_def ip_skip_val add.commute)
  qed
qed

lemma tcp_parse_stream:
  assumes net: "net_documented net" and m: "packet_ok (s # ms)" and n: "34 \<le> unat (data_len s)"
    and proto: "packet_bytes (s # ms) ! 23 = 6" and rd: "itr_readable (tcp_reader (s # ms)) 20"
  defines "bs \<equiv> packet_bytes (s # ms)" and "tb \<equiv> itr_stream (tcp_reader (s # ms))"
  shows "if unat (tb ! 12) div 16 < 5 then tcp_parse net lid (s # ms) = Inr None
    else \<exists>h r len. ip_header_of bs (ipHeader h) \<and> tcp_header_of (ipHeader h) len tb h \<and> unat len = tcp_start bs \<and>
      itr_rest r = drop (4 * (unat (tb ! 12) div 16 - 5)) (itr_rest (itr_next 20 (tcp_reader (s # ms)))) \<and>
      tcp_parse net lid (s # ms) =
        (if ucast (the (dport h)) \<noteq> (lid AND 0xFFFF) then Inr None else Inr (Some (h, r)))"
proof -
  note ok = packet_okD(1,2) [OF m] and pl = packet_okD(3) [OF m]
  have len: "unat (data_len s) \<le> length bs" using packet_okD(5) [OF m] by (simp add: bs_def)
  have ld: "load8 (Some (drop 14 (seg_mem s))) k = Inr (bs ! (14 + k))" if "14 + k < unat (data_len s)" for k
    using that ok(1) load8_drop(1) [of k 14 "seg_mem s"] packet_okD(4) [OF m that]
    by (simp add: bs_def seg_ok_def)
  let ?il = "rte_ipv4_hdr_len net (bs ! 14)" and ?r1 = "tcp_reader (s # ms)"
  have il: "unat ?il = 4 * (unat (bs ! 14) mod 16)"
    unfolding net_documentedD(7) [OF net] by (rule ip_len_val)
  have L: "tcp_start bs = 14 + unat ?il" by (simp add: tcp_start_def il)
  have skip: "itr_skip (ucast ?il) (itr_adv 14 (itr_new (s # ms))) = ?r1"
    by (simp add: tcp_reader_def net_documentedD(7) [OF net] bs_def)
  define ip where "ip = \<lparr>daddr4 = rte_be_to_cpu_32 net (bs ! 30) (bs ! 31) (bs ! 32) (bs ! 33),
      saddr4 = rte_be_to_cpu_32 net (bs ! 26) (bs ! 27) (bs ! 28) (bs ! 29),
      packetSize = rte_be_to_cpu_16 net (bs ! 16) (bs ! 17)\<rparr>"
  have ipo: "ip_header_of bs ip"
    using n len
    by (simp add: ip_header_of_def ip_def net_documentedD(8,9) [OF net] take_drop_nths)
  let ?len = "sizeof_rte_ether_hdr net + ucast ?il"
  have plen: "unat ?len = tcp_start bs"
  proof -
    have "unat ?il < 256" using unsigned_less [of ?il, where 'a = nat] by simp
    then show ?thesis using L by (simp add: net_documentedD(1) [OF net] unat_word_ariths unat_ucast_le)
  qed
  have pr: "bs ! 23 = 6" using proto by (simp add: bs_def)
  have parse: "tcp_parse net lid (s # ms) = bindR (tcp_read_header ip ?len ?r1) (\<lambda>p.
      case p of None \<Rightarrow> Inr None | Some (header, reader1) \<Rightarrow>
        bindR (useR (dport header)) (\<lambda>dp.
          if ucast dp \<noteq> (lid AND 0xFFFF) then Inr None else Inr (Some (header, reader1))))"
    using n pl rx_ip_header_chain [OF net m] pr skip
    by (simp add: tcp_parse_def load_be16_def load_be32_def net_documentedD(2-6) [OF net] ld ip_def Let_def)
  note hd = tcp_read_header_stream [OF rd, of ip ?len, folded tb_def]
  show ?thesis
  proof (cases "unat (tb ! 12) div 16 < 5")
    case True
    with hd parse show ?thesis by simp
  next
    case False
    with hd obtain h where h: "tcp_read_header ip ?len ?r1 =
      Inr (Some (h, itr_skip (num_option_bytes h) (itr_next 20 ?r1)))" "tcp_header_of ip ?len tb h" by auto
    let ?rd = "itr_skip (num_option_bytes h) (itr_next 20 ?r1)"
    have "itr_wf (itr_next 20 ?r1)" using itr_readable_next [of ?r1 20 0] rd by (simp add: itr_readable_def)
    then have r: "itr_rest ?rd = drop (4 * (unat (tb ! 12) div 16 - 5)) (itr_rest (itr_next 20 ?r1))"
      using itr_skip_rest h(2) by (simp add: tcp_header_of_def)
    have iph: "ipHeader h = ip" and dp: "\<exists>dp. dport h = Some dp" using h(2) by (auto simp: tcp_header_of_def)
    with parse h(1) have "tcp_parse net lid (s # ms) =
        (if ucast (the (dport h)) \<noteq> (lid AND 0xFFFF) then Inr None else Inr (Some (h, ?rd)))" by auto
    with False r iph ipo h(2) plen show ?thesis by (auto simp del: ucast_id itr_next_simps)
  qed
qed

text \<open>The same when the headers lie in the first segment: the stream is the data there.\<close>

lemma tcp_parse_chain:
  assumes net: "net_documented net" and m: "packet_ok (s # ms)"
    and fits: "tcp_start (packet_bytes (s # ms)) + 20 \<le> unat (data_len s)"
    and proto: "packet_bytes (s # ms) ! 23 = 6" and n: "34 \<le> unat (data_len s)"
  defines "bs \<equiv> packet_bytes (s # ms)"
  defines "tb \<equiv> drop (tcp_start bs) bs"
  shows "if unat (tb ! 12) div 16 < 5 then tcp_parse net lid (s # ms) = Inr None
    else \<exists>h rd len. ip_header_of bs (ipHeader h) \<and> tcp_header_of (ipHeader h) len tb h \<and> unat len = tcp_start bs \<and>
      itr_rest rd = drop (4 * (unat (tb ! 12) div 16)) tb \<and>
      tcp_parse net lid (s # ms) =
        (if ucast (the (dport h)) \<noteq> (lid AND 0xFFFF) then Inr None else Inr (Some (h, rd)))"
proof -
  let ?it = "itr_new (s # ms)" and ?r = "tcp_reader (s # ms)"
  have n14: "14 < unat (data_len s)" using n by simp
  note R = tcp_reader_rest [OF m n14, folded bs_def]
  have "itr_ahead ?it (unat (data_len s))"
    using itr_new_wf [OF packet_okD(2) [OF m]] packet_okD(3) [OF m] by (simp add: itr_ahead_def itr_new_def)
  then have a0: "itr_ahead ?it (tcp_start bs + 20)" by (rule itr_ahead_mono) (use fits in \<open>simp add: bs_def\<close>)
  have "?r = itr_adv (tcp_start bs) ?it"
    using itr_skip_adv [of "itr_adv 14 ?it" s ms "ucast ((bs ! 14 AND 0xF) * 4)"] fits
    by (simp add: tcp_reader_def tcp_start_def ip_skip_val bs_def [symmetric] itr_new_def)
  with itr_ahead_adv [OF a0] have ahead: "itr_ahead ?r 20" by simp
  note A = itr_ahead_readable [OF ahead]
  have l: "20 \<le> length (itr_stream ?r)" "20 \<le> length tb"
    using itr_stream_length [OF A(1)] itr_ahead_length [OF ahead] R(2) by (simp_all add: tb_def)
  from tcp_header_of_cong [OF _ l] A(3) R(2)
  have c: "tcp_header_of ip len (itr_stream ?r) h \<longleftrightarrow> tcp_header_of ip len tb h" "itr_stream ?r ! 12 = tb ! 12"
    for ip len h by (simp_all add: tb_def)
  have rest: "drop (4 * (d - 5)) (itr_rest (itr_next 20 ?r)) = drop (4 * d) tb" if "\<not> d < 5" for d
  proof -
    have "drop (4 * (d - 5)) (itr_rest (itr_next 20 ?r)) = drop (4 * (d - 5) + (20 + tcp_start bs)) bs"
      using itr_adv_rest [OF ahead] R(2) by (simp add: A(2))
    also have "4 * (d - 5) + (20 + tcp_start bs) = 4 * d + tcp_start bs" using that by linarith
    finally show ?thesis by (simp add: tb_def)
  qed
  show ?thesis
    using tcp_parse_stream [OF net m n proto A(1), of lid, folded bs_def]
    by (cases "unat (tb ! 12) div 16 < 5") (simp_all add: c rest del: itr_next_simps)
qed

section \<open>A concrete packet layout and packet\<close>

definition demo_net :: net_api where
  "demo_net = \<lparr>sizeof_rte_ether_hdr = 14, off_version_ihl = 0, off_total_length = 2,
     off_next_proto_id = 9, off_src_addr = 12, off_dst_addr = 16,
     rte_ipv4_hdr_len = (\<lambda>v. (v AND 0xF) * 4),
     rte_be_to_cpu_16 = (\<lambda>a b. push_bit 8 (ucast a) OR ucast b),
     rte_be_to_cpu_32 = (\<lambda>a b c d. push_bit 16 (ucast (push_bit 8 (ucast a) OR ucast b :: u16)) OR
        ucast (push_bit 8 (ucast c) OR ucast d :: u16))\<rparr>"

lemma unat_be16: "unat (push_bit 8 (ucast a) OR ucast b :: u16) = 256 * unat a + unat b" for a b :: u8
  using unat_concat [of a b, where 'b = 16] by simp

lemma unat_be32: "unat (push_bit 16 (ucast a) OR ucast b :: u32) = 65536 * unat a + unat b" for a b :: u16
  using unat_concat [of a b, where 'b = 32] by simp

lemma demo_net_documented: "net_documented demo_net"
  by (simp add: net_documented_def demo_net_def unat_be16 unat_be32 be_val_def)

text \<open>
  A segment from host 10.0.0.\<open>c\<close>, port \<open>c\<close>, to port 8000 with the given flags, sequence number and
  payload.
\<close>

definition demo_bytes :: "u8 \<Rightarrow> u8 \<Rightarrow> u8 \<Rightarrow> u8 list \<Rightarrow> u8 list" where
  "demo_bytes c flags sq payload =
     replicate 12 0 @ [8, 0] @
     [0x45, 0, 0, 40, 0, 0, 0, 0, 64, 6, 0, 0, 10, 0, 0, c, 10, 0, 0, 1] @
     [0, c, 31, 64, 0, 0, 0, sq, 0, 0, 0, 0, 0x50, flags, 1, 0, 0, 0, 0, 0] @ payload"

definition demo_seg :: "u8 \<Rightarrow> u8 \<Rightarrow> u8 \<Rightarrow> u8 list \<Rightarrow> rte_mbuf_seg" where
  "demo_seg c flags sq payload =
     (let bs = demo_bytes c flags sq payload in
      \<lparr>data_len = of_nat (length bs), pkt_len = of_nat (length bs), seg_mem = bs\<rparr>)"

section \<open>Properties\<close>

text \<open>
  Property (C34). Clients are identified exactly: two connections have the same client id only
  when source address and source port agree, the id fits 48 bits (the top byte that the timer tag
  uses stays free), and address and port can be read back from it.
\<close>

theorem makeClientId_exact:
  "(makeClientId ip port = makeClientId ip' port' \<longleftrightarrow> ip = ip' \<and> port = port') \<and>
   unat (makeClientId ip port) < 2 ^ 48 \<and>
   unat (makeClientId ip port) div 2 ^ 16 = unat ip \<and> unat (makeClientId ip port) mod 2 ^ 16 = unat port"
proof -
  have p: "unat w < 65536" for w :: u16 using unsigned_less [of w, where 'a = nat] by simp
  have i: "unat ip < 4294967296" using unsigned_less [of ip, where 'a = nat] by simp
  have dm: "unat (makeClientId a b) div 65536 = unat a \<and> unat (makeClientId a b) mod 65536 = unat b" for a b
    using p [of b] by (simp add: unat_makeClientId)
  have "makeClientId ip port = makeClientId ip' port' \<Longrightarrow> ip = ip' \<and> port = port'"
    using dm [of ip port] dm [of ip' port'] by (metis word_unat_eq_iff)
  moreover have "unat (makeClientId ip port) < 2 ^ 48"
    using p [of port] i unfolding unat_makeClientId by simp
  moreover have "(2 :: nat) ^ 16 = 65536" by simp
  ultimately show ?thesis using dm [of ip port] by metis
qed

text \<open>
  Property (C14). A TCP packet, in one segment or in many, whose Ethernet, IPv4 and TCP base headers
  lie in the first segment is parsed exactly: it is dropped when its data offset is below five words
  or its destination port is not the listening port, and otherwise the header has the fields of the
  packet (big-endian, flags masked to four bits) and the reader stands at the first byte behind the
  TCP options, in whichever segment that is. \<^verbatim>\<open>total_header_bytes\<close> is the length of the Ethernet
  and IP headers and the options, without the 20 bytes of the TCP base header.
\<close>

theorem tcp_parse_exact:
  assumes "net_documented net" and "packet_ok (s # ms)"
    and "tcp_start (packet_bytes (s # ms)) + 20 \<le> unat (data_len s)"
    and "packet_bytes (s # ms) ! 23 = 6" and "34 \<le> unat (data_len s)"
    and "tb = drop (tcp_start (packet_bytes (s # ms))) (packet_bytes (s # ms))"
  shows "if unat (tb ! 12) div 16 < 5 then tcp_parse net lid (s # ms) = Inr None
    else \<exists>h rd len. ip_header_of (packet_bytes (s # ms)) (ipHeader h) \<and>
      tcp_header_of (ipHeader h) len tb h \<and> unat len = tcp_start (packet_bytes (s # ms)) \<and>
      itr_rest rd = drop (4 * (unat (tb ! 12) div 16)) tb \<and>
      tcp_parse net lid (s # ms) =
        (if ucast (the (dport h)) \<noteq> (lid AND 0xFFFF) then Inr None else Inr (Some (h, rd)))"
  unfolding assms(6) using tcp_parse_chain [OF assms(1-5), of lid] by simp

text \<open>
  A packet of three segments: headers and the first option byte, the other three option bytes and
  one byte of payload, another byte of payload.
\<close>

definition demo_long :: "rte_mbuf_seg list" where
  "demo_long =
     [\<lparr>data_len = 55, pkt_len = 60,
       seg_mem = (demo_bytes 9 18 77 [1])[46 := 0x60]\<rparr>,
      \<lparr>data_len = 4, pkt_len = 4, seg_mem = [1, 1, 1, 5, 99]\<rparr>,
      \<lparr>data_len = 1, pkt_len = 1, seg_mem = [6]\<rparr>]"

lemma demo_long_ok:
  "packet_ok demo_long" "data_len (hd demo_long) = 55" "tcp_start (packet_bytes demo_long) = 34"
  "packet_bytes demo_long ! 23 = 6" "hd demo_long # tl demo_long = demo_long"
  by code_simp+

theorem tcp_parse_exact_witness:
  "\<exists>h rd. ip_header_of (packet_bytes demo_long) (ipHeader h) \<and>
     itr_rest rd = [5, 6] \<and> tcp_parse demo_net 8000 demo_long = Inr (Some (h, rd))"
proof -
  let ?m = "demo_long"
  let ?tb = "drop (tcp_start (packet_bytes ?m)) (packet_bytes ?m)"
  have v: "unat (?tb ! 12) div 16 = 6" "drop 24 ?tb = [5, 6]" "be_val (take 2 (drop 2 ?tb)) = 8000"
    by code_simp+
  obtain h rd where h: "ip_header_of (packet_bytes ?m) (ipHeader h)" "itr_rest rd = drop 24 ?tb"
      "map_option unat (dport h) = Some (be_val (take 2 (drop 2 ?tb)))"
      "tcp_parse demo_net 8000 ?m =
        (if ucast (the (dport h)) \<noteq> (8000 AND 0xFFFF :: u64) then Inr None else Inr (Some (h, rd)))"
    using tcp_parse_exact [OF demo_net_documented, of "hd ?m" "tl ?m" ?tb 8000] demo_long_ok v(1)
    by (auto simp: tcp_header_of_def)
  from h(3) have "unat (the (dport h)) = 8000" unfolding v(3) by auto
  then have "ucast (the (dport h)) = (8000 :: u64)"
    by (simp add: word_unat_eq_iff unat_ucast_le)
  moreover have "8000 AND 0xFFFF = (8000 :: u64)" by simp
  ultimately show ?thesis using h(1,2,4) v(2) by auto
qed

text \<open>
  Property (C15). A TCP header that the chain of segments cuts is misread. Wherever the header starts,
  the parser takes its fields from the bytes the reader delivers; when the segment ends \<open>k\<close> bytes after
  the start, these are the \<open>k\<close> bytes of the header, then the byte of the buffer behind the segment, and
  then the rest of the header, one byte late; the options and the payload are taken from where the
  reader then is, one data byte early.
\<close>

theorem tcp_header_cut:
  assumes "net_documented net" and "packet_ok (s # ms)" and "34 \<le> unat (data_len s)"
    and "packet_bytes (s # ms) ! 23 = 6" and "itr_readable (tcp_reader (s # ms)) 20"
    and "tb = itr_stream (tcp_reader (s # ms))"
  shows "(if unat (tb ! 12) div 16 < 5 then tcp_parse net lid (s # ms) = Inr None
     else \<exists>h r len. ip_header_of (packet_bytes (s # ms)) (ipHeader h) \<and> tcp_header_of (ipHeader h) len tb h \<and>
       unat len = tcp_start (packet_bytes (s # ms)) \<and>
       itr_rest r = drop (4 * (unat (tb ! 12) div 16 - 5)) (itr_rest (itr_next 20 (tcp_reader (s # ms)))) \<and>
       tcp_parse net lid (s # ms) =
         (if ucast (the (dport h)) \<noteq> (lid AND 0xFFFF) then Inr None else Inr (Some (h, r)))) \<and>
    (\<forall>s' k rest. itr_m (tcp_reader (s # ms)) = s' # rest \<and>
       itr_offset (tcp_reader (s # ms)) + k = unat (data_len s') \<and> k < 20 \<longrightarrow>
       take k tb = take k (drop (tcp_start (packet_bytes (s # ms))) (packet_bytes (s # ms))) \<and>
       tb ! k = seg_mem s' ! unat (data_len s') \<and> drop (Suc k) tb = itr_stream (itr_new rest))"
proof -
  have n: "14 < unat (data_len s)" using assms(3) by simp
  note R = tcp_reader_rest [OF assms(2) n]
  have "take k tb = take k (drop (tcp_start (packet_bytes (s # ms))) (packet_bytes (s # ms))) \<and>
       tb ! k = seg_mem s' ! unat (data_len s') \<and> drop (Suc k) tb = itr_stream (itr_new rest)"
    if "itr_m (tcp_reader (s # ms)) = s' # rest" "itr_offset (tcp_reader (s # ms)) + k = unat (data_len s')" "k < 20"
    for s' k rest
    using itr_stream_cut [OF assms(5) that] R(2) unfolding assms(6) by simp
  then show ?thesis using tcp_parse_stream [OF assms(1-5), of lid] unfolding assms(6) by blast
qed

text \<open>
  A SYN whose header is cut after ten bytes, in front of a buffer byte 99: it is accepted with an
  acknowledgement number that contains the 99 and without the SYN flag.
\<close>

definition demo_cut :: "rte_mbuf_seg list" where
  "demo_cut =
     [\<lparr>data_len = 44, pkt_len = 56,
       seg_mem = take 44 (demo_bytes 9 2 77 []) @ [99]\<rparr>,
      \<lparr>data_len = 12, pkt_len = 12, seg_mem = [0, 80] @ drop 46 (demo_bytes 9 2 77 [5, 6])\<rparr>]"

lemma demo_cut_ok:
  "packet_ok demo_cut" "data_len (hd demo_cut) = 44" "packet_bytes demo_cut ! 23 = 6" "hd demo_cut # tl demo_cut = demo_cut"
  "itr_readable (tcp_reader demo_cut) 20"
  by code_simp+

theorem tcp_header_cut_witness:
  "\<exists>h r. tcp_parse demo_net 8000 demo_cut = Inr (Some (h, r)) \<and>
     map_option unat (ackno h) = Some (be_val [0, 0, 99, 0]) \<and> \<not> has_flag h tcp_SYN"
proof -
  let ?tb = "itr_stream (tcp_reader demo_cut)"
  have v: "unat (?tb ! 12) div 16 = 5" "be_val (take 2 (drop 2 ?tb)) = 8000" "take 4 (drop 8 ?tb) = [0, 0, 99, 0]"
    "unat (?tb ! 13) mod 16 = 0"
    by code_simp+
  obtain h r where h: "map_option unat (dport h) = Some 8000" "map_option unat (ackno h) = Some (be_val [0, 0, 99, 0])"
      "unat (evtmask h) = 0" "tcp_parse demo_net 8000 demo_cut =
        (if ucast (the (dport h)) \<noteq> (8000 AND 0xFFFF :: u64) then Inr None else Inr (Some (h, r)))"
    using tcp_header_cut [OF demo_net_documented, of "hd demo_cut" "tl demo_cut" ?tb 8000] demo_cut_ok v
    by (auto simp: tcp_header_of_def)
  from h(1) have "unat (the (dport h)) = 8000" by auto
  then have "ucast (the (dport h)) = (8000 :: u64)" by (simp add: word_unat_eq_iff unat_ucast_le)
  moreover have "8000 AND 0xFFFF = (8000 :: u64)" by simp
  moreover have "evtmask h = 0" using h(3) by (simp add: unat_eq_zero)
  ultimately show ?thesis using h(2,4) by (simp add: has_flag_def)
qed

text \<open>
  No parsed header has one of the flags ACK, URG, ECE or CWR: the parser keeps the
  low four bits of the flags only, and each of these masks is above them.
\<close>

theorem tcp_parse_flags:
  assumes "tcp_parse net lid m = Inr (Some (h, rd))"
  shows "\<not> has_flag h tcp_ACK \<and> \<not> has_flag h tcp_URG \<and> \<not> has_flag h tcp_ECE \<and> \<not> has_flag h tcp_CWR"
proof -
  obtain left :: u16 where "evtmask h = ucast (left AND 0xF)" using tcp_parse_evtmask [OF assms] by auto
  then show ?thesis using ucast_nibble_and [OF high_flags(1)] ucast_nibble_and [OF high_flags(2)]
      ucast_nibble_and [OF high_flags(3)] ucast_nibble_and [OF high_flags(4)]
    by (simp add: has_flag_def)
qed

text \<open>The parsed header of the concrete packet, with the flags SYN and ACK on the wire.\<close>

definition demo_header :: "u8 \<Rightarrow> u8 \<Rightarrow> u8 \<Rightarrow> TcpSegmentHeader" where
  "demo_header c flags sq =
     \<lparr>ipHeader = \<lparr>daddr4 = 167772161, saddr4 = 167772160 + ucast c, packetSize = 40\<rparr>,
      sport = Some (ucast c), dport = Some 8000, seqno = Some (ucast sq), ackno = Some 0,
      data_offset = 5, evtmask = flags AND 15, supp_window_size = Some 256, checksum = Some 0,
      uptr = Some 0, num_option_bytes = 0, total_header_bytes = 34\<rparr>"

lemma demo_parse:
  "tcp_parse demo_net 8000 [demo_seg 9 18 77 [5, 6]] =
     Inr (Some (demo_header 9 18 77, (itr_new [demo_seg 9 18 77 [5, 6]])\<lparr>itr_offset := 54\<rparr>))"
  by code_simp

theorem tcp_parse_flags_witness:
  "\<not> has_flag (demo_header 9 18 77) tcp_ACK \<and> has_flag (demo_header 9 18 77) tcp_SYN"
proof -
  have "has_flag (demo_header 9 18 77) tcp_SYN" by code_simp
  with tcp_parse_flags [OF demo_parse] show ?thesis by simp
qed

text \<open>
  Property (C33). What becomes of a packet that is too short for an IPv4 header. The second size check
  compares the whole packet length, not what follows the Ethernet header, with 20. So of the packets
  of fewer than 34 bytes, in one segment whose buffer ends with the data, those of up to 19 bytes
  are dropped, and so are those of 24 bytes and more whose protocol byte is not TCP; each of the
  others passes both checks and its header is read past the end of the buffer.
\<close>

theorem tcp_parse_short_over_reads:
  assumes "net_documented net" and "one_segment s" and "length (seg_mem s) = unat (data_len s)"
    and "unat (data_len s) < 34"
  shows "tcp_parse net lid [s] =
    (if unat (data_len s) < 20 \<or> 24 \<le> unat (data_len s) \<and> seg_mem s ! 23 \<noteq> 6 then Inr None else Inl OutOfBounds)"
proof -
  note rx = rx_ip_header_one [OF assms(1,2)]
  note D = net_documentedD(2-6) [OF assms(1)]
  consider "unat (data_len s) < 20" | "20 \<le> unat (data_len s)" "unat (data_len s) < 24" | "24 \<le> unat (data_len s)"
    by linarith
  then show ?thesis
  proof cases
    case 1
    then show ?thesis by (simp add: tcp_parse_def rx)
  next
    case 2
    then show ?thesis
      using assms(3) load8_drop(2) [of "seg_mem s" 9 14] by (simp add: tcp_parse_def rx D)
  next
    case 3
    have p: "load8 (Some (drop 14 (seg_mem s))) 9 = Inr (seg_mem s ! 23)"
      using 3 assms(3) load8_drop(1) [of 9 14 "seg_mem s"] by simp
    have "load8 (Some (drop 14 (seg_mem s))) 19 = Inl OutOfBounds"
      using assms(3,4) load8_drop(2) [of "seg_mem s" 19 14] by simp
    then have "load_be32 net (Some (drop 14 (seg_mem s))) 16 = Inl OutOfBounds"
      by (auto simp: load_be32_def load8_def)
    with p show ?thesis using 3 by (simp add: tcp_parse_def rx D)
  qed
qed

theorem tcp_parse_short_over_reads_witness:
  "tcp_parse demo_net 8000 [\<lparr>data_len = 22, pkt_len = 22, seg_mem = replicate 22 0\<rparr>] = Inl OutOfBounds \<and>
   tcp_parse demo_net 8000 [\<lparr>data_len = 24, pkt_len = 24, seg_mem = replicate 24 17\<rparr>] = Inr None"
proof
  have "one_segment \<lparr>data_len = 22, pkt_len = 22, seg_mem = replicate 22 0\<rparr>" by code_simp
  then show "tcp_parse demo_net 8000 [\<lparr>data_len = 22, pkt_len = 22, seg_mem = replicate 22 0\<rparr>] = Inl OutOfBounds"
    using tcp_parse_short_over_reads [OF demo_net_documented, of "\<lparr>data_len = 22, pkt_len = 22, seg_mem = replicate 22 0\<rparr>" 8000]
    by simp
  have "one_segment \<lparr>data_len = 24, pkt_len = 24, seg_mem = replicate 24 17\<rparr>" by code_simp
  then show "tcp_parse demo_net 8000 [\<lparr>data_len = 24, pkt_len = 24, seg_mem = replicate 24 17\<rparr>] = Inr None"
    using tcp_parse_short_over_reads [OF demo_net_documented, of "\<lparr>data_len = 24, pkt_len = 24, seg_mem = replicate 24 17\<rparr>" 8000]
    by simp
qed

end
