(* ===== verification/Tcb.thy ===== *)
theory Tcb
  imports FixedTable Circular Autobuf Timer TcpHeader
begin

text \<open>
  Connections: \<^verbatim>\<open>tcp_state\<close>, \<^verbatim>\<open>tcp_segment\<close> and \<^verbatim>\<open>TcpControlBlock\<close> of
  \<^verbatim>\<open>tcp/inc/tcp_control_block.hxx\<close> and \<^verbatim>\<open>tcp/tcp_control_block.cc\<close>, and the per-thread context
  \<^verbatim>\<open>tcpImpl\<close> of \<^verbatim>\<open>tcp/inc/tcp_common.hxx\<close>: its table of clients, its listening block, and
  access to a control block through a reference into either.
\<close>

section \<open>States\<close>

datatype tcp_state =
    TCP_STATE_CLOSED | TCP_STATE_LISTEN | TCP_STATE_SYN_SENT | TCP_STATE_SYN_RCVD
  | TCP_STATE_ESTABLISHED | TCP_STATE_CLOSE_WAIT | TCP_STATE_FIN_WAIT_1 | TCP_STATE_CLOSING
  | TCP_STATE_LAST_ACK | TCP_STATE_FIN_WAIT_2 | TCP_STATE_TIME_WAIT | TCP_STATE_EXCEPTION_HANG
  | TCP_STATE_MAX

text \<open>The value of the enumerator, which indexes the tables of handlers.\<close>

fun state_num :: "tcp_state \<Rightarrow> nat" where
  "state_num TCP_STATE_CLOSED = 0"
| "state_num TCP_STATE_LISTEN = 1"
| "state_num TCP_STATE_SYN_SENT = 2"
| "state_num TCP_STATE_SYN_RCVD = 3"
| "state_num TCP_STATE_ESTABLISHED = 4"
| "state_num TCP_STATE_CLOSE_WAIT = 5"
| "state_num TCP_STATE_FIN_WAIT_1 = 6"
| "state_num TCP_STATE_CLOSING = 7"
| "state_num TCP_STATE_LAST_ACK = 8"
| "state_num TCP_STATE_FIN_WAIT_2 = 9"
| "state_num TCP_STATE_TIME_WAIT = 10"
| "state_num TCP_STATE_EXCEPTION_HANG = 11"
| "state_num TCP_STATE_MAX = 12"

lemma state_num_inj: "state_num s = state_num t \<Longrightarrow> s = t"
  by (cases s; cases t) simp_all

text \<open>Enumerators are compared by their value.\<close>

instantiation tcp_state :: linorder
begin

definition less_eq_tcp_state :: "tcp_state \<Rightarrow> tcp_state \<Rightarrow> bool" where
  "less_eq_tcp_state s t = (state_num s \<le> state_num t)"

definition less_tcp_state :: "tcp_state \<Rightarrow> tcp_state \<Rightarrow> bool" where
  "less_tcp_state s t = (state_num s < state_num t)"

instance
  by standard (auto simp: less_eq_tcp_state_def less_tcp_state_def intro: state_num_inj)

end

lemma state_num_bound: "s \<noteq> TCP_STATE_MAX \<longleftrightarrow> state_num s < 12"
  by (cases s) simp_all

lemma state_ge_MAX: "TCP_STATE_MAX \<le> s \<longleftrightarrow> s = TCP_STATE_MAX"
  by (cases s) (simp_all add: less_eq_tcp_state_def)

section \<open>Control blocks\<close>

record tcp_segment =
  seg_seqno :: "u32 option"
  seg_pkt :: "nat aroop_autobuf"

definition TCP_MAX_UNA_SEGMENTS :: nat where "TCP_MAX_UNA_SEGMENTS = 4098"

definition TCP_CONTROL_BLOCK_DEFAULT_MS :: u32 where "TCP_CONTROL_BLOCK_DEFAULT_MS = 100"

definition TCP_CONNECTION_TMR :: nat where "TCP_CONNECTION_TMR = 1"
definition TCP_INACTIVITY_TMR :: nat where "TCP_INACTIVITY_TMR = 2"
definition TCP_FINAL_TMR_1 :: nat where "TCP_FINAL_TMR_1 = 3"
definition TCP_FINAL_TMR_2 :: nat where "TCP_FINAL_TMR_2 = 4"
definition TCP_MAX_TMR :: nat where "TCP_MAX_TMR = 5"

lemmas tmr_id_defs = TCP_CONNECTION_TMR_def TCP_INACTIVITY_TMR_def TCP_FINAL_TMR_1_def
  TCP_FINAL_TMR_2_def TCP_MAX_TMR_def

text \<open>Members without an initialiser are options, \<open>None\<close> until they are assigned.\<close>

record 't TcpControlBlock =
  tcb_state :: tcp_state
  laddr :: "u8 list option"
  raddr :: "u8 list option"
  tcb_clientId :: u64
  expseq :: "u32 option"
  tx_seg :: "tcp_segment bus_mp_sc"
  rx_seg :: "tcp_segment bus_mp_sc"
  tmr :: "'t multi_timer"

definition seg_bus_new :: "tcp_segment bus_mp_sc" where
  "seg_bus_new = bus_new (replicate TCP_MAX_UNA_SEGMENTS \<lparr>seg_seqno = None, seg_pkt = autobuf_new\<rparr>)"

definition tcb_new :: "'t timer_api \<Rightarrow> u64 \<Rightarrow> 't TcpControlBlock" where
  "tcb_new api givenClientId =
     \<lparr>tcb_state = TCP_STATE_CLOSED, laddr = None, raddr = None, tcb_clientId = givenClientId,
      expseq = None, tx_seg = seg_bus_new, rx_seg = seg_bus_new,
      tmr = multi_timer_setSrcAddr givenClientId (multi_timer_new api TCP_MAX_TMR)\<rparr>"

text \<open>\<^verbatim>\<open>tcb.tmr.start<ID>(ms)\<close> on the timers of a control block.\<close>

definition tcb_start ::
  "'t timer_api \<Rightarrow> int \<Rightarrow> nat \<Rightarrow> u32 \<Rightarrow> 't TcpControlBlock \<Rightarrow> bool \<times> 't TcpControlBlock" where
  "tcb_start api thr i ms tcb =
     (let (ok, m) = multi_timer_start api thr i ms (tmr tcb) in (ok, tcb\<lparr>tmr := m\<rparr>))"

definition changeState ::
  "'t timer_api \<Rightarrow> int \<Rightarrow> tcp_state \<Rightarrow> 't TcpControlBlock \<Rightarrow> 't TcpControlBlock" where
  "changeState api thr new_state self =
     (if tcb_state self = new_state then self
      else
        let self1 = self\<lparr>tcb_state := new_state\<rparr> in
        if TCP_STATE_EXCEPTION_HANG = new_state
        then snd (tcb_start api thr TCP_FINAL_TMR_2 TCP_CONTROL_BLOCK_DEFAULT_MS self1)
        else self1)"

section \<open>The context of a thread\<close>

text \<open>
  \<open>retired\<close> is not a member of the class: it is the log of the destructor calls of control blocks, each
  with the block as its destructor left it, newest first. C++ calls them when the table's
  \<^verbatim>\<open>content.reset()\<close> removes or replaces a block.
\<close>

record 't tcpImpl =
  tcbTable :: "'t TcpControlBlock FixedDict"
  listen :: "'t TcpControlBlock"
  retired :: "'t TcpControlBlock list"

definition MAX_TCP_CLIENT :: nat where "MAX_TCP_CLIENT = 64"

definition tcpImpl_new :: "'t timer_api \<Rightarrow> 't tcpImpl" where
  "tcpImpl_new api = \<lparr>tcbTable = fd_new MAX_TCP_CLIENT, listen = tcb_new api 8000, retired = []\<rparr>"

text \<open>A \<^verbatim>\<open>TcpControlBlock&\<close>: the listening block, or the block in a slot of the table.\<close>

datatype tcb_ref = ListenRef | SlotRef nat

definition tcb_get :: "tcb_ref \<Rightarrow> 't tcpImpl \<Rightarrow> fault + 't TcpControlBlock" where
  "tcb_get r self =
     (case r of ListenRef \<Rightarrow> Inr (listen self) | SlotRef s \<Rightarrow> useR (fd_at (tcbTable self) s))"

definition tcb_set :: "tcb_ref \<Rightarrow> 't TcpControlBlock \<Rightarrow> 't tcpImpl \<Rightarrow> 't tcpImpl" where
  "tcb_set r tcb self =
     (case r of
        ListenRef \<Rightarrow> self\<lparr>listen := tcb\<rparr>
      | SlotRef s \<Rightarrow> self\<lparr>tcbTable := fd_put (tcbTable self) s tcb\<rparr>)"

text \<open>The destructor of a control block destroys its timers; the log of it for the block in a slot.\<close>

definition tcb_destroy :: "'t timer_api \<Rightarrow> 't TcpControlBlock \<Rightarrow> 't TcpControlBlock" where
  "tcb_destroy api tcb = tcb\<lparr>tmr := multi_timer_destroy api (tmr tcb)\<rparr>"

definition tcb_retire :: "'t timer_api \<Rightarrow> nat option \<Rightarrow> 't tcpImpl \<Rightarrow> 't tcpImpl" where
  "tcb_retire api s self =
     (case s of
        None \<Rightarrow> self
      | Some i \<Rightarrow>
          (case fd_at (tcbTable self) i of
             None \<Rightarrow> self
           | Some tcb \<Rightarrow> self\<lparr>retired := tcb_destroy api tcb # retired self\<rparr>))"

text \<open>\<^verbatim>\<open>tcbTable.erase(clientId)\<close> and \<^verbatim>\<open>tcbTable.emplace(clientId, clientId)\<close>.\<close>

definition tcp_erase :: "'t timer_api \<Rightarrow> u64 \<Rightarrow> 't tcpImpl \<Rightarrow> 't tcpImpl" where
  "tcp_erase api clientId self =
     (let self1 = tcb_retire api (fd_find (tcbTable self) clientId) self in
      self1\<lparr>tcbTable := snd (fd_erase (tcbTable self1) clientId)\<rparr>)"

definition tcp_emplace :: "'t timer_api \<Rightarrow> u64 \<Rightarrow> 't tcpImpl \<Rightarrow> fault + (nat option \<times> 't tcpImpl)" where
  "tcp_emplace api clientId self =
     bindR (fd_emplace (tcbTable self) clientId (tcb_new api clientId)) (\<lambda>(ret, tbl).
       Inr (ret, (tcb_retire api (fd_find (tcbTable self) clientId) self)\<lparr>tcbTable := tbl\<rparr>))"

section \<open>Lemmas on control blocks\<close>

lemma tcb_new_simps [simp]:
  "tcb_state (tcb_new api k) = TCP_STATE_CLOSED" "tcb_clientId (tcb_new api k) = k"
  "expseq (tcb_new api k) = None" "tm_srcAddr (tmr (tcb_new api k)) = k"
  "length (tmrs (tmr (tcb_new api k))) = TCP_MAX_TMR"
  by (simp_all add: tcb_new_def multi_timer_setSrcAddr_def multi_timer_new_def)

text \<open>The part of a control block that no timer operation touches.\<close>

lemma tcb_start_simps [simp]:
  "tcb_state (snd (tcb_start api thr i ms tcb)) = tcb_state tcb"
  "tcb_clientId (snd (tcb_start api thr i ms tcb)) = tcb_clientId tcb"
  "expseq (snd (tcb_start api thr i ms tcb)) = expseq tcb"
  "tm_srcAddr (tmr (snd (tcb_start api thr i ms tcb))) = tm_srcAddr (tmr tcb)"
  "length (tmrs (tmr (snd (tcb_start api thr i ms tcb)))) = length (tmrs (tmr tcb))"
  "tx_seg (snd (tcb_start api thr i ms tcb)) = tx_seg tcb"
  "rx_seg (snd (tcb_start api thr i ms tcb)) = rx_seg tcb"
  using multi_timer_start_length [of api thr i ms "tmr tcb"]
  by (simp_all add: tcb_start_def split_beta)

lemma changeState_simps [simp]:
  "tcb_state (changeState api thr s tcb) = s"
  "tcb_clientId (changeState api thr s tcb) = tcb_clientId tcb"
  "expseq (changeState api thr s tcb) = expseq tcb"
  "tm_srcAddr (tmr (changeState api thr s tcb)) = tm_srcAddr (tmr tcb)"
  "length (tmrs (tmr (changeState api thr s tcb))) = length (tmrs (tmr tcb))"
  "tx_seg (changeState api thr s tcb) = tx_seg tcb"
  "rx_seg (changeState api thr s tcb) = rx_seg tcb"
  by (simp_all add: changeState_def Let_def)

lemma changeState_tmr: "s \<noteq> TCP_STATE_EXCEPTION_HANG \<Longrightarrow> tmr (changeState api thr s tcb) = tmr tcb"
  by (simp add: changeState_def Let_def)

lemma tcb_start_ok:
  "timer_documented api \<Longrightarrow> mtimer_ticks ms \<noteq> 0 \<Longrightarrow> fst (tcb_start api thr i ms tcb)"
  using multi_timer_start_True [of api ms thr i "tmr tcb"] by (simp add: tcb_start_def split_beta)

section \<open>Lemmas on the context\<close>

text \<open>The clients of a context, as a map.\<close>

definition clients :: "'t tcpImpl \<Rightarrow> u64 \<Rightarrow> 't TcpControlBlock option" where
  "clients self = fd_lookup (tcbTable self)"

lemma tcb_retire_table [simp]:
  "tcbTable (tcb_retire api s self) = tcbTable self" "listen (tcb_retire api s self) = listen self"
  by (simp_all add: tcb_retire_def split: option.split)

lemma clients_find:
  assumes "fd_inv (tcbTable self)" and "fd_find (tcbTable self) k = Some s"
  shows "\<exists>tcb. clients self k = Some tcb \<and> tcb_get (SlotRef s) self = Inr tcb"
  using fd.find_lookup [OF assms] by (auto simp: clients_def tcb_get_def)

lemma tcb_set_slot:
  assumes "fd_inv (tcbTable self)" and "fd_find (tcbTable self) k = Some s"
  shows "fd_inv (tcbTable (tcb_set (SlotRef s) tcb self)) \<and>
    clients (tcb_set (SlotRef s) tcb self) = (clients self)(k \<mapsto> tcb) \<and>
    listen (tcb_set (SlotRef s) tcb self) = listen self \<and>
    retired (tcb_set (SlotRef s) tcb self) = retired self"
  using fd.put_inv [OF assms] fd.put_lookup [OF assms] by (simp add: tcb_set_def clients_def)

lemma tcp_erase_spec:
  assumes "fd_inv (tcbTable self)"
  shows "fd_inv (tcbTable (tcp_erase api k self)) \<and>
    clients (tcp_erase api k self) = (clients self)(k := None) \<and>
    listen (tcp_erase api k self) = listen self"
  using fd.erase_inv [OF assms] fd.erase_lookup [OF assms]
  by (simp add: tcp_erase_def clients_def Let_def)

lemma tcp_erase_retired:
  assumes "fd_inv (tcbTable self)" and "clients self k = Some tcb"
  shows "retired (tcp_erase api k self) = tcb_destroy api tcb # retired self"
proof -
  obtain s where s: "fd_find (tcbTable self) k = Some s"
    using fd.find_None [OF assms(1), of k] assms(2) by (cases "fd_find (tcbTable self) k") (auto simp: clients_def)
  with fd.find_at [OF assms(1) s] assms(2) show ?thesis
    by (simp add: tcp_erase_def tcb_retire_def clients_def Let_def)
qed

text \<open>Adding a client that is not in the table, and working on its block through the result.\<close>

lemma tcp_emplace_spec:
  assumes "fd_inv (tcbTable self)" and "clients self k = None"
    and "tcp_emplace api k self = Inr (ret, self1)"
  shows "\<exists>s. ret = Some s \<and> fd_inv (tcbTable self1) \<and> fd_find (tcbTable self1) k = Some s \<and>
    clients self1 = (clients self)(k \<mapsto> tcb_new api k) \<and> listen self1 = listen self \<and>
    retired self1 = retired self \<and> tcb_get (SlotRef s) self1 = Inr (tcb_new api k)"
proof -
  have f: "fd_find (tcbTable self) k = None"
    using assms(2) fd.find_None [OF assms(1), of k] by (simp add: clients_def)
  from assms(3) f obtain tbl where e: "fd_emplace (tcbTable self) k (tcb_new api k) = Inr (ret, tbl)"
    and s1: "self1 = self\<lparr>tcbTable := tbl\<rparr>"
    by (auto simp: tcp_emplace_def fault_simps tcb_retire_def)
  then obtain s where "ret = Some s" using fd.emplace_null [OF assms(1)] by (cases ret) auto
  with e s1 fd.emplace_inv [OF assms(1)] fd.emplace_find [OF assms(1)] fd.emplace_lookup [OF assms(1)]
    fd.emplace_at [OF assms(1)]
  show ?thesis by (auto simp: clients_def tcb_get_def)
qed

lemma tcpImpl_new_simps [simp]:
  "fd_inv (tcbTable (tcpImpl_new api))" "clients (tcpImpl_new api) = Map.empty"
  "listen (tcpImpl_new api) = tcb_new api 8000" "retired (tcpImpl_new api) = []"
  using fd_new_inv [of MAX_TCP_CLIENT]
  by (simp_all add: tcpImpl_new_def clients_def MAX_TCP_CLIENT_def fun_eq_iff)

end
