(* ===== verification/TcpFsm.thy ===== *)
theory TcpFsm
  imports Tcb
begin

text \<open>
  The handlers of the TCP states (\<^verbatim>\<open>tcp/fsm/*.cc\<close>), the replies they send
  (\<^verbatim>\<open>tcp/tcp_tx.cc\<close>, whose bodies are still empty) and the two tables that dispatch to them
  (\<^verbatim>\<open>gl_tcpFsm\<close> of \<^verbatim>\<open>tcp/tcp_rx.cc\<close>, \<^verbatim>\<open>gl_tcpFsmTmr\<close> of \<^verbatim>\<open>tcp/tcp_plugin.cc\<close>).

  A handler gets a reference to a control block and works on the context of its thread. The packet
  is an argument that no handler looks at: it is left out here, and its reference count is the matter
  of the theory \<^verbatim>\<open>TcpRx\<close>.
\<close>

section \<open>Replies\<close>

definition sendSynAck :: "TcpSegmentHeader \<Rightarrow> 't TcpControlBlock \<Rightarrow> 't TcpControlBlock" where
  "sendSynAck header tcb = tcb"

definition sendFinAck :: "TcpSegmentHeader \<Rightarrow> 't TcpControlBlock \<Rightarrow> 't TcpControlBlock" where
  "sendFinAck header tcb = tcb"

text \<open>The sequence number is a 16-bit parameter.\<close>

definition sendFin :: "u16 \<Rightarrow> 't TcpControlBlock \<Rightarrow> 't TcpControlBlock" where
  "sendFin sq tcb = tcb"

lemmas send_defs = sendSynAck_def sendFinAck_def sendFin_def

section \<open>Packet handlers\<close>

type_synonym 't tcp_fsmCallback = "tcb_ref \<Rightarrow> TcpSegmentHeader \<Rightarrow> 't tcpImpl \<Rightarrow> fault + 't tcpImpl"
type_synonym 't tcp_fsmTmr = "tcb_ref \<Rightarrow> u8 \<Rightarrow> 't tcpImpl \<Rightarrow> fault + 't tcpImpl"

text \<open>The assertion a handler starts with.\<close>

definition in_state :: "tcp_state \<Rightarrow> tcb_ref \<Rightarrow> 't tcpImpl \<Rightarrow> fault + 't TcpControlBlock" where
  "in_state s r self =
     bindR (tcb_get r self) (\<lambda>tcb. bindR (assertR (tcb_state tcb = s)) (\<lambda>_. Inr tcb))"

text \<open>\<^verbatim>\<open>(header.evtmask & tcp_mask::ACK) and (header.seqno == tcb.expseq)\<close>\<close>

definition ack_expected :: "TcpSegmentHeader \<Rightarrow> 't TcpControlBlock \<Rightarrow> fault + bool" where
  "ack_expected header tcb =
     (if has_flag header tcp_ACK
      then bindR (useR (seqno header)) (\<lambda>s. bindR (useR (expseq tcb)) (\<lambda>e. Inr (s = e)))
      else Inr False)"

definition fsm_closed :: "'t tcp_fsmCallback" where
  "fsm_closed r header self = Inr self"

definition fsm_listen :: "'t timer_api \<Rightarrow> int \<Rightarrow> 't tcp_fsmCallback" where
  "fsm_listen api thr r header self =
     bindR (in_state TCP_STATE_LISTEN r self) (\<lambda>_.
       if has_flag header tcp_SYN then
         bindR (useR (sport header)) (\<lambda>sp.
           let clientId = makeClientId (saddr4 (ipHeader header)) sp in
           bindR (tcp_emplace api clientId self) (\<lambda>(ret, self1).
             case ret of
               None \<Rightarrow> Inr self1
             | Some s \<Rightarrow>
                 bindR (tcb_get (SlotRef s) self1) (\<lambda>connCb. bindR (useR (seqno header)) (\<lambda>sq.
                   let conn1 = sendSynAck header (connCb\<lparr>expseq := Some (sq + 1)\<rparr>);
                       (ok, conn2) = tcb_start api thr TCP_CONNECTION_TMR TCP_CONTROL_BLOCK_DEFAULT_MS conn1 in
                   if ok then Inr (tcb_set (SlotRef s) (changeState api thr TCP_STATE_SYN_SENT conn2) self1)
                   else Inr (tcp_erase api clientId (tcb_set (SlotRef s) conn2 self1))))))
       else Inr self)"

definition fsm_syn_sent :: "'t timer_api \<Rightarrow> int \<Rightarrow> 't tcp_fsmCallback" where
  "fsm_syn_sent api thr r header self =
     bindR (in_state TCP_STATE_SYN_SENT r self) (\<lambda>tcb. bindR (ack_expected header tcb) (\<lambda>ok.
       if ok then Inr (tcb_set r (changeState api thr TCP_STATE_ESTABLISHED (sendSynAck header tcb)) self)
       else Inr self))"

definition fsm_syn_rcvd :: "'t timer_api \<Rightarrow> int \<Rightarrow> 't tcp_fsmCallback" where
  "fsm_syn_rcvd api thr r header self =
     bindR (in_state TCP_STATE_SYN_RCVD r self) (\<lambda>tcb. bindR (ack_expected header tcb) (\<lambda>ok.
       if ok then
         let (started, tcb1) = tcb_start api thr TCP_INACTIVITY_TMR (TCP_CONTROL_BLOCK_DEFAULT_MS * 100)
               (sendSynAck header tcb) in
         if started then
           bindR (useR (seqno header)) (\<lambda>sq.
             Inr (tcb_set r (changeState api thr TCP_STATE_ESTABLISHED (tcb1\<lparr>expseq := Some sq\<rparr>)) self))
         else Inr (tcb_set r tcb1 self)
       else Inr self))"

definition fsm_established :: "'t timer_api \<Rightarrow> int \<Rightarrow> 't tcp_fsmCallback" where
  "fsm_established api thr r header self =
     bindR (in_state TCP_STATE_ESTABLISHED r self) (\<lambda>tcb.
       if has_flag header tcp_FIN then
         let (started, tcb1) = tcb_start api thr TCP_FINAL_TMR_1 TCP_CONTROL_BLOCK_DEFAULT_MS
               (sendFinAck header tcb) in
         if started then
           bindR (useR (seqno header)) (\<lambda>sq.
             Inr (tcb_set r (changeState api thr TCP_STATE_CLOSE_WAIT (tcb1\<lparr>expseq := Some sq\<rparr>)) self))
         else Inr (tcb_set r tcb1 self)
       else Inr self)"

definition fsm_close_wait :: "'t timer_api \<Rightarrow> int \<Rightarrow> 't tcp_fsmCallback" where
  "fsm_close_wait api thr r header self =
     bindR (in_state TCP_STATE_CLOSE_WAIT r self) (\<lambda>tcb. bindR (ack_expected header tcb) (\<lambda>ok.
       if ok then
         bindR (useR (expseq tcb)) (\<lambda>e.
           let tcb1 = sendFin (ucast (e + 1)) (tcb\<lparr>expseq := Some (e + 1)\<rparr>);
               (started, tcb2) = tcb_start api thr TCP_FINAL_TMR_2 TCP_CONTROL_BLOCK_DEFAULT_MS tcb1 in
           if started then Inr (tcb_set r (changeState api thr TCP_STATE_LAST_ACK tcb2) self)
           else Inr (tcp_erase api (tcb_clientId tcb2) (tcb_set r tcb2 self)))
       else Inr self))"

definition fsm_last_ack :: "'t timer_api \<Rightarrow> 't tcp_fsmCallback" where
  "fsm_last_ack api r header self =
     bindR (in_state TCP_STATE_LAST_ACK r self) (\<lambda>tcb. bindR (ack_expected header tcb) (\<lambda>ok.
       if ok then Inr (tcp_erase api (tcb_clientId tcb) self) else Inr self))"

definition fsm_fin_wait_1 :: "'t tcp_fsmCallback" where
  "fsm_fin_wait_1 r header self = bindR (in_state TCP_STATE_FIN_WAIT_1 r self) (\<lambda>_. Inr self)"

definition fsm_closing :: "'t tcp_fsmCallback" where
  "fsm_closing r header self = bindR (in_state TCP_STATE_CLOSING r self) (\<lambda>_. Inr self)"

definition fsm_fin_wait_2 :: "'t tcp_fsmCallback" where
  "fsm_fin_wait_2 r header self = bindR (in_state TCP_STATE_FIN_WAIT_2 r self) (\<lambda>_. Inr self)"

definition fsm_time_wait :: "'t tcp_fsmCallback" where
  "fsm_time_wait r header self = bindR (in_state TCP_STATE_TIME_WAIT r self) (\<lambda>_. Inr self)"

text \<open>The unspecialised template, used for \<^verbatim>\<open>TCP_STATE_EXCEPTION_HANG\<close>.\<close>

definition make_tcpFsmCallback :: "'t tcp_fsmCallback" where
  "make_tcpFsmCallback r header self = Inr self"

section \<open>Timer handlers\<close>

definition fsm_tmr_closed :: "'t tcp_fsmTmr" where
  "fsm_tmr_closed r tmrId self = bindR (in_state TCP_STATE_CLOSED r self) (\<lambda>_. Inr self)"

definition fsm_tmr_listen :: "'t tcp_fsmTmr" where
  "fsm_tmr_listen r tmrId self = bindR (in_state TCP_STATE_LISTEN r self) (\<lambda>_. Inr self)"

text \<open>These three only log what expired.\<close>

definition fsm_tmr_syn_sent :: "'t tcp_fsmTmr" where
  "fsm_tmr_syn_sent r tmrId self = bindR (in_state TCP_STATE_SYN_SENT r self) (\<lambda>_. Inr self)"

definition fsm_tmr_syn_rcvd :: "'t tcp_fsmTmr" where
  "fsm_tmr_syn_rcvd r tmrId self = bindR (in_state TCP_STATE_SYN_RCVD r self) (\<lambda>_. Inr self)"

definition fsm_tmr_established :: "'t tcp_fsmTmr" where
  "fsm_tmr_established r tmrId self = bindR (in_state TCP_STATE_ESTABLISHED r self) (\<lambda>_. Inr self)"

definition fsm_tmr_close_wait :: "'t timer_api \<Rightarrow> int \<Rightarrow> 't tcp_fsmTmr" where
  "fsm_tmr_close_wait api thr r tmrId self =
     bindR (in_state TCP_STATE_CLOSE_WAIT r self) (\<lambda>tcb.
       if unat tmrId = TCP_FINAL_TMR_1 then
         bindR (useR (expseq tcb)) (\<lambda>e.
           let tcb1 = (sendFin (ucast (e + 1)) tcb)\<lparr>expseq := Some (e + 1)\<rparr> in
           Inr (tcb_set r (changeState api thr TCP_STATE_LAST_ACK tcb1) self))
       else Inr self)"

definition fsm_tmr_last_ack :: "'t timer_api \<Rightarrow> 't tcp_fsmTmr" where
  "fsm_tmr_last_ack api r tmrId self =
     bindR (in_state TCP_STATE_LAST_ACK r self) (\<lambda>tcb.
       if unat tmrId = TCP_FINAL_TMR_2 then Inr (tcp_erase api (tcb_clientId tcb) self)
       else Inr self)"

definition fsm_tmr_fin_wait_1 :: "'t tcp_fsmTmr" where
  "fsm_tmr_fin_wait_1 r tmrId self = bindR (in_state TCP_STATE_FIN_WAIT_1 r self) (\<lambda>_. Inr self)"

definition fsm_tmr_closing :: "'t tcp_fsmTmr" where
  "fsm_tmr_closing r tmrId self = bindR (in_state TCP_STATE_CLOSING r self) (\<lambda>_. Inr self)"

definition fsm_tmr_fin_wait_2 :: "'t tcp_fsmTmr" where
  "fsm_tmr_fin_wait_2 r tmrId self = bindR (in_state TCP_STATE_FIN_WAIT_2 r self) (\<lambda>_. Inr self)"

definition fsm_tmr_time_wait :: "'t tcp_fsmTmr" where
  "fsm_tmr_time_wait r tmrId self = bindR (in_state TCP_STATE_TIME_WAIT r self) (\<lambda>_. Inr self)"

definition make_tcpFsmTmr :: "'t tcp_fsmTmr" where
  "make_tcpFsmTmr r tmrId self = Inr self"

section \<open>Dispatch\<close>

text \<open>
  The tables hold the handlers of the state files, as the code means them to. Strictly, these are
  explicit specialisations of \<^verbatim>\<open>make_tcpFsmCallback\<close> and \<^verbatim>\<open>make_tcpFsmTmr\<close> that no header declares,
  while \<^verbatim>\<open>tcp_rx.cc\<close> and \<^verbatim>\<open>tcp_plugin.cc\<close> instantiate the primary templates: C++ calls such a
  program ill-formed without asking for a diagnostic. With the usual linkers the specialisations,
  which are strong symbols, take the place of the weak instances, provided that the compiler
  did not inline the empty primary ones.
\<close>

definition gl_tcpFsm :: "'t timer_api \<Rightarrow> int \<Rightarrow> 't tcp_fsmCallback list" where
  "gl_tcpFsm api thr =
     [fsm_closed, fsm_listen api thr, fsm_syn_sent api thr, fsm_syn_rcvd api thr,
      fsm_established api thr, fsm_close_wait api thr, fsm_fin_wait_1, fsm_closing,
      fsm_last_ack api, fsm_fin_wait_2, fsm_time_wait, make_tcpFsmCallback]"

definition gl_tcpFsmTmr :: "'t timer_api \<Rightarrow> int \<Rightarrow> 't tcp_fsmTmr list" where
  "gl_tcpFsmTmr api thr =
     [fsm_tmr_closed, fsm_tmr_listen, fsm_tmr_syn_sent, fsm_tmr_syn_rcvd,
      fsm_tmr_established, fsm_tmr_close_wait api thr, fsm_tmr_fin_wait_1, fsm_tmr_closing,
      fsm_tmr_last_ack api, fsm_tmr_fin_wait_2, fsm_tmr_time_wait, make_tcpFsmTmr]"

text \<open>Indexing a table with a state.\<close>

definition fsm_rx :: "'t timer_api \<Rightarrow> int \<Rightarrow> tcp_state \<Rightarrow> 't tcp_fsmCallback" where
  "fsm_rx api thr st r header self =
     (if state_num st < length (gl_tcpFsm api thr)
      then (gl_tcpFsm api thr ! state_num st) r header self else Inl OutOfBounds)"

definition processTimer :: "'t timer_api \<Rightarrow> int \<Rightarrow> 't tcp_fsmTmr" where
  "processTimer api thr r evtId self =
     bindR (tcb_get r self) (\<lambda>tcb.
       if state_num (tcb_state tcb) < length (gl_tcpFsmTmr api thr)
       then (gl_tcpFsmTmr api thr ! state_num (tcb_state tcb)) r evtId self else Inl OutOfBounds)"

text \<open>
  The end of \<^verbatim>\<open>handleTcpRx\<close>, after the header was parsed: find the connection, and hand the
  segment to the handler of its state or of \<^verbatim>\<open>TCP_STATE_LISTEN\<close>. The flag tells whether the
  packet was handed on.
\<close>

definition tcp_deliver ::
  "'t timer_api \<Rightarrow> int \<Rightarrow> TcpSegmentHeader \<Rightarrow> 't tcpImpl \<Rightarrow> fault + (bool \<times> 't tcpImpl)" where
  "tcp_deliver api thr header self =
     bindR (useR (sport header)) (\<lambda>sp.
       let clientId = makeClientId (saddr4 (ipHeader header)) sp in
       case fd_find (tcbTable self) clientId of
         None \<Rightarrow>
           bindR (fsm_rx api thr TCP_STATE_LISTEN ListenRef header self) (\<lambda>self1. Inr (True, self1))
       | Some s \<Rightarrow>
           bindR (tcb_get (SlotRef s) self) (\<lambda>tgt.
             if TCP_STATE_MAX \<le> tcb_state tgt
             then Inr (False, tcb_set (SlotRef s) (changeState api thr TCP_STATE_EXCEPTION_HANG tgt) self)
             else
               bindR (fsm_rx api thr (tcb_state tgt) (SlotRef s) header self) (\<lambda>self1. Inr (True, self1))))"

text \<open>\<^verbatim>\<open>onTcpCbTimerExpire\<close>; an unknown client is only logged.\<close>

definition onTcpCbTimerExpire :: "'t timer_api \<Rightarrow> int \<Rightarrow> u64 \<Rightarrow> 't tcpImpl \<Rightarrow> fault + 't tcpImpl" where
  "onTcpCbTimerExpire api thr srcAddr self =
     (let tmrEvt = drop_bit 56 srcAddr;
          timerMask = push_bit 56 0xFF;
          clientId = NOT timerMask AND srcAddr in
      case fd_find (tcbTable self) clientId of
        None \<Rightarrow> Inr self
      | Some s \<Rightarrow> processTimer api thr (SlotRef s) (ucast (tmrEvt AND 0xFF)) self)"

end
