(* ===== verification/TcpServer.thy ===== *)
theory TcpServer
  imports TcpFsm
begin

text \<open>
  What the TCP server does to its clients. Each handler refines an operation on one control block
  (\<open>conn_rx\<close>, \<open>conn_tmr\<close>, \<open>conn_accept\<close>): the table maps the client to the block that
  operation returns, or no longer maps it, and nothing else changes. With a timer service that works
  as documented, these operations in turn implement a small state machine on pairs of a state and an
  expected sequence number (\<open>spec_packet\<close>, \<open>spec_timer\<close> of the theory
  \<^verbatim>\<open>TcpSpec\<close>). The proofs use the client table through the laws of its interface only.
\<close>

section \<open>Operations on one control block\<close>

definition conn_rx ::
  "'t timer_api \<Rightarrow> int \<Rightarrow> TcpSegmentHeader \<Rightarrow> 't TcpControlBlock \<Rightarrow> fault + 't TcpControlBlock option" where
  "conn_rx api thr h tcb =
     (case tcb_state tcb of
        TCP_STATE_SYN_SENT \<Rightarrow> bindR (ack_expected h tcb) (\<lambda>ok.
          Inr (Some (if ok then changeState api thr TCP_STATE_ESTABLISHED tcb else tcb)))
      | TCP_STATE_SYN_RCVD \<Rightarrow> bindR (ack_expected h tcb) (\<lambda>ok.
          let (started, tcb1) = tcb_start api thr TCP_INACTIVITY_TMR (TCP_CONTROL_BLOCK_DEFAULT_MS * 100) tcb in
          if \<not> ok then Inr (Some tcb)
          else if started then bindR (useR (seqno h)) (\<lambda>sq.
            Inr (Some (changeState api thr TCP_STATE_ESTABLISHED (tcb1\<lparr>expseq := Some sq\<rparr>))))
          else Inr (Some tcb1))
      | TCP_STATE_ESTABLISHED \<Rightarrow>
          let (started, tcb1) = tcb_start api thr TCP_FINAL_TMR_1 TCP_CONTROL_BLOCK_DEFAULT_MS tcb in
          if \<not> has_flag h tcp_FIN then Inr (Some tcb)
          else if started then bindR (useR (seqno h)) (\<lambda>sq.
            Inr (Some (changeState api thr TCP_STATE_CLOSE_WAIT (tcb1\<lparr>expseq := Some sq\<rparr>))))
          else Inr (Some tcb1)
      | TCP_STATE_CLOSE_WAIT \<Rightarrow> bindR (ack_expected h tcb) (\<lambda>ok.
          if ok then bindR (useR (expseq tcb)) (\<lambda>e.
            let (started, tcb1) = tcb_start api thr TCP_FINAL_TMR_2 TCP_CONTROL_BLOCK_DEFAULT_MS
                  (tcb\<lparr>expseq := Some (e + 1)\<rparr>) in
            Inr (if started then Some (changeState api thr TCP_STATE_LAST_ACK tcb1) else None))
          else Inr (Some tcb))
      | TCP_STATE_LAST_ACK \<Rightarrow> bindR (ack_expected h tcb) (\<lambda>ok. Inr (if ok then None else Some tcb))
      | TCP_STATE_LISTEN \<Rightarrow> Inl BadCall
      | TCP_STATE_MAX \<Rightarrow> Inl OutOfBounds
      | _ \<Rightarrow> Inr (Some tcb))"

definition conn_tmr ::
  "'t timer_api \<Rightarrow> int \<Rightarrow> u8 \<Rightarrow> 't TcpControlBlock \<Rightarrow> fault + 't TcpControlBlock option" where
  "conn_tmr api thr tmrId tcb =
     (case tcb_state tcb of
        TCP_STATE_CLOSE_WAIT \<Rightarrow>
          if unat tmrId = TCP_FINAL_TMR_1 then bindR (useR (expseq tcb)) (\<lambda>e.
            Inr (Some (changeState api thr TCP_STATE_LAST_ACK (tcb\<lparr>expseq := Some (e + 1)\<rparr>))))
          else Inr (Some tcb)
      | TCP_STATE_LAST_ACK \<Rightarrow> Inr (if unat tmrId = TCP_FINAL_TMR_2 then None else Some tcb)
      | TCP_STATE_MAX \<Rightarrow> Inl OutOfBounds
      | _ \<Rightarrow> Inr (Some tcb))"

definition conn_accept ::
  "'t timer_api \<Rightarrow> int \<Rightarrow> u64 \<Rightarrow> u32 \<Rightarrow> 't TcpControlBlock option" where
  "conn_accept api thr k sq =
     (let (started, tcb1) = tcb_start api thr TCP_CONNECTION_TMR TCP_CONTROL_BLOCK_DEFAULT_MS
            ((tcb_new api k)\<lparr>expseq := Some (sq + 1)\<rparr>) in
      if started then Some (changeState api thr TCP_STATE_SYN_SENT tcb1) else None)"

section \<open>Refinement\<close>

text \<open>
  The result \<open>res\<close> of a handler run on the context \<open>self\<close> does to client \<open>k\<close> what \<open>c\<close> says,
  faults included, and nothing to the others; of control blocks it destroys that of \<open>k\<close> when the
  client is removed, and no other.
\<close>

definition destroys ::
  "'t timer_api \<Rightarrow> 't tcpImpl \<Rightarrow> u64 \<Rightarrow> 't TcpControlBlock option \<Rightarrow> 't tcpImpl \<Rightarrow> bool" where
  "destroys api self k t self' \<longleftrightarrow>
     (\<exists>bs. retired self' = map (tcb_destroy api) bs @ retired self \<and>
        list_all (\<lambda>b. tcb_clientId b = k \<and> length (tmrs (tmr b)) = TCP_MAX_TMR) bs \<and>
        (t \<noteq> None \<longrightarrow> bs = []) \<and> (t = None \<and> clients self k \<noteq> None \<longrightarrow> length bs = 1))"

definition refines_at ::
  "'t timer_api \<Rightarrow> 't tcpImpl \<Rightarrow> u64 \<Rightarrow> fault + 't TcpControlBlock option \<Rightarrow> fault + 't tcpImpl \<Rightarrow> bool" where
  "refines_at api self k c res =
     (case c of
        Inl f \<Rightarrow> res = Inl f
      | Inr t \<Rightarrow> (\<exists>self'. res = Inr self' \<and> fd_inv (tcbTable self') \<and>
          clients self' = (clients self)(k := t) \<and> listen self' = listen self \<and>
          destroys api self k t self'))"

text \<open>The table holds \<open>tcb\<close> for client \<open>k\<close> in slot \<open>s\<close>.\<close>

definition holds :: "'t tcpImpl \<Rightarrow> u64 \<Rightarrow> nat \<Rightarrow> 't TcpControlBlock \<Rightarrow> bool" where
  "holds self k s tcb \<longleftrightarrow> fd_inv (tcbTable self) \<and> fd_find (tcbTable self) k = Some s \<and>
     clients self k = Some tcb \<and> tcb_clientId tcb = k \<and> length (tmrs (tmr tcb)) = TCP_MAX_TMR"

named_theorems refine_intros \<open>refinement of the handlers' results\<close>

lemma refines_fault [refine_intros]: "refines_at api self k (Inl f) (Inl f)"
  by (simp add: refines_at_def)

lemma destroys_nothing [simp]: "clients self k = None \<or> t \<noteq> None \<Longrightarrow> retired self' = retired self \<Longrightarrow> destroys api self k t self'"
  by (auto simp: destroys_def)

lemma erase_destroys:
  assumes "fd_inv (tcbTable self1)" and "clients self1 k = Some tcb" and "tcb_clientId tcb = k"
    and "length (tmrs (tmr tcb)) = TCP_MAX_TMR" and "retired self1 = retired self"
  shows "destroys api self k None (tcp_erase api k self1)"
  unfolding destroys_def tcp_erase_retired [OF assms(1,2)]
  using assms(3-5) by (intro exI [of _ "[tcb]"]) simp

lemma refines_same [refine_intros]:
  "holds self k s tcb \<Longrightarrow> refines_at api self k (Inr (Some tcb)) (Inr self)"
  by (simp add: refines_at_def holds_def fun_upd_idem)

lemma refines_put [refine_intros]:
  "holds self k s tcb \<Longrightarrow> refines_at api self k (Inr (Some t)) (Inr (tcb_set (SlotRef s) t self))"
  using tcb_set_slot [of self k s t] by (auto simp: refines_at_def holds_def)

lemma refines_erase [refine_intros]:
  "holds self k s tcb \<Longrightarrow> refines_at api self k (Inr None) (Inr (tcp_erase api k self))"
  using tcp_erase_spec [of self api k] erase_destroys [of self k tcb self api] by (simp add: refines_at_def holds_def)

lemma refines_put_erase [refine_intros]:
  "holds self k s tcb \<Longrightarrow> tcb_clientId t = k \<Longrightarrow> length (tmrs (tmr t)) = TCP_MAX_TMR \<Longrightarrow>
     refines_at api self k (Inr None) (Inr (tcp_erase api k (tcb_set (SlotRef s) t self)))"
  using tcb_set_slot [of self k s t] tcp_erase_spec [of "tcb_set (SlotRef s) t self" api k]
    erase_destroys [of "tcb_set (SlotRef s) t self" k t self api]
  by (simp add: refines_at_def holds_def)

lemma refines_bind [refine_intros]:
  "(\<And>a. r = Inr a \<Longrightarrow> refines_at api self k (f a) (g a)) \<Longrightarrow> refines_at api self k (bindR r f) (bindR r g)"
  by (cases r) (auto simp: refines_at_def)

lemma in_state_holds: "holds self k s tcb \<Longrightarrow>
    in_state st (SlotRef s) self = (if tcb_state tcb = st then Inr tcb else Inl AssertFailed)"
  using clients_find [of self k s] by (auto simp: holds_def in_state_def)

lemma tcb_get_holds: "holds self k s tcb \<Longrightarrow> tcb_get (SlotRef s) self = Inr tcb"
  using clients_find [of self k s] by (auto simp: holds_def)

lemma holds_id: "holds self k s tcb \<Longrightarrow> tcb_clientId tcb = k \<and> length (tmrs (tmr tcb)) = TCP_MAX_TMR"
  by (simp add: holds_def)

lemma tables_length [simp]: "length (gl_tcpFsm api thr) = 12" "length (gl_tcpFsmTmr api thr) = 12"
  by (simp_all add: gl_tcpFsm_def gl_tcpFsmTmr_def)

text \<open>Every state but \<^verbatim>\<open>TCP_STATE_MAX\<close> is dispatched to its own handler.\<close>

lemma fsm_rx_state:
  "fsm_rx api thr TCP_STATE_CLOSED = fsm_closed"
  "fsm_rx api thr TCP_STATE_LISTEN = fsm_listen api thr"
  "fsm_rx api thr TCP_STATE_SYN_SENT = fsm_syn_sent api thr"
  "fsm_rx api thr TCP_STATE_SYN_RCVD = fsm_syn_rcvd api thr"
  "fsm_rx api thr TCP_STATE_ESTABLISHED = fsm_established api thr"
  "fsm_rx api thr TCP_STATE_CLOSE_WAIT = fsm_close_wait api thr"
  "fsm_rx api thr TCP_STATE_FIN_WAIT_1 = fsm_fin_wait_1"
  "fsm_rx api thr TCP_STATE_CLOSING = fsm_closing"
  "fsm_rx api thr TCP_STATE_LAST_ACK = fsm_last_ack api"
  "fsm_rx api thr TCP_STATE_FIN_WAIT_2 = fsm_fin_wait_2"
  "fsm_rx api thr TCP_STATE_TIME_WAIT = fsm_time_wait"
  "fsm_rx api thr TCP_STATE_EXCEPTION_HANG = make_tcpFsmCallback"
  "fsm_rx api thr TCP_STATE_MAX r header self = Inl OutOfBounds"
  by (simp_all add: fsm_rx_def fun_eq_iff) (simp_all add: gl_tcpFsm_def)

lemma processTimer_holds:
  assumes "holds self k s tcb"
  shows "processTimer api thr (SlotRef s) evtId self =
    (if tcb_state tcb = TCP_STATE_MAX then Inl OutOfBounds
     else (gl_tcpFsmTmr api thr ! state_num (tcb_state tcb)) (SlotRef s) evtId self)"
  using tcb_get_holds [OF assms] by (auto simp: processTimer_def state_num_bound [symmetric])

text \<open>The handlers of clients in the table.\<close>

lemma fsm_syn_sent_refines:
  assumes "holds self k s tcb" and "tcb_state tcb = TCP_STATE_SYN_SENT"
  shows "refines_at api self k (conn_rx api thr h tcb) (fsm_syn_sent api thr (SlotRef s) h self)"
  using assms
  by (auto simp: conn_rx_def fsm_syn_sent_def in_state_holds send_defs intro!: refine_intros)

lemma fsm_syn_rcvd_refines:
  assumes "holds self k s tcb" and "tcb_state tcb = TCP_STATE_SYN_RCVD"
  shows "refines_at api self k (conn_rx api thr h tcb) (fsm_syn_rcvd api thr (SlotRef s) h self)"
  using assms
  by (auto simp: conn_rx_def fsm_syn_rcvd_def in_state_holds send_defs split_beta Let_def intro!: refine_intros)

lemma fsm_established_refines:
  assumes "holds self k s tcb" and "tcb_state tcb = TCP_STATE_ESTABLISHED"
  shows "refines_at api self k (conn_rx api thr h tcb) (fsm_established api thr (SlotRef s) h self)"
  using assms
  by (auto simp: conn_rx_def fsm_established_def in_state_holds send_defs split_beta Let_def intro!: refine_intros)

lemma fsm_close_wait_refines:
  assumes "holds self k s tcb" and "tcb_state tcb = TCP_STATE_CLOSE_WAIT"
  shows "refines_at api self k (conn_rx api thr h tcb) (fsm_close_wait api thr (SlotRef s) h self)"
  using assms
  by (auto simp: conn_rx_def fsm_close_wait_def in_state_holds holds_id send_defs split_beta Let_def intro!: refine_intros)

lemma fsm_last_ack_refines:
  assumes "holds self k s tcb" and "tcb_state tcb = TCP_STATE_LAST_ACK"
  shows "refines_at api self k (conn_rx api thr h tcb) (fsm_last_ack api (SlotRef s) h self)"
  using assms
  by (auto simp: conn_rx_def fsm_last_ack_def in_state_holds holds_id intro!: refine_intros)

lemmas quiet_handler_defs = fsm_closed_def fsm_fin_wait_1_def fsm_closing_def fsm_fin_wait_2_def
  fsm_time_wait_def make_tcpFsmCallback_def

lemmas quiet_timer_defs = fsm_tmr_closed_def fsm_tmr_listen_def fsm_tmr_syn_sent_def
  fsm_tmr_syn_rcvd_def fsm_tmr_established_def fsm_tmr_fin_wait_1_def fsm_tmr_closing_def
  fsm_tmr_fin_wait_2_def fsm_tmr_time_wait_def make_tcpFsmTmr_def

lemmas rx_refines = fsm_syn_sent_refines fsm_syn_rcvd_refines fsm_established_refines
  fsm_close_wait_refines fsm_last_ack_refines

lemma fsm_rx_refines:
  assumes "holds self k s tcb" and "tcb_state tcb \<noteq> TCP_STATE_LISTEN"
  shows "refines_at api self k (conn_rx api thr h tcb) (fsm_rx api thr (tcb_state tcb) (SlotRef s) h self)"
  using assms
  by (cases "tcb_state tcb")
    (simp_all add: fsm_rx_state rx_refines,
      auto simp: conn_rx_def quiet_handler_defs fsm_rx_state in_state_holds intro!: refine_intros)

lemma fsm_tmr_refines:
  assumes "holds self k s tcb"
  shows "refines_at api self k (conn_tmr api thr evtId tcb) (processTimer api thr (SlotRef s) evtId self)"
  unfolding processTimer_holds [OF assms] using assms
  by (cases "tcb_state tcb")
    (auto simp: gl_tcpFsmTmr_def conn_tmr_def quiet_timer_defs fsm_tmr_close_wait_def
      fsm_tmr_last_ack_def in_state_holds holds_id send_defs Let_def intro!: refine_intros)

section \<open>Accepting a connection\<close>

text \<open>What the listening handler does to a client that is not in the table.\<close>

definition accept_result ::
  "'t timer_api \<Rightarrow> int \<Rightarrow> TcpSegmentHeader \<Rightarrow> u64 \<Rightarrow> 't tcpImpl \<Rightarrow> fault + 't TcpControlBlock option" where
  "accept_result api thr h k self =
     (if tcb_state (listen self) \<noteq> TCP_STATE_LISTEN then Inl AssertFailed
      else if \<not> has_flag h tcp_SYN then Inr None
      else bindR (tcp_emplace api k self) (\<lambda>_. bindR (useR (seqno h)) (\<lambda>sq. Inr (conn_accept api thr k sq))))"

lemma tcb_new_expseq_simps [simp]:
  "tcb_clientId ((tcb_new api k)\<lparr>expseq := e\<rparr>) = k"
  "tcb_state ((tcb_new api k)\<lparr>expseq := e\<rparr>) = TCP_STATE_CLOSED"
  "tm_srcAddr (tmr ((tcb_new api k)\<lparr>expseq := e\<rparr>)) = k"
  "length (tmrs (tmr ((tcb_new api k)\<lparr>expseq := e\<rparr>))) = TCP_MAX_TMR"
  by simp_all

lemma refines_trans:
  assumes "refines_at api self1 k (Inr c) res" and "clients self1 = (clients self)(k := t)"
    and "listen self1 = listen self" and "retired self1 = retired self" and "clients self k = None"
  shows "refines_at api self k (Inr c) res"
  using assms by (auto simp: refines_at_def destroys_def)

lemma fsm_listen_refines:
  assumes inv: "fd_inv (tcbTable self)" and new: "clients self k = None"
    and sp: "sport h = Some sp" and k: "k = makeClientId (saddr4 (ipHeader h)) sp"
  shows "refines_at api self k (accept_result api thr h k self) (fsm_listen api thr ListenRef h self)"
proof (cases "tcb_state (listen self) = TCP_STATE_LISTEN \<and> has_flag h tcp_SYN")
  case False
  with inv new show ?thesis
    by (auto simp: accept_result_def fsm_listen_def in_state_def tcb_get_def refines_at_def fun_upd_idem)
next
  case True
  show ?thesis
  proof (cases "tcp_emplace api k self")
    case (Inl f)
    with True sp k show ?thesis
      by (simp add: accept_result_def fsm_listen_def in_state_def tcb_get_def refines_at_def Let_def)
  next
    case (Inr p)
    obtain ret self1 where p: "p = (ret, self1)" by (cases p)
    obtain s where s: "ret = Some s" "fd_inv (tcbTable self1)" "fd_find (tcbTable self1) k = Some s"
      "clients self1 = (clients self)(k \<mapsto> tcb_new api k)" "listen self1 = listen self"
      "retired self1 = retired self"
      "tcb_get (SlotRef s) self1 = Inr (tcb_new api k)"
      using tcp_emplace_spec [OF inv new Inr [unfolded p]] by auto
    have h: "holds self1 k s (tcb_new api k)" using s by (simp add: holds_def)
    show ?thesis
    proof (cases "seqno h")
      case None
      with True Inr p s sp k show ?thesis
        by (simp add: accept_result_def fsm_listen_def in_state_def tcb_get_def refines_at_def Let_def)
    next
      case (Some sq)
      have "refines_at api self1 k (Inr (conn_accept api thr k sq)) (fsm_listen api thr ListenRef h self)"
        using True Inr p s sp k Some h
        by (auto simp: fsm_listen_def in_state_def tcb_get_def [of ListenRef] conn_accept_def send_defs
            split_beta Let_def intro: refine_intros)
      from refines_trans [OF this s(4,5,6) new] show ?thesis
        using True Inr p Some by (simp add: accept_result_def)
    qed
  qed
qed

section \<open>Delivery of a segment and of a timer\<close>

lemma find_cases:
  assumes "fd_inv (tcbTable self)"
  obtains "fd_find (tcbTable self) k = None" "clients self k = None"
  | s tcb where "fd_find (tcbTable self) k = Some s" "clients self k = Some tcb" "tcb_get (SlotRef s) self = Inr tcb"
proof (cases "fd_find (tcbTable self) k")
  case None
  with fd.find_None [OF assms, of k] that(1) show ?thesis by (simp add: clients_def)
next
  case (Some s)
  with clients_find [OF assms] that(2) show ?thesis by blast
qed

text \<open>Timer tags: the event is in the top byte, the client in the others.\<close>

lemma tag_word:
  fixes k :: u64
  assumes "unat k < 2 ^ 56"
  shows "NOT (push_bit 56 0xFF) AND mtimer_tag ev k = k"
    and "(drop_bit 56 (mtimer_tag ev k) AND 0xFF :: u64) = ucast (ev AND 0xFF)"
proof -
  have hi: "\<not> bit k n" if "56 \<le> n" for n
  proof
    assume "bit k n"
    then have "bit (unat k) n" by (simp add: bit_unsigned_iff)
    then have "2 ^ n \<le> unat k" by (metis bit_iff_odd div_less even_zero not_le)
    then show False using assms power_increasing [OF that, of "2 :: nat"] by linarith
  qed
  define m :: u64 where "m = 0xFF"
  define m32 :: u32 where "m32 = 0xFF"
  have ff: "bit m n \<longleftrightarrow> n < 8" "bit m32 n \<longleftrightarrow> n < 8" for n
    using bit_mask_iff [of 8 n, where 'a = u64] bit_mask_iff [of 8 n, where 'a = u32]
    by (auto simp: mask_eq_exp_minus_1 m_def m32_def dest: bit_imp_le_length)
  have tag: "mtimer_tag ev k = k OR push_bit 56 (ucast (m32 AND ev))"
    by (simp add: mtimer_tag_def m32_def)
  have "NOT (push_bit 56 m) AND mtimer_tag ev k = k" unfolding tag
    by (rule bit_word_eqI)
      (use hi in \<open>auto simp: bit_simps ff not_le dest: bit_imp_le_length\<close>)
  then show "NOT (push_bit 56 0xFF) AND mtimer_tag ev k = k" unfolding m_def .
  have "drop_bit 56 (mtimer_tag ev k) AND m = ucast (ev AND m32)" unfolding tag
    by (rule bit_word_eqI)
      (use hi in \<open>auto simp: bit_simps ff dest: bit_imp_le_length\<close>)
  then show "(drop_bit 56 (mtimer_tag ev k) AND 0xFF :: u64) = ucast (ev AND 0xFF)"
    unfolding m_def m32_def .
qed

section \<open>Events of the server\<close>

text \<open>A parsed segment, or the expiry of a timer with its tag.\<close>

datatype tcp_event = EvRx TcpSegmentHeader | EvTimer u64

fun tcp_step :: "'t timer_api \<Rightarrow> int \<Rightarrow> 't tcpImpl \<Rightarrow> tcp_event \<Rightarrow> fault + 't tcpImpl" where
  "tcp_step api thr self (EvRx h) = bindR (tcp_deliver api thr h self) (\<lambda>(_, self'). Inr self')"
| "tcp_step api thr self (EvTimer srcAddr) = onTcpCbTimerExpire api thr srcAddr self"

text \<open>The client an event is about, and what it does to its control block.\<close>

fun event_key :: "tcp_event \<Rightarrow> u64 option" where
  "event_key (EvRx h) = map_option (makeClientId (saddr4 (ipHeader h))) (sport h)"
| "event_key (EvTimer srcAddr) = Some (NOT (push_bit 56 0xFF) AND srcAddr)"

fun conn_step ::
  "'t timer_api \<Rightarrow> int \<Rightarrow> 't tcpImpl \<Rightarrow> u64 \<Rightarrow> tcp_event \<Rightarrow> fault + 't TcpControlBlock option" where
  "conn_step api thr self k (EvRx h) =
     (case clients self k of
        None \<Rightarrow> accept_result api thr h k self
      | Some tcb \<Rightarrow> conn_rx api thr h tcb)"
| "conn_step api thr self k (EvTimer srcAddr) =
     (case clients self k of
        None \<Rightarrow> Inr None
      | Some tcb \<Rightarrow> conn_tmr api thr (ucast (drop_bit 56 srcAddr AND 0xFF)) tcb)"

section \<open>The invariant of a context\<close>

definition conn_ok :: "u64 \<Rightarrow> 't TcpControlBlock \<Rightarrow> bool" where
  "conn_ok k tcb \<longleftrightarrow>
     tcb_clientId tcb = k \<and> tm_srcAddr (tmr tcb) = k \<and> unat k < 2 ^ 48 \<and>
     length (tmrs (tmr tcb)) = TCP_MAX_TMR \<and> expseq tcb \<noteq> None \<and>
     tcb_state tcb \<in> {TCP_STATE_SYN_SENT, TCP_STATE_ESTABLISHED, TCP_STATE_CLOSE_WAIT, TCP_STATE_LAST_ACK}"

definition tcp_inv :: "'t tcpImpl \<Rightarrow> bool" where
  "tcp_inv self \<longleftrightarrow>
     fd_inv (tcbTable self) \<and> list_all (\<lambda>(k, tcb). conn_ok k tcb) (fd_entries (tcbTable self))"

lemma tcp_inv_clients:
  "tcp_inv self \<longleftrightarrow>
     fd_inv (tcbTable self) \<and> (\<forall>k tcb. clients self k = Some tcb \<longrightarrow> conn_ok k tcb)"
proof -
  have "list_all (\<lambda>(k, tcb). conn_ok k tcb) (fd_entries (tcbTable self)) \<longleftrightarrow>
      (\<forall>k tcb. clients self k = Some tcb \<longrightarrow> conn_ok k tcb)" if "fd_inv (tcbTable self)"
    using that by (auto simp: list_all_iff clients_def fd_lookup_def fd_inv_def
        map_of_eq_Some_iff)
  then show ?thesis by (auto simp: tcp_inv_def)
qed

lemma tcp_inv_new: "tcp_inv (tcpImpl_new api)"
  by (simp add: tcp_inv_clients)

lemma tcp_inv_holds:
  assumes "tcp_inv self" and "fd_find (tcbTable self) k = Some s" and "clients self k = Some tcb"
  shows "holds self k s tcb" and "conn_ok k tcb"
proof -
  show ok: "conn_ok k tcb" using assms(1,3) by (simp add: tcp_inv_clients)
  then have "tcb_clientId tcb = k" "length (tmrs (tmr tcb)) = TCP_MAX_TMR" by (simp_all add: conn_ok_def)
  with assms show "holds self k s tcb" by (simp add: holds_def tcp_inv_clients)
qed

lemma conn_ok_state: "conn_ok k tcb \<Longrightarrow> tcb_state tcb \<noteq> TCP_STATE_LISTEN \<and> tcb_state tcb \<noteq> TCP_STATE_MAX"
  by (auto simp: conn_ok_def)

text \<open>Every event refines its operation on the control block of its client.\<close>

lemma tcp_step_refines:
  assumes inv: "tcp_inv self" and key: "event_key ev = Some k"
  shows "refines_at api self k (conn_step api thr self k ev) (tcp_step api thr self ev)"
proof (cases ev)
  case (EvRx h)
  with key obtain sp where sp: "sport h = Some sp" and k: "k = makeClientId (saddr4 (ipHeader h)) sp"
    by auto
  have fi: "fd_inv (tcbTable self)" using inv by (simp add: tcp_inv_def)
  show ?thesis
  proof (cases rule: find_cases [OF fi, of k])
    case 1
    have "tcp_step api thr self ev = fsm_listen api thr ListenRef h self"
      using EvRx sp k 1(1) by (simp add: tcp_deliver_def Let_def fsm_rx_state bindR_def split: sum.split)
    then show ?thesis using fsm_listen_refines [OF fi 1(2) sp k] EvRx 1(2) by simp
  next
    case (2 s tcb)
    note h = tcp_inv_holds [OF inv 2(1,2)]
    have "tcp_step api thr self ev = fsm_rx api thr (tcb_state tcb) (SlotRef s) h self"
      using EvRx sp k 2 conn_ok_state [OF h(2)]
      by (simp add: tcp_deliver_def Let_def state_ge_MAX bindR_def split: sum.split)
    then show ?thesis using fsm_rx_refines [OF h(1)] conn_ok_state [OF h(2)] EvRx 2(2) by simp
  qed
next
  case (EvTimer a)
  have fi: "fd_inv (tcbTable self)" using inv by (simp add: tcp_inv_def)
  have k: "k = NOT (push_bit 56 0xFF) AND a" using key EvTimer by simp
  show ?thesis
  proof (cases rule: find_cases [OF fi, of k])
    case 1
    with EvTimer k fi show ?thesis
      by (simp add: onTcpCbTimerExpire_def Let_def refines_at_def fun_upd_idem)
  next
    case (2 s tcb)
    note h = tcp_inv_holds [OF inv 2(1,2)]
    show ?thesis using fsm_tmr_refines [OF h(1)] EvTimer k 2
      by (simp add: onTcpCbTimerExpire_def Let_def)
  qed
qed

lemma event_key_None: "event_key ev = None \<Longrightarrow> tcp_step api thr self ev = Inl Uninitialised"
  by (cases ev) (auto simp: tcp_deliver_def)

section \<open>Preservation of the invariant\<close>

lemma conn_rx_ok:
  assumes "conn_ok k tcb" and "conn_rx api thr h tcb = Inr (Some t)"
  shows "conn_ok k t"
  using assms
  by (auto simp: conn_rx_def conn_ok_def fault_simps split_beta Let_def split: if_splits)

lemma conn_tmr_ok:
  assumes "conn_ok k tcb" and "conn_tmr api thr i tcb = Inr (Some t)"
  shows "conn_ok k t"
  using assms by (auto simp: conn_tmr_def conn_ok_def fault_simps split: if_splits)

lemma conn_accept_ok:
  assumes "unat k < 2 ^ 48" and "conn_accept api thr k sq = Some t"
  shows "conn_ok k t \<and> tcb_state t = TCP_STATE_SYN_SENT \<and> expseq t = Some (sq + 1)"
  using assms by (auto simp: conn_accept_def conn_ok_def split_beta split: if_splits)

lemma client_id_bound: "unat (makeClientId ip port) < 2 ^ 48"
  using unsigned_less [of ip, where 'a = nat] unsigned_less [of port, where 'a = nat]
  unfolding unat_makeClientId by simp

lemma conn_step_ok:
  assumes inv: "tcp_inv self" and key: "event_key ev = Some k"
    and step: "conn_step api thr self k ev = Inr (Some t)"
  shows "conn_ok k t"
proof (cases "clients self k")
  case None
  with key step obtain ip port sq where "k = makeClientId ip port" "conn_accept api thr k sq = Some t"
    by (cases ev) (auto simp: accept_result_def fault_simps split: if_splits)
  with conn_accept_ok [of k api thr sq t] client_id_bound show ?thesis by blast
next
  case (Some tcb)
  then have "conn_ok k tcb" using inv by (simp add: tcp_inv_clients)
  with Some step conn_rx_ok conn_tmr_ok show ?thesis by (cases ev) auto
qed

lemma tcp_step_inv:
  assumes inv: "tcp_inv self" and step: "tcp_step api thr self ev = Inr self'"
  shows "\<exists>k t. event_key ev = Some k \<and> conn_step api thr self k ev = Inr t \<and> tcp_inv self' \<and>
    clients self' = (clients self)(k := t) \<and> listen self' = listen self \<and>
    destroys api self k t self'"
proof (cases "event_key ev")
  case None
  with step event_key_None [OF None, of api thr self] show ?thesis by simp
next
  case (Some k)
  from tcp_step_refines [OF inv Some, of api thr] step
  obtain t where t: "conn_step api thr self k ev = Inr t" "fd_inv (tcbTable self')"
    "clients self' = (clients self)(k := t)" "listen self' = listen self"
    "destroys api self k t self'"
    by (auto simp: refines_at_def split: sum.splits)
  have "conn_ok k' tcb" if "clients self' k' = Some tcb" for k' tcb
    using that t(1,3) conn_step_ok [OF inv Some, of api thr] inv
    by (auto simp: tcp_inv_clients split: if_splits)
  with t Some show ?thesis by (auto simp: tcp_inv_clients)
qed

interpretation tcp_run: kept_invariant "tcp_step api thr" tcp_inv for api :: "'t timer_api" and thr
  by unfold_locales (blast dest: tcp_step_inv)

end
