(* ===== verification/TcpSpec.thy ===== *)
theory TcpSpec
  imports TcpServer
begin

text \<open>
  The specification of the TCP server and its properties. A connection is a pair of a state and the
  expected sequence number; the server is a map from client ids to connections. \<open>spec_packet\<close> and
  \<open>spec_timer\<close> say what a segment and a timer do to a connection when the timer service works as
  documented; \<open>tcp_edge\<close> are the transitions that are possible with any timer service.
\<close>

section \<open>Specification\<close>

type_synonym conn = "tcp_state \<times> u32"

definition conn_of :: "'t TcpControlBlock \<Rightarrow> conn" where
  "conn_of tcb = (tcb_state tcb, the (expseq tcb))"

definition conns :: "'t tcpImpl \<Rightarrow> u64 \<Rightarrow> conn option" where
  "conns self k = map_option conn_of (clients self k)"

fun spec_packet :: "bool \<Rightarrow> bool \<Rightarrow> bool \<Rightarrow> u32 \<Rightarrow> conn option \<Rightarrow> conn option" where
  "spec_packet syn ack fin sq None = (if syn then Some (TCP_STATE_SYN_SENT, sq + 1) else None)"
| "spec_packet syn ack fin sq (Some (st, e)) =
     (if st = TCP_STATE_SYN_SENT \<and> ack \<and> sq = e then Some (TCP_STATE_ESTABLISHED, e)
      else if st = TCP_STATE_ESTABLISHED \<and> fin then Some (TCP_STATE_CLOSE_WAIT, sq)
      else if st = TCP_STATE_CLOSE_WAIT \<and> ack \<and> sq = e then Some (TCP_STATE_LAST_ACK, e + 1)
      else if st = TCP_STATE_LAST_ACK \<and> ack \<and> sq = e then None
      else Some (st, e))"

fun spec_timer :: "nat \<Rightarrow> conn option \<Rightarrow> conn option" where
  "spec_timer i None = None"
| "spec_timer i (Some (st, e)) =
     (if st = TCP_STATE_CLOSE_WAIT \<and> i = TCP_FINAL_TMR_1 then Some (TCP_STATE_LAST_ACK, e + 1)
      else if st = TCP_STATE_LAST_ACK \<and> i = TCP_FINAL_TMR_2 then None
      else Some (st, e))"

text \<open>The transitions of one client.\<close>

inductive tcp_edge :: "conn option \<Rightarrow> conn option \<Rightarrow> bool" where
  same: "tcp_edge c c"
| accept: "tcp_edge None (Some (TCP_STATE_SYN_SENT, e))"
| ack: "tcp_edge (Some (TCP_STATE_SYN_SENT, e)) (Some (TCP_STATE_ESTABLISHED, e))"
| fin: "tcp_edge (Some (TCP_STATE_ESTABLISHED, e)) (Some (TCP_STATE_CLOSE_WAIT, e'))"
| fin_ack: "tcp_edge (Some (TCP_STATE_CLOSE_WAIT, e)) (Some (TCP_STATE_LAST_ACK, e + 1))"
| abort: "tcp_edge (Some (TCP_STATE_CLOSE_WAIT, e)) None"
| close: "tcp_edge (Some (TCP_STATE_LAST_ACK, e)) None"

inductive_cases tcp_edge_noneE: "tcp_edge None c"
inductive_simps tcp_edge_established: "tcp_edge (Some (TCP_STATE_ESTABLISHED, e)) c"

section \<open>Operations against the specification\<close>

lemma default_ticks [simp]:
  "mtimer_ticks TCP_CONTROL_BLOCK_DEFAULT_MS \<noteq> 0"
  "mtimer_ticks (TCP_CONTROL_BLOCK_DEFAULT_MS * 100) \<noteq> 0"
  by (simp_all add: TCP_CONTROL_BLOCK_DEFAULT_MS_def)

lemma ack_expected_known:
  assumes "seqno h = Some sq" and "expseq tcb = Some e"
  shows "ack_expected h tcb = Inr (has_flag h tcp_ACK \<and> sq = e)"
  using assms by (simp add: ack_expected_def)

lemma conn_rx_spec:
  assumes "conn_ok k tcb" and "timer_documented api" and "seqno h = Some sq"
  shows "\<exists>t. conn_rx api thr h tcb = Inr t \<and>
    map_option conn_of t =
      spec_packet (has_flag h tcp_SYN) (has_flag h tcp_ACK) (has_flag h tcp_FIN) sq (Some (conn_of tcb))"
proof -
  obtain e where e: "expseq tcb = Some e" using assms(1) by (auto simp: conn_ok_def)
  note a = ack_expected_known [OF assms(3) e]
  have s: "fst (tcb_start api thr i TCP_CONTROL_BLOCK_DEFAULT_MS tcb')" for i tcb'
    by (rule tcb_start_ok [OF assms(2)]) simp
  from assms(1) consider "tcb_state tcb = TCP_STATE_SYN_SENT" | "tcb_state tcb = TCP_STATE_ESTABLISHED"
    | "tcb_state tcb = TCP_STATE_CLOSE_WAIT" | "tcb_state tcb = TCP_STATE_LAST_ACK"
    by (auto simp: conn_ok_def)
  then show ?thesis
    by cases (use a e s assms(3) in \<open>auto simp: conn_rx_def conn_of_def split_beta Let_def\<close>)
qed

lemma conn_tmr_spec:
  assumes "conn_ok k tcb"
  shows "\<exists>t. conn_tmr api thr i tcb = Inr t \<and> map_option conn_of t = spec_timer (unat i) (Some (conn_of tcb))"
proof -
  obtain e where e: "expseq tcb = Some e" using assms(1) by (auto simp: conn_ok_def)
  from assms(1) consider "tcb_state tcb = TCP_STATE_SYN_SENT" | "tcb_state tcb = TCP_STATE_ESTABLISHED"
    | "tcb_state tcb = TCP_STATE_CLOSE_WAIT" | "tcb_state tcb = TCP_STATE_LAST_ACK"
    by (auto simp: conn_ok_def)
  then show ?thesis
    by cases (use e in \<open>auto simp: conn_tmr_def conn_of_def\<close>)
qed

lemma conn_accept_spec:
  assumes "timer_documented api"
  shows "map_option conn_of (conn_accept api thr k sq) = Some (TCP_STATE_SYN_SENT, sq + 1)"
  using tcb_start_ok [OF assms, of TCP_CONTROL_BLOCK_DEFAULT_MS]
  by (simp add: conn_accept_def conn_of_def split_beta)

lemma conns_upd: "clients self' = (clients self)(k := t) \<Longrightarrow>
    conns self' = (conns self)(k := map_option conn_of t)"
  by (auto simp: conns_def fun_eq_iff)

text \<open>Every operation makes one of the transitions.\<close>

lemma conn_rx_edge:
  assumes "conn_ok k tcb" and "conn_rx api thr h tcb = Inr t"
  shows "tcp_edge (Some (conn_of tcb)) (map_option conn_of t)"
proof -
  obtain e where e: "expseq tcb = Some e" using assms(1) by (auto simp: conn_ok_def)
  from assms(1) consider "tcb_state tcb = TCP_STATE_SYN_SENT" | "tcb_state tcb = TCP_STATE_ESTABLISHED"
    | "tcb_state tcb = TCP_STATE_CLOSE_WAIT" | "tcb_state tcb = TCP_STATE_LAST_ACK"
    by (auto simp: conn_ok_def)
  then show ?thesis
    by cases (use e assms(2) in \<open>auto simp: conn_rx_def conn_of_def fault_simps split_beta Let_def
      intro: tcp_edge.intros split: if_splits\<close>)
qed

lemma conn_tmr_edge:
  assumes "conn_ok k tcb" and "conn_tmr api thr i tcb = Inr t"
  shows "tcp_edge (Some (conn_of tcb)) (map_option conn_of t)"
proof -
  obtain u where "conn_tmr api thr i tcb = Inr u"
      "map_option conn_of u = spec_timer (unat i) (Some (conn_of tcb))"
    using conn_tmr_spec [OF assms(1)] by blast
  with assms(2) show ?thesis
    by (cases "conn_of tcb") (auto intro: tcp_edge.intros)
qed

lemma conn_step_edge:
  assumes inv: "tcp_inv self" and step: "conn_step api thr self k ev = Inr t"
  shows "tcp_edge (conns self k) (map_option conn_of t)"
proof (cases "clients self k")
  case None
  with step show ?thesis
    by (cases ev) (auto simp: accept_result_def conns_def conn_accept_def conn_of_def fault_simps split_beta
        intro: tcp_edge.intros split: if_splits)
next
  case (Some tcb)
  then have "conn_ok k tcb" using inv by (simp add: tcp_inv_clients)
  with Some step conn_rx_edge conn_tmr_edge show ?thesis
    by (cases ev) (fastforce simp: conns_def)+
qed

lemma tcp_step_edge:
  assumes "tcp_inv self" and "tcp_step api thr self ev = Inr self'"
  shows "tcp_edge (conns self k) (conns self' k)"
proof -
  obtain k' t where "conn_step api thr self k' ev = Inr t" "clients self' = (clients self)(k' := t)"
    using tcp_step_inv [OF assms] by blast
  then show ?thesis
    using conn_step_edge [OF assms(1)] conns_upd [of self' self k' t] tcp_edge.same by auto
qed

section \<open>A server that listens\<close>

text \<open>The state of a context whose listening block was put into \<^verbatim>\<open>TCP_STATE_LISTEN\<close>.\<close>

definition listening :: "'t tcpImpl \<Rightarrow> bool" where
  "listening self = (tcb_state (listen self) = TCP_STATE_LISTEN)"

definition demo_server :: "(u64 \<times> u64) option tcpImpl" where
  "demo_server = (tcpImpl_new demo_timer)\<lparr>listen := (tcb_new demo_timer 8000)\<lparr>tcb_state := TCP_STATE_LISTEN\<rparr>\<rparr>"

lemma demo_server_simps [simp]:
  "listening demo_server" "tcp_inv demo_server" "conns demo_server = Map.empty" "clients demo_server = Map.empty"
  "tcbTable demo_server = fd_new MAX_TCP_CLIENT" "retired demo_server = []"
proof -
  have "clients demo_server = clients (tcpImpl_new demo_timer)" by (simp add: demo_server_def clients_def)
  then show "clients demo_server = Map.empty" by simp
  then show "conns demo_server = Map.empty" by (simp add: conns_def fun_eq_iff)
  show tbl: "tcbTable demo_server = fd_new MAX_TCP_CLIENT" by (simp add: demo_server_def tcpImpl_new_def)
  show "tcp_inv demo_server"
    using tcp_inv_new [of demo_timer] by (simp add: tcp_inv_def demo_server_def)
qed (simp_all add: demo_server_def listening_def)

text \<open>The first client finds an empty table: it gets its home slot.\<close>

definition demo_client :: u64 where
  "demo_client = makeClientId (saddr4 (ipHeader (demo_header 9 2 77))) 9"

lemma demo_emplace: "\<not> isl (fd_emplace (fd_new MAX_TCP_CLIENT) demo_client v)"
proof -
  let ?p = "calcPos 64 demo_client"
  define dat where "dat = replicate 64 (fd_empty_slot :: 'a TContent)"
  have p: "?p < 64" by (simp add: calcPos_less)
  have d: "length dat = 64" "numInserted (dat ! ?p) = 0" "content (dat ! ?p) = None"
    using p by (simp_all add: dat_def fd_empty_slot_def)
  have "fd_probe dat ?p 0 demo_client 0 0 = None" by (subst fd_probe.simps) simp
  moreover have "fd_free dat ?p 0 = Some 0" using p d by (subst fd_free.simps) simp
  moreover have "fd_new MAX_TCP_CLIENT = \<lparr>fd_data = dat, fd_cnt = 0\<rparr>"
    by (simp add: fd_new_def MAX_TCP_CLIENT_def dat_def)
  ultimately show ?thesis using p d by (simp add: fd_emplace_def Let_def)
qed

section \<open>Lemmas on the events of the specification\<close>

text \<open>A segment for a known client, or for a new one that the table takes.\<close>

lemma tcp_packet_known:
  assumes inv: "tcp_inv self" and api: "timer_documented api" and sp: "sport h = Some sp"
    and sq: "seqno h = Some sq" and k: "k = makeClientId (saddr4 (ipHeader h)) sp"
    and lis: "clients self k = None \<Longrightarrow> listening self"
    and room: "clients self k = None \<Longrightarrow> has_flag h tcp_SYN \<Longrightarrow>
      \<not> isl (fd_emplace (tcbTable self) k (tcb_new api k))"
  shows "\<exists>self'. tcp_step api thr self (EvRx h) = Inr self' \<and> tcp_inv self' \<and> listen self' = listen self \<and>
    conns self' = (conns self)(k :=
      spec_packet (has_flag h tcp_SYN) (has_flag h tcp_ACK) (has_flag h tcp_FIN) sq (conns self k))"
proof -
  let ?c = "spec_packet (has_flag h tcp_SYN) (has_flag h tcp_ACK) (has_flag h tcp_FIN) sq (conns self k)"
  have key: "event_key (EvRx h) = Some k" using sp k by simp
  have "\<exists>t. conn_step api thr self k (EvRx h) = Inr t \<and> map_option conn_of t = ?c"
  proof (cases "clients self k")
    case None
    have "\<exists>p. tcp_emplace api k self = Inr p" if "has_flag h tcp_SYN"
      using room [OF None that] by (cases "fd_emplace (tcbTable self) k (tcb_new api k)") (auto simp: tcp_emplace_def)
    with None lis sq conn_accept_spec [OF api] show ?thesis
      by (auto simp: accept_result_def conns_def listening_def)
  next
    case (Some tcb)
    then have "conn_ok k tcb" using inv by (simp add: tcp_inv_clients)
    from conn_rx_spec [OF this api sq] Some show ?thesis by (auto simp: conns_def)
  qed
  then obtain t where t: "conn_step api thr self k (EvRx h) = Inr t" "map_option conn_of t = ?c" by blast
  from tcp_step_refines [OF inv key, of api thr] t(1)
  obtain self' where s: "tcp_step api thr self (EvRx h) = Inr self'" by (auto simp: refines_at_def)
  from tcp_step_inv [OF inv s] key t(1) have "tcp_inv self'" "clients self' = (clients self)(k := t)"
    "listen self' = listen self" by auto
  with s t(2) conns_upd show ?thesis by metis
qed

text \<open>The expiry of timer \<open>i\<close> of client \<open>k\<close>: its tag is decoded to the client and the timer.\<close>

lemma timer_event:
  assumes "unat k < 2 ^ 48" and "unat i < 256"
  shows "event_key (EvTimer (mtimer_tag i k)) = Some k"
    and "unat (ucast (drop_bit 56 (mtimer_tag i k) AND 0xFF :: u64) :: u8) = unat i"
proof -
  show "event_key (EvTimer (mtimer_tag i k)) = Some k" using tag_word(1) [of k i] assms(1) by simp
  have "i AND 0xFF = take_bit 8 i" by (simp add: take_bit_eq_mask mask_eq_exp_minus_1)
  moreover have "unat (take_bit 8 i) = unat i"
    using assms(2) by (simp only: unsigned_take_bit_eq) (simp add: take_bit_nat_eq_self)
  ultimately have "i AND 0xFF = i" by (simp add: word_unat_eq_iff)
  then have "drop_bit 56 (mtimer_tag i k) AND 0xFF = (ucast i :: u64)"
    using tag_word(2) [of k i] assms(1) by simp
  then have "unat (drop_bit 56 (mtimer_tag i k) AND 0xFF) = unat i"
    using unat_ucast_le [of i, where 'b = 64] by simp
  moreover have "unat (ucast w :: u8) = take_bit LENGTH(8) (unat w)" for w :: u64
    by (rule unsigned_ucast_eq)
  ultimately show "unat (ucast (drop_bit 56 (mtimer_tag i k) AND 0xFF :: u64) :: u8) = unat i"
    using assms(2) by (simp add: take_bit_nat_eq_self)
qed

section \<open>Properties\<close>

text \<open>
  Property (C3). With a timer service that works as documented and a listening server, every
  parsed segment does to the server exactly what the specification says: only the connection of its
  sender changes, by \<open>spec_packet\<close>. The one exception is a SYN of a new client that the table
  aborts on; then the server aborts with the table's fault.
\<close>

theorem tcp_packet_refines_spec:
  assumes "tcp_inv self" and "timer_documented api" and "listening self"
    and "sport h = Some sp" and "seqno h = Some sq" and "k = makeClientId (saddr4 (ipHeader h)) sp"
  shows "(\<exists>self'. tcp_step api thr self (EvRx h) = Inr self' \<and> tcp_inv self' \<and> listening self' \<and>
      conns self' = (conns self)(k :=
        spec_packet (has_flag h tcp_SYN) (has_flag h tcp_ACK) (has_flag h tcp_FIN) sq (conns self k))) \<or>
    (conns self k = None \<and> has_flag h tcp_SYN \<and>
      (\<exists>f. fd_emplace (tcbTable self) k (tcb_new api k) = Inl f \<and> tcp_step api thr self (EvRx h) = Inl f))"
proof (cases "clients self k = None \<and> has_flag h tcp_SYN \<and> (\<exists>f. fd_emplace (tcbTable self) k (tcb_new api k) = Inl f)")
  case True
  then obtain f where f: "fd_emplace (tcbTable self) k (tcb_new api k) = Inl f" by blast
  have "event_key (EvRx h) = Some k" using assms by simp
  from tcp_step_refines [OF assms(1) this, of api thr] True f assms(3)
  have "tcp_step api thr self (EvRx h) = Inl f"
    by (simp add: accept_result_def listening_def tcp_emplace_def refines_at_def)
  with True f show ?thesis by (simp add: conns_def)
next
  case False
  have "\<not> isl (fd_emplace (tcbTable self) k (tcb_new api k))" if "clients self k = None" "has_flag h tcp_SYN"
    using False that by (cases "fd_emplace (tcbTable self) k (tcb_new api k)") auto
  from tcp_packet_known [OF assms(1,2,4,5,6) assms(3) this, of thr] assms(3)
  show ?thesis by (auto simp: listening_def)
qed

theorem tcp_packet_refines_spec_witness:
  "\<exists>self'. tcp_step demo_timer 1 demo_server (EvRx (demo_header 9 2 77)) = Inr self' \<and>
     conns self' = [demo_client \<mapsto> (TCP_STATE_SYN_SENT, 78)]"
proof -
  have h: "sport (demo_header 9 2 77) = Some 9" "seqno (demo_header 9 2 77) = Some 77"
    "has_flag (demo_header 9 2 77) tcp_SYN"
    by code_simp+
  have "\<not> isl (fd_emplace (tcbTable demo_server) demo_client (tcb_new demo_timer demo_client))"
    using demo_emplace by simp
  with tcp_packet_refines_spec [OF _ demo_timer_documented _ h(1,2) demo_client_def, of demo_server 1] h(3)
  show ?thesis by auto
qed

text \<open>
  Property (C20). The expiry of any timer of any client does exactly what the specification says:
  only the second final timer of a client in LAST\_ACK and the first one of a client in CLOSE\_WAIT
  have an effect, the tag of the timer names its own client, and the handler never faults.
\<close>

theorem tcp_timer_refines_spec:
  assumes "tcp_inv self" and "unat k < 2 ^ 48" and "unat i < 256"
  shows "\<exists>self'. tcp_step api thr self (EvTimer (mtimer_tag i k)) = Inr self' \<and> tcp_inv self' \<and>
    conns self' = (conns self)(k := spec_timer (unat i) (conns self k))"
proof -
  let ?ev = "EvTimer (mtimer_tag i k)"
  note key = timer_event(1) [OF assms(2,3)] and evt = timer_event(2) [OF assms(2,3)]
  have "\<exists>t. conn_step api thr self k ?ev = Inr t \<and> map_option conn_of t = spec_timer (unat i) (conns self k)"
  proof (cases "clients self k")
    case None
    then show ?thesis by (simp add: conns_def)
  next
    case (Some tcb)
    then have "conn_ok k tcb" using assms(1) by (simp add: tcp_inv_clients)
    from conn_tmr_spec [OF this, of api thr "ucast (drop_bit 56 (mtimer_tag i k) AND 0xFF)"] Some evt
    show ?thesis by (auto simp: conns_def)
  qed
  then obtain t where t: "conn_step api thr self k ?ev = Inr t" "map_option conn_of t = spec_timer (unat i) (conns self k)"
    by blast
  from tcp_step_refines [OF assms(1) key, of api thr] t(1)
  obtain self' where s: "tcp_step api thr self ?ev = Inr self'" by (auto simp: refines_at_def)
  from tcp_step_inv [OF assms(1) s] key t(1) have "tcp_inv self'" "clients self' = (clients self)(k := t)" by auto
  with s t(2) conns_upd show ?thesis by metis
qed

text \<open>A parsed segment of client \<open>k\<close> with a sequence number.\<close>

definition segment_of :: "u64 \<Rightarrow> u32 \<Rightarrow> TcpSegmentHeader \<Rightarrow> bool" where
  "segment_of k sq h \<longleftrightarrow> seqno h = Some sq \<and> event_key (EvRx h) = Some k"

text \<open>One segment at the head of a run.\<close>

lemma run_packet:
  assumes inv: "tcp_inv self" and api: "timer_documented api" and seg: "segment_of k sq h"
    and new: "conns self k = None \<Longrightarrow> listening self \<and> \<not> isl (fd_emplace (tcbTable self) k (tcb_new api k))"
    and rest: "\<And>self'. tcp_inv self' \<Longrightarrow> listening self' = listening self \<Longrightarrow>
      conns self' = (conns self)(k :=
        spec_packet (has_flag h tcp_SYN) (has_flag h tcp_ACK) (has_flag h tcp_FIN) sq (conns self k)) \<Longrightarrow>
      \<exists>s. run_all (tcp_step api thr) self' evs = Inr s \<and> Q s"
  shows "\<exists>s. run_all (tcp_step api thr) self (EvRx h # evs) = Inr s \<and> Q s"
proof -
  from seg obtain sp where sp: "sport h = Some sp" "k = makeClientId (saddr4 (ipHeader h)) sp" "seqno h = Some sq"
    by (auto simp: segment_of_def)
  obtain self' where s: "tcp_step api thr self (EvRx h) = Inr self'" "tcp_inv self'" "listen self' = listen self"
    "conns self' = (conns self)(k :=
        spec_packet (has_flag h tcp_SYN) (has_flag h tcp_ACK) (has_flag h tcp_FIN) sq (conns self k))"
    using tcp_packet_known [OF inv api sp(1,3,2), of thr] new by (auto simp: conns_def)
  from rest [OF s(2) _ s(4)] s(1,3) show ?thesis by (simp add: listening_def)
qed

text \<open>A client that connected, was acknowledged and sent its FIN, and the demo run of it.\<close>

definition demo_fsm_header :: "u16 \<Rightarrow> u32 \<Rightarrow> TcpSegmentHeader" where
  "demo_fsm_header flags sq = (demo_header 9 0 0)\<lparr>evtmask := ucast flags, seqno := Some sq\<rparr>"

lemma demo_fsm_header_simps [simp]:
  "segment_of demo_client sq (demo_fsm_header flags sq)"
  "has_flag (demo_fsm_header tcp_SYN sq) tcp_SYN" "has_flag (demo_fsm_header tcp_ACK sq) tcp_ACK"
  "has_flag (demo_fsm_header tcp_FIN sq) tcp_FIN" "\<not> has_flag (demo_fsm_header tcp_ACK sq) tcp_FIN"
  "\<not> has_flag (demo_fsm_header tcp_FIN sq) tcp_ACK"
  by (simp_all add: demo_fsm_header_def demo_header_def segment_of_def demo_client_def has_flag_def tcp_mask_defs)

lemma demo_close_wait:
  "\<exists>s. run_all (tcp_step demo_timer 1) demo_server
       [EvRx (demo_fsm_header tcp_SYN 77), EvRx (demo_fsm_header tcp_ACK 78), EvRx (demo_fsm_header tcp_FIN 5)] = Inr s \<and>
     tcp_inv s \<and> conns s = [demo_client \<mapsto> (TCP_STATE_CLOSE_WAIT, 5)]"
proof (rule run_packet [OF _ demo_timer_documented, of _ demo_client 77])
  fix s1 :: "(u64 \<times> u64) option tcpImpl" assume 1: "tcp_inv s1" "conns s1 = (conns demo_server)(demo_client := spec_packet
    (has_flag (demo_fsm_header tcp_SYN 77) tcp_SYN) (has_flag (demo_fsm_header tcp_SYN 77) tcp_ACK)
    (has_flag (demo_fsm_header tcp_SYN 77) tcp_FIN) 77 (conns demo_server demo_client))"
  show "\<exists>s. run_all (tcp_step demo_timer 1) s1
      [EvRx (demo_fsm_header tcp_ACK 78), EvRx (demo_fsm_header tcp_FIN 5)] = Inr s \<and>
     tcp_inv s \<and> conns s = [demo_client \<mapsto> (TCP_STATE_CLOSE_WAIT, 5)]"
  proof (rule run_packet [OF 1(1) demo_timer_documented, of demo_client 78])
    fix s2 :: "(u64 \<times> u64) option tcpImpl" assume 2: "tcp_inv s2" "conns s2 = (conns s1)(demo_client := spec_packet
      (has_flag (demo_fsm_header tcp_ACK 78) tcp_SYN) (has_flag (demo_fsm_header tcp_ACK 78) tcp_ACK)
      (has_flag (demo_fsm_header tcp_ACK 78) tcp_FIN) 78 (conns s1 demo_client))"
    show "\<exists>s. run_all (tcp_step demo_timer 1) s2 [EvRx (demo_fsm_header tcp_FIN 5)] = Inr s \<and>
       tcp_inv s \<and> conns s = [demo_client \<mapsto> (TCP_STATE_CLOSE_WAIT, 5)]"
      by (rule run_packet [OF 2(1) demo_timer_documented, of demo_client 5])
        (use 1(2) 2(2) in auto)
  qed (use 1(2) in auto)
qed (auto simp: demo_emplace)

theorem tcp_timer_refines_spec_witness:
  "\<exists>s self'. conns s = [demo_client \<mapsto> (TCP_STATE_CLOSE_WAIT, 5)] \<and>
     tcp_step demo_timer 1 s (EvTimer (mtimer_tag 3 demo_client)) = Inr self' \<and>
     conns self' = [demo_client \<mapsto> (TCP_STATE_LAST_ACK, 6)]"
proof -
  obtain s :: "(u64 \<times> u64) option tcpImpl" where s: "tcp_inv s" "conns s = [demo_client \<mapsto> (TCP_STATE_CLOSE_WAIT, 5)]"
    using demo_close_wait by blast
  have k: "unat demo_client < 2 ^ 48" unfolding demo_client_def by (rule client_id_bound)
  obtain self' where "tcp_step demo_timer 1 s (EvTimer (mtimer_tag 3 demo_client)) = Inr self'"
    "conns self' = (conns s)(demo_client := spec_timer 3 (conns s demo_client))"
    using tcp_timer_refines_spec [OF s(1) k, of 3 demo_timer 1] by auto
  moreover from this(2) s(2) have "conns self' = [demo_client \<mapsto> (TCP_STATE_LAST_ACK, 6)]"
    by (simp add: tmr_id_defs)
  ultimately show ?thesis using s(2) by blast
qed

text \<open>
  Property (C5). Whatever the timer service does, every step of the server (a segment or a timer
  with any tag) keeps the invariant, and takes every client along an edge of the state machine: a
  client is accepted into SYN\_SENT, may then become ESTABLISHED, CLOSE\_WAIT and LAST\_ACK in this
  order, and is removed from the last two only. At most one client is changed, and the listening block
  is not.
\<close>

theorem tcp_steps_follow_edges:
  assumes "tcp_inv self" and "tcp_step api thr self ev = Inr self'"
  shows "tcp_inv self' \<and> listen self' = listen self \<and>
    (\<forall>k. tcp_edge (conns self k) (conns self' k)) \<and>
    (\<exists>k. event_key ev = Some k \<and> (\<forall>k'. k' \<noteq> k \<longrightarrow> clients self' k' = clients self k'))"
  using tcp_step_inv [OF assms] tcp_step_edge [OF assms] by auto

lemma demo_syn_sent:
  "\<exists>s. tcp_step demo_timer 1 demo_server (EvRx (demo_fsm_header tcp_SYN 77)) = Inr s \<and> tcp_inv s \<and>
     conns s = [demo_client \<mapsto> (TCP_STATE_SYN_SENT, 78)]"
proof -
  have "\<exists>s. run_all (tcp_step demo_timer 1) demo_server [EvRx (demo_fsm_header tcp_SYN 77)] = Inr s \<and>
      tcp_inv s \<and> conns s = [demo_client \<mapsto> (TCP_STATE_SYN_SENT, 78)]"
    by (rule run_packet [OF _ demo_timer_documented, of _ demo_client 77])
      (auto simp: demo_emplace)
  then show ?thesis by (simp add: fault_simps)
qed

theorem tcp_steps_follow_edges_witness:
  "\<exists>s. tcp_step demo_timer 1 demo_server (EvRx (demo_fsm_header tcp_SYN 77)) = Inr s \<and>
     tcp_edge None (conns s demo_client)"
proof -
  obtain s where s: "tcp_step demo_timer 1 demo_server (EvRx (demo_fsm_header tcp_SYN 77)) = Inr s"
    using demo_syn_sent by blast
  have "tcp_inv demo_server" by simp
  from tcp_steps_follow_edges [OF this s] have "tcp_edge (conns demo_server demo_client) (conns s demo_client)" by blast
  with s show ?thesis by auto
qed

text \<open>The flags as the parser passes them on: its mask keeps the low four bits.\<close>

definition as_parsed :: "TcpSegmentHeader \<Rightarrow> TcpSegmentHeader" where
  "as_parsed h = h\<lparr>evtmask := evtmask h AND 0xF\<rparr>"

lemma as_parsed_flags:
  "has_flag (as_parsed h) tcp_SYN \<longleftrightarrow> has_flag h tcp_SYN" "\<not> has_flag (as_parsed h) tcp_ACK"
  "segment_of k sq (as_parsed h) \<longleftrightarrow> segment_of k sq h"
proof -
  let ?e = "ucast (evtmask h) :: u16"
  have m: "ucast (evtmask h AND 0xF) = ?e AND 0xF"
    by (rule bit_word_eqI) (auto simp: bit_simps dest: bit_imp_le_length)
  have "(0xF :: u16) AND tcp_SYN = tcp_SYN" "(0xF :: u16) AND tcp_ACK = 0" by code_simp+
  then have "(?e AND 0xF) AND tcp_SYN = ?e AND tcp_SYN" "(?e AND 0xF) AND tcp_ACK = 0" by (simp_all add: and.assoc)
  then show "has_flag (as_parsed h) tcp_SYN \<longleftrightarrow> has_flag h tcp_SYN" "\<not> has_flag (as_parsed h) tcp_ACK"
    unfolding has_flag_def as_parsed_def by (simp_all add: m)
qed (simp add: segment_of_def as_parsed_def)

lemma lifetime_run:
  assumes "tcp_inv self" and "timer_documented api" and "listening self" and "conns self k = None"
    and "\<not> isl (fd_emplace (tcbTable self) k (tcb_new api k))"
    and "segment_of k a h1" "segment_of k b h2" "segment_of k c h3" "segment_of k d h4" "segment_of k e h5"
    and "has_flag h1 tcp_SYN"
  defines "spec \<equiv> \<lambda>h. spec_packet (has_flag h tcp_SYN) (has_flag h tcp_ACK) (has_flag h tcp_FIN)"
  defines "c1 \<equiv> Some (TCP_STATE_SYN_SENT, a + 1)"
  defines "c3 \<equiv> spec h3 c (spec h2 b c1)"
  assumes "spec h2 b c1 \<noteq> None" and "c3 \<noteq> None" and "spec h4 d c3 \<noteq> None"
  shows "\<exists>self'. run_all (tcp_step api thr) self (map EvRx [h1, h2, h3, h4, h5]) = Inr self' \<and>
    tcp_inv self' \<and> conns self' = (conns self)(k := spec h5 e (spec h4 d c3))"
proof -
  note run = run_packet [OF _ assms(2)]
  have one: "spec h1 a None = c1" using assms(11) by (simp add: spec_def c1_def)
  show ?thesis
    unfolding list.map
    apply (rule run [OF assms(1,6)])
    subgoal using assms(3,5) by simp
    apply (rule run [OF _ assms(7)], assumption)
    subgoal using assms(4) one by (simp add: spec_def c1_def)
    apply (rule run [OF _ assms(8)], assumption)
    subgoal using assms(4,15) one by (simp add: spec_def c1_def)
    apply (rule run [OF _ assms(9)], assumption)
    subgoal using assms(4,16) one by (simp add: spec_def c1_def c3_def)
    apply (rule run [OF _ assms(10)], assumption)
    subgoal using assms(4,17) one by (simp add: spec_def c1_def c3_def)
    subgoal using assms(4) one by (simp add: spec_def c1_def c3_def)
    done
qed

text \<open>
  Property (C4). What the mask of the parser costs. Take a server that listens, with a timer service
  that works and a table that takes the new client (the program's start provides neither of the first two). With headers
  that keep their flags, a SYN with sequence number \<open>a\<close>, an ACK with \<open>a + 1\<close>, a FIN with \<open>f\<close>, an ACK
  with \<open>f\<close> and an ACK with \<open>f + 1\<close> open and close a connection: the handlers take the client through
  all its states and out of the table again. With the same five headers as the parser passes
  them on, whose acknowledgement flags are masked out, the client stays in SYN\_SENT with the first
  expected number. In both runs no step faults and no other connection is touched.
\<close>

theorem tcp_connection_lifetime:
  assumes "tcp_inv self" and "timer_documented api" and "listening self" and "conns self k = None"
    and "\<not> isl (fd_emplace (tcbTable self) k (tcb_new api k))"
    and "segment_of k a syn" and "has_flag syn tcp_SYN"
    and "segment_of k (a + 1) ack" and "has_flag ack tcp_ACK"
    and "segment_of k f fin" and "has_flag fin tcp_FIN"
    and "segment_of k f ack2" and "has_flag ack2 tcp_ACK"
    and "segment_of k (f + 1) ack3" and "has_flag ack3 tcp_ACK"
  shows "(\<exists>self'. run_all (tcp_step api thr) self (map EvRx [syn, ack, fin, ack2, ack3]) = Inr self' \<and>
      tcp_inv self' \<and> conns self' = conns self) \<and>
    (\<exists>self'. run_all (tcp_step api thr) self (map (\<lambda>h. EvRx (as_parsed h)) [syn, ack, fin, ack2, ack3]) = Inr self' \<and>
      tcp_inv self' \<and> conns self' = (conns self)(k \<mapsto> (TCP_STATE_SYN_SENT, a + 1)))"
proof
  note seg = assms(6,8,10,12,14)
  show "\<exists>self'. run_all (tcp_step api thr) self (map EvRx [syn, ack, fin, ack2, ack3]) = Inr self' \<and>
      tcp_inv self' \<and> conns self' = conns self"
    using lifetime_run [OF assms(1-5) seg assms(7), of thr] assms(4,9,11,13,15) by (simp add: fun_upd_idem)
  note seg' = seg [THEN iffD2 [OF as_parsed_flags(3)]]
  show "\<exists>self'. run_all (tcp_step api thr) self (map (\<lambda>h. EvRx (as_parsed h)) [syn, ack, fin, ack2, ack3]) = Inr self' \<and>
      tcp_inv self' \<and> conns self' = (conns self)(k \<mapsto> (TCP_STATE_SYN_SENT, a + 1))"
    using lifetime_run [OF assms(1-5) seg', of thr] assms(7) by (simp add: as_parsed_flags)
qed

theorem tcp_connection_lifetime_witness:
  "(\<exists>self'. run_all (tcp_step demo_timer 1) demo_server
     (map EvRx [demo_fsm_header tcp_SYN 77, demo_fsm_header tcp_ACK 78, demo_fsm_header tcp_FIN 5,
        demo_fsm_header tcp_ACK 5, demo_fsm_header tcp_ACK 6]) = Inr self' \<and> conns self' = Map.empty) \<and>
   (\<exists>self'. run_all (tcp_step demo_timer 1) demo_server
     (map (\<lambda>h. EvRx (as_parsed h)) [demo_fsm_header tcp_SYN 77, demo_fsm_header tcp_ACK 78, demo_fsm_header tcp_FIN 5,
        demo_fsm_header tcp_ACK 5, demo_fsm_header tcp_ACK 6]) = Inr self' \<and>
     conns self' = [demo_client \<mapsto> (TCP_STATE_SYN_SENT, 78)])"
  using tcp_connection_lifetime [OF _ demo_timer_documented, of demo_server demo_client 77
      "demo_fsm_header tcp_SYN 77" "demo_fsm_header tcp_ACK 78" 5 "demo_fsm_header tcp_FIN 5"
      "demo_fsm_header tcp_ACK 5" "demo_fsm_header tcp_ACK 6" 1]
  by (auto simp: demo_emplace)

text \<open>Every segment a new context gets makes the listening handler's assertion fail.\<close>

lemma new_context_find [simp]: "fd_find (tcbTable (tcpImpl_new api)) k = None"
  using fd.find_None [of "tcbTable (tcpImpl_new api)" k] tcpImpl_new_simps(1,2) [of api] by (simp add: clients_def)

lemma new_context_aborts:
  "tcp_deliver api thr h (tcpImpl_new api0) = Inl (if sport h = None then Uninitialised else AssertFailed)"
  by (cases "sport h")
    (simp_all add: tcp_deliver_def Let_def fsm_rx_state fsm_listen_def in_state_def tcb_get_def)

text \<open>
  The listening block of a new context is never put into LISTEN: the first segment
  of any client makes the handler's assertion fail and aborts the program, so no run of the server
  as it is started accepts a connection; timers alone change nothing.
\<close>

fun is_timer :: "tcp_event \<Rightarrow> bool" where
  "is_timer (EvTimer a) = True"
| "is_timer (EvRx h) = False"

theorem tcp_listener_never_listens:
  "run_all (tcp_step api thr) (tcpImpl_new api) evs =
     (case dropWhile is_timer evs of
        [] \<Rightarrow> Inr (tcpImpl_new api)
      | ev # _ \<Rightarrow> Inl (if event_key ev = None then Uninitialised else AssertFailed))"
proof (induction evs)
  case (Cons ev evs)
  then show ?case
    by (cases ev) (simp_all add: new_context_aborts onTcpCbTimerExpire_def Let_def)
qed simp

end
