(* ===== verification/MbufPool.thy ===== *)
theory MbufPool
  imports Autobuf
begin

text \<open>
  The packet buffers' reference counts. DPDK owns them: \<^verbatim>\<open>rte_mbuf_refcnt_read\<close>,
  \<^verbatim>\<open>rte_pktmbuf_refcnt_update\<close> and \<^verbatim>\<open>rte_pktmbuf_free\<close> are not part of this repository.
  The model records the calls the program makes (latest first) and takes as a parameter the function
  \<open>rd\<close> that says what \<^verbatim>\<open>rte_mbuf_refcnt_read\<close> returns after a history of calls. A chain of
  segments is one buffer, named by the address of its head.
\<close>

datatype mcall = McRead nat | McUpdate nat u16 | McFree nat

type_synonym mlog = "mcall list"
type_synonym refcnt_fun = "mlog \<Rightarrow> nat \<Rightarrow> u16"

text \<open>\<^verbatim>\<open>using rte_autobuf = aroop_autobuf<rte_mbuf, rte_pktmbuf_free, ...>\<close>.\<close>

definition rte_cb :: "refcnt_fun \<Rightarrow> (mlog, nat) refcount_cb" where
  "rte_cb rd =
     \<lparr>READ_CB = (\<lambda>l p. (rd l p, McRead p # l)),
      UPDATE_CB = (\<lambda>l p v. McUpdate p v # l),
      DEALLOC_CB = (\<lambda>l p. McFree p # l)\<rparr>"

section \<open>Which calls are legal\<close>

text \<open>
  A buffer is live until a free that found its count at one gave it back to its pool. A history is
  legal when every call was made on a live buffer.
\<close>

fun mb_live :: "refcnt_fun \<Rightarrow> mlog \<Rightarrow> nat \<Rightarrow> bool" where
  "mb_live rd [] p = True"
| "mb_live rd (McFree q # l) p = (mb_live rd l p \<and> \<not> (q = p \<and> rd l p = 1))"
| "mb_live rd (_ # l) p = mb_live rd l p"

fun mcall_target :: "mcall \<Rightarrow> nat" where
  "mcall_target (McRead p) = p"
| "mcall_target (McUpdate p _) = p"
| "mcall_target (McFree p) = p"

fun mlog_ok :: "refcnt_fun \<Rightarrow> mlog \<Rightarrow> bool" where
  "mlog_ok rd [] = True"
| "mlog_ok rd (c # l) = (mlog_ok rd l \<and> mb_live rd l (mcall_target c))"

definition mb_cnt :: "refcnt_fun \<Rightarrow> mlog \<Rightarrow> nat \<Rightarrow> u16 option" where
  "mb_cnt rd l p = (if mb_live rd l p then Some (rd l p) else None)"

text \<open>
  What the DPDK documentation says of the counts of live buffers: reading changes nothing, an update
  adds to the count of its buffer, a free of a buffer with other references removes one of them.
\<close>

definition refcnt_documented :: "refcnt_fun \<Rightarrow> bool" where
  "refcnt_documented rd \<longleftrightarrow>
     (\<forall>l p q v. mb_live rd l p \<longrightarrow>
        rd (McRead q # l) p = rd l p \<and>
        rd (McUpdate q v # l) p = (if q = p then rd l p + v else rd l p) \<and>
        (q \<noteq> p \<longrightarrow> rd (McFree q # l) p = rd l p) \<and>
        (rd l p \<noteq> 1 \<longrightarrow> rd (McFree p # l) p = rd l p - 1))"

lemma refcnt_documentedD:
  assumes "refcnt_documented rd" and "mb_live rd l p"
  shows "rd (McRead q # l) p = rd l p"
    and "rd (McUpdate q v # l) p = (if q = p then rd l p + v else rd l p)"
    and "q \<noteq> p \<Longrightarrow> rd (McFree q # l) p = rd l p"
    and "rd l p \<noteq> 1 \<Longrightarrow> rd (McFree p # l) p = rd l p - 1"
  using assms by (auto simp: refcnt_documented_def)

text \<open>The documented counts satisfy the contract of the smart pointer's callbacks.\<close>

lemma rte_refcounted:
  assumes "refcnt_documented rd"
  shows "refcounted (rte_cb rd) (mb_cnt rd) (mlog_ok rd)"
  by unfold_locales
    (auto simp: rte_cb_def mb_cnt_def fun_eq_iff refcnt_documentedD [OF assms] split: if_splits)

section \<open>Histories of one buffer\<close>

text \<open>
  The calls a component makes, oldest first, given the count of the buffer it starts from.
\<close>

lemma mb_live_Cons_other: "mcall_target c \<noteq> p \<Longrightarrow> mb_live rd (c # l) p = mb_live rd l p"
  by (cases c) auto

definition mbuf_temp :: "refcnt_fun \<Rightarrow> nat \<Rightarrow> mlog \<Rightarrow> mlog" where
  "mbuf_temp rd p l =
     autobuf_destroy (rte_cb rd) (fst (autobuf_of_ptr (rte_cb rd) (Some p) l))
       (snd (autobuf_of_ptr (rte_cb rd) (Some p) l))"

text \<open>A concrete count function with the documented behaviour: new buffers have one reference.\<close>

fun rd_pool :: refcnt_fun where
  "rd_pool [] p = 1"
| "rd_pool (McRead q # l) p = rd_pool l p"
| "rd_pool (McUpdate q v # l) p = (if q = p then rd_pool l p + v else rd_pool l p)"
| "rd_pool (McFree q # l) p =
     (if q = p then (if rd_pool l p = 1 then 1 else rd_pool l p - 1) else rd_pool l p)"

lemma rd_pool_documented: "refcnt_documented rd_pool"
  by (auto simp: refcnt_documented_def)

end
