(* ===== verification/TcpRx.thy ===== *)
theory TcpRx
  imports TcpSpec MbufPool
begin

text \<open>
  \<^verbatim>\<open>tcpImpl::handleTcpRx\<close> of \<^verbatim>\<open>tcp/tcp_rx.cc\<close> and the service \<^verbatim>\<open>TCP_REACTOR\<close> of
  \<^verbatim>\<open>tcp/tcp_plugin.cc\<close>: parsing, delivery to the state machine, and what both do to the reference
  count of the packet. A packet is the address of its buffer and its segments; the state is the history
  of calls on buffers and the context of the thread.
\<close>

section \<open>The receive path\<close>

type_synonym packet = "nat \<times> rte_mbuf_seg list"

text \<open>
  Handing \<^verbatim>\<open>rbuf.release()\<close> to a handler: the raw pointer is converted to the by-value parameter
  of the \<^verbatim>\<open>std::function\<close>, which moves it into the parameter of the lambda. The handlers do not
  touch it, so both parameters and \<^verbatim>\<open>rbuf\<close> are destroyed as they are.
\<close>

definition hand_over :: "refcnt_fun \<Rightarrow> nat aroop_autobuf \<Rightarrow> mlog \<Rightarrow> mlog" where
  "hand_over rd rbuf l =
     (let (raw, rbuf1) = autobuf_release rbuf;
          (arg, l1) = autobuf_of_ptr (rte_cb rd) raw l;
          (m, arg1, l2) = autobuf_move_new (rte_cb rd) arg l1;
          l3 = autobuf_destroy (rte_cb rd) m l2;
          l4 = autobuf_destroy (rte_cb rd) arg1 l3 in
      autobuf_destroy (rte_cb rd) rbuf1 l4)"

definition handleTcpRx ::
  "net_api \<Rightarrow> refcnt_fun \<Rightarrow> 't timer_api \<Rightarrow> int \<Rightarrow> packet \<Rightarrow> mlog \<times> 't tcpImpl \<Rightarrow>
     fault + (mlog \<times> 't tcpImpl)" where
  "handleTcpRx net rd api thr pkt st =
     (let (p, m) = pkt; (l, self) = st;
          (rbuf, l1) = autobuf_own (rte_cb rd) autobuf_new (Some p) l;
          dropped = autobuf_destroy (rte_cb rd) rbuf l1 in
      bindR (tcp_parse net (tcb_clientId (listen self)) m) (\<lambda>r.
        case r of
          None \<Rightarrow> Inr (dropped, self)
        | Some (header, reader) \<Rightarrow>
            bindR (tcp_deliver api thr header self) (\<lambda>(handed, self1).
              Inr (if handed then hand_over rd rbuf l1 else dropped, self1))))"

text \<open>The service reactor: other messages are ignored.\<close>

definition MSG_TCP_RX :: int where "MSG_TCP_RX = 6"

definition TCP_REACTOR ::
  "net_api \<Rightarrow> refcnt_fun \<Rightarrow> 't timer_api \<Rightarrow> int \<Rightarrow> int \<Rightarrow> packet \<Rightarrow> mlog \<times> 't tcpImpl \<Rightarrow>
     fault + (int \<times> mlog \<times> 't tcpImpl)" where
  "TCP_REACTOR net rd api thr msgId pkt st =
     (if msgId = MSG_TCP_RX then bindR (handleTcpRx net rd api thr pkt st) (\<lambda>st1. Inr (0, st1))
      else Inr (0, st))"

section \<open>Reference counts\<close>

text \<open>The calls on the packet: one increment and one decrement when it is handed over.\<close>

lemma hand_over_log:
  "hand_over rd \<lparr>ab_data = Some p\<rparr> l =
     (if rd (McUpdate p 1 # l) p = 1
      then McUpdate p (-1) # McFree p # McRead p # McUpdate p 1 # l
      else McUpdate p (-1) # McRead p # McUpdate p 1 # l)"
  by (simp add: hand_over_def autobuf_of_ptr_def autobuf_reset_def autobuf_destroy_def
      autobuf_clear_def autobuf_new_def rte_cb_def Let_def)

lemma drop_log:
  "autobuf_destroy (rte_cb rd) \<lparr>ab_data = Some p\<rparr> l =
     (if rd l p = 1 then McUpdate p (-1) # McFree p # McRead p # l else McUpdate p (-1) # McRead p # l)"
  by (simp add: autobuf_destroy_def autobuf_clear_def rte_cb_def)

lemma hand_over_live:
  assumes "refcnt_documented rd" and "mlog_ok rd l" and "mb_live rd l p" and "rd l p = 1"
  shows "mlog_ok rd (hand_over rd \<lparr>ab_data = Some p\<rparr> l) \<and>
    mb_live rd (hand_over rd \<lparr>ab_data = Some p\<rparr> l) p \<and> rd (hand_over rd \<lparr>ab_data = Some p\<rparr> l) p = 1"
  using assms by (auto simp: hand_over_log refcnt_documentedD)

lemma drop_last:
  assumes "refcnt_documented rd" and "mb_live rd l p" and "rd l p = 1"
  shows "\<not> mlog_ok rd (autobuf_destroy (rte_cb rd) \<lparr>ab_data = Some p\<rparr> l) \<and>
    \<not> mb_live rd (autobuf_destroy (rte_cb rd) \<lparr>ab_data = Some p\<rparr> l) p"
  using assms by (auto simp: drop_log refcnt_documentedD)

text \<open>With the invariant of the context, every parsed packet is handed over.\<close>

lemma tcp_deliver_handed:
  assumes "tcp_inv self" and "tcp_deliver api thr h self = Inr (handed, self1)"
  shows "handed \<and> tcp_step api thr self (EvRx h) = Inr self1"
proof -
  have fi: "fd_inv (tcbTable self)" using assms(1) by (simp add: tcp_inv_def)
  from assms(2) obtain sp where sp: "sport h = Some sp" by (auto simp: tcp_deliver_def fault_simps)
  have "handed"
  proof (cases rule: find_cases [OF fi, of "makeClientId (saddr4 (ipHeader h)) sp"])
    case 1
    with assms(2) sp show ?thesis by (auto simp: tcp_deliver_def fault_simps)
  next
    case (2 s tcb)
    from conn_ok_state [OF tcp_inv_holds(2) [OF assms(1) 2(1,2)]] 2 assms(2) sp
    show ?thesis by (auto simp: tcp_deliver_def Let_def fault_simps state_ge_MAX)
  qed
  with assms(2) show ?thesis by simp
qed

lemma handleTcpRx_cases:
  assumes "tcp_inv self" and "handleTcpRx net rd api thr (p, m) (l, self) = Inr (l', self')"
  obtains "tcp_parse net (tcb_clientId (listen self)) m = Inr None" "self' = self"
      "l' = autobuf_destroy (rte_cb rd) \<lparr>ab_data = Some p\<rparr> l"
  | h r where "tcp_parse net (tcb_clientId (listen self)) m = Inr (Some (h, r))"
      "tcp_step api thr self (EvRx h) = Inr self'" "l' = hand_over rd \<lparr>ab_data = Some p\<rparr> l"
proof -
  let ?parse = "tcp_parse net (tcb_clientId (listen self)) m"
  from assms(2) obtain r where r: "?parse = Inr r" by (auto simp: handleTcpRx_def Let_def fault_simps)
  show ?thesis
  proof (cases r)
    case None
    with assms(2) r show ?thesis by (intro that(1)) (auto simp: handleTcpRx_def Let_def)
  next
    case (Some q)
    obtain h rd' where q: "q = (h, rd')" by (cases q)
    with assms(2) r Some obtain handed where d: "tcp_deliver api thr h self = Inr (handed, self')"
      "l' = (if handed then hand_over rd \<lparr>ab_data = Some p\<rparr> l else autobuf_destroy (rte_cb rd) \<lparr>ab_data = Some p\<rparr> l)"
      by (auto simp: handleTcpRx_def Let_def fault_simps)
    with tcp_deliver_handed [OF assms(1) d(1)] r Some q show ?thesis by (intro that(2)) auto
  qed
qed

section \<open>What arrives on the wire\<close>

text \<open>A packet or the expiry of a timer.\<close>

datatype wire_event = WirePkt packet | WireTimer u64

fun wire_step ::
  "net_api \<Rightarrow> refcnt_fun \<Rightarrow> 't timer_api \<Rightarrow> int \<Rightarrow> mlog \<times> 't tcpImpl \<Rightarrow> wire_event \<Rightarrow>
     fault + (mlog \<times> 't tcpImpl)" where
  "wire_step net rd api thr st (WirePkt pkt) = handleTcpRx net rd api thr pkt st"
| "wire_step net rd api thr st (WireTimer srcAddr) =
     bindR (onTcpCbTimerExpire api thr srcAddr (snd st)) (\<lambda>self. Inr (fst st, self))"

text \<open>All clients are half-open.\<close>

definition half_open :: "mlog \<times> 't tcpImpl \<Rightarrow> bool" where
  "half_open st \<longleftrightarrow> tcp_inv (snd st) \<and>
     list_all (\<lambda>(k, tcb). tcb_state tcb = TCP_STATE_SYN_SENT) (fd_entries (tcbTable (snd st)))"

lemma half_open_conns:
  "half_open st \<longleftrightarrow> tcp_inv (snd st) \<and>
     (\<forall>k c. conns (snd st) k = Some c \<longrightarrow> fst c = TCP_STATE_SYN_SENT)"
proof -
  have "list_all (\<lambda>(k, tcb). tcb_state tcb = TCP_STATE_SYN_SENT) (fd_entries (tcbTable (snd st))) \<longleftrightarrow>
      (\<forall>k c. conns (snd st) k = Some c \<longrightarrow> fst c = TCP_STATE_SYN_SENT)" if "fd_inv (tcbTable (snd st))"
    using that by (auto simp: list_all_iff conns_def clients_def fd_lookup_def fd_inv_def conn_of_def
        map_of_eq_Some_iff)
  then show ?thesis by (auto simp: half_open_def tcp_inv_def)
qed

lemma wire_step_half_open:
  assumes ho: "half_open st" and step: "wire_step net rd api thr st ev = Inr st'"
  shows "half_open st' \<and> listen (snd st') = listen (snd st) \<and>
    (\<forall>k c. conns (snd st) k = Some c \<longrightarrow> conns (snd st') k = Some c)"
proof -
  obtain l self where st: "st = (l, self)" by (cases st)
  obtain l' self' where st': "st' = (l', self')" by (cases st')
  have c: "tcp_inv self \<and> (\<forall>k c. conns self k = Some c \<longrightarrow> fst c = TCP_STATE_SYN_SENT)"
    using ho unfolding half_open_conns st snd_conv .
  then have inv: "tcp_inv self" by (rule conjunct1)
  have ss: "fst c = TCP_STATE_SYN_SENT" if "conns self k = Some c" for k c
    using c that by blast
  have tcp: ?thesis if s: "tcp_step api thr self e = Inr self'"
    and q: "\<And>h. e = EvRx h \<Longrightarrow> \<not> has_flag h tcp_ACK" for e
  proof -
    obtain k t where t: "conn_step api thr self k e = Inr t" "tcp_inv self'" "listen self' = listen self"
      "clients self' = (clients self)(k := t)"
      using tcp_step_inv [OF inv s] by blast
    have cs: "conns self' = (conns self)(k := map_option conn_of t)" by (rule conns_upd [OF t(4)])
    show ?thesis
    proof (cases "clients self k")
      case None
      then have "\<forall>c. map_option conn_of t = Some c \<longrightarrow> fst c = TCP_STATE_SYN_SENT"
        using conn_step_edge [OF inv t(1)] by (auto simp: conns_def elim: tcp_edge_noneE)
      then have all: "\<forall>j c. conns self' j = Some c \<longrightarrow> fst c = TCP_STATE_SYN_SENT"
        using ss unfolding cs fun_upd_apply by metis
      have "conns self k = None" using None by (simp add: conns_def)
      then have "\<forall>j c. conns self j = Some c \<longrightarrow> conns self' j = Some c"
        unfolding cs by simp
      with all t(2,3) show ?thesis unfolding half_open_conns st st' snd_conv by blast
    next
      case (Some tcb)
      then have "tcb_state tcb = TCP_STATE_SYN_SENT" using ss [of k] by (simp add: conns_def conn_of_def)
      then have "t = Some tcb"
        using t(1) Some q by (cases e) (auto simp: conn_rx_def conn_tmr_def ack_expected_def)
      then have "conns self' = conns self" using cs Some by (auto simp: conns_def fun_eq_iff)
      with t(2,3) ss show ?thesis unfolding half_open_conns st st' snd_conv by metis
    qed
  qed
  show ?thesis
  proof (cases ev)
    case (WireTimer a)
    with step st st' have "tcp_step api thr self (EvTimer a) = Inr self'" by (auto simp: fault_simps)
    then show ?thesis by (rule tcp) simp
  next
    case (WirePkt pkt)
    obtain p m where pkt: "pkt = (p, m)" by (cases pkt)
    from step WirePkt st st' pkt have "handleTcpRx net rd api thr (p, m) (l, self) = Inr (l', self')" by simp
    with inv show ?thesis
    proof (cases rule: handleTcpRx_cases)
      case 1
      with ho show ?thesis unfolding st st' 1(2) by (simp add: half_open_def)
    next
      case (2 h r)
      obtain left :: u16 where "evtmask h = ucast (left AND 0xF)" using tcp_parse_evtmask [OF 2(1)] by auto
      then have "\<not> has_flag h tcp_ACK" using ucast_nibble_and [OF high_flags(1)] by (simp add: has_flag_def)
      then show ?thesis by (intro tcp [OF 2(2)]) simp
    qed
  qed
qed

interpretation wire: kept_invariant "wire_step net rd api thr" half_open
  for net rd and api :: "'t timer_api" and thr
  by unfold_locales (blast dest: wire_step_half_open)

section \<open>Properties\<close>

text \<open>
  Property (C19). The life of a packet buffer with one reference in \<^verbatim>\<open>handleTcpRx\<close>: when the
  packet is parsed and handed to a state handler, the handler's temporary reference is given back and
  the caller gets the buffer back live with one reference; when the packet is dropped (too short, no
  TCP, bad offset, other port) the buffer is freed and its count is decremented after the free.
\<close>

theorem handleTcpRx_mbuf:
  assumes "refcnt_documented rd" and "tcp_inv self" and "mlog_ok rd l" and "mb_live rd l p" and "rd l p = 1"
    and "handleTcpRx net rd api thr (p, m) (l, self) = Inr (l', self')"
  shows "if tcp_parse net (tcb_clientId (listen self)) m = Inr None
    then self' = self \<and> \<not> mb_live rd l' p \<and> \<not> mlog_ok rd l'
    else (\<exists>h r. tcp_parse net (tcb_clientId (listen self)) m = Inr (Some (h, r)) \<and>
        tcp_step api thr self (EvRx h) = Inr self') \<and>
      mb_live rd l' p \<and> rd l' p = 1 \<and> mlog_ok rd l'"
  using assms(2,6)
proof (cases rule: handleTcpRx_cases)
  case 1
  with drop_last [OF assms(1,4,5)] show ?thesis by simp
next
  case (2 h r)
  with hand_over_live [OF assms(1,3,4,5)] show ?thesis by auto
qed

lemma demo_parse_bare:
  "tcp_parse demo_net 8000 [demo_seg 9 2 77 []] =
     Inr (Some (demo_header 9 2 77, (itr_new [demo_seg 9 2 77 []])\<lparr>itr_offset := 54\<rparr>))"
  "tcp_parse demo_net 8000 [demo_seg 9 16 78 []] =
     Inr (Some (demo_header 9 16 78, (itr_new [demo_seg 9 16 78 []])\<lparr>itr_offset := 54\<rparr>))"
  "tcp_parse demo_net 8000 [] = Inr None"
  by code_simp+

lemma demo_header_of:
  "segment_of demo_client 77 (demo_header 9 2 77)" "has_flag (demo_header 9 2 77) tcp_SYN"
  "segment_of demo_client 78 (demo_header 9 16 78)" "\<not> has_flag (demo_header 9 16 78) tcp_ACK"
  by (simp_all add: segment_of_def demo_header_def demo_client_def has_flag_def tcp_mask_defs)

lemma handleTcpRx_step:
  assumes "tcp_inv self" and "tcp_parse net (tcb_clientId (listen self)) m = Inr (Some (h, r))"
    and "tcp_step api thr self (EvRx h) = Inr self'"
  shows "handleTcpRx net rd api thr (p, m) (l, self) = Inr (hand_over rd \<lparr>ab_data = Some p\<rparr> l, self')"
proof -
  from assms(3) obtain handed where "tcp_deliver api thr h self = Inr (handed, self')" by (auto simp: fault_simps)
  with tcp_deliver_handed [OF assms(1) this] assms(2) show ?thesis by (simp add: handleTcpRx_def Let_def)
qed

lemma demo_listen_id [simp]: "tcb_clientId (listen demo_server) = 8000"
  by (simp add: demo_server_def)

lemma demo_wire_syn:
  "\<exists>s. handleTcpRx demo_net rd demo_timer thr (p, [demo_seg 9 2 77 []]) (l, demo_server) =
       Inr (hand_over rd \<lparr>ab_data = Some p\<rparr> l, s) \<and> tcp_inv s \<and> listen s = listen demo_server \<and>
     conns s = [demo_client \<mapsto> (TCP_STATE_SYN_SENT, 78)]"
proof -
  have h: "sport (demo_header 9 2 77) = Some 9" "seqno (demo_header 9 2 77) = Some 77"
    by (simp_all add: demo_header_def)
  obtain s where s: "tcp_step demo_timer thr demo_server (EvRx (demo_header 9 2 77)) = Inr s" "tcp_inv s"
    "listen s = listen demo_server" "conns s = [demo_client \<mapsto> (TCP_STATE_SYN_SENT, 78)]"
    using tcp_packet_known [OF _ demo_timer_documented h demo_client_def, of demo_server thr] demo_header_of(2)
    by (auto simp: demo_emplace)
  have "handleTcpRx demo_net rd demo_timer thr (p, [demo_seg 9 2 77 []]) (l, demo_server) =
       Inr (hand_over rd \<lparr>ab_data = Some p\<rparr> l, s)"
    by (rule handleTcpRx_step [OF _ _ s(1)]) (simp_all add: demo_parse_bare)
  with s(2-4) show ?thesis by blast
qed

theorem handleTcpRx_mbuf_witness:
  "(\<exists>l' s. handleTcpRx demo_net rd_pool demo_timer 1 (7, [demo_seg 9 2 77 []]) ([], demo_server) = Inr (l', s) \<and>
      mb_live rd_pool l' 7 \<and> rd_pool l' 7 = 1) \<and>
   (\<exists>l'. handleTcpRx demo_net rd_pool demo_timer 1 (7, []) ([], demo_server) = Inr (l', demo_server) \<and>
      \<not> mlog_ok rd_pool l')"
proof (intro conjI)
  note th = handleTcpRx_mbuf [OF rd_pool_documented, of _ "[]" 7 demo_net demo_timer 1]
  obtain l' s where s: "handleTcpRx demo_net rd_pool demo_timer 1 (7, [demo_seg 9 2 77 []]) ([], demo_server) = Inr (l', s)"
    using demo_wire_syn by blast
  from th [OF _ _ _ _ s] have "mb_live rd_pool l' 7 \<and> rd_pool l' 7 = 1" by (simp add: demo_parse_bare)
  with s show "\<exists>l' s. handleTcpRx demo_net rd_pool demo_timer 1 (7, [demo_seg 9 2 77 []]) ([], demo_server) = Inr (l', s) \<and>
      mb_live rd_pool l' 7 \<and> rd_pool l' 7 = 1" by blast
  obtain l2 where d: "handleTcpRx demo_net rd_pool demo_timer 1 (7, []) ([], demo_server) = Inr (l2, demo_server)"
    by (simp add: handleTcpRx_def Let_def demo_parse_bare)
  from th [OF _ _ _ _ d] have "\<not> mlog_ok rd_pool l2" by (simp add: demo_parse_bare)
  with d show "\<exists>l'. handleTcpRx demo_net rd_pool demo_timer 1 (7, []) ([], demo_server) = Inr (l', demo_server) \<and>
      \<not> mlog_ok rd_pool l'" by blast
qed

text \<open>
  Property (C10). From the wire no client ever gets beyond SYN\_SENT: starting from a context whose
  clients are all half-open (an empty one for instance), any packets and timers leave every client in
  SYN\_SENT and remove none, because the parser drops the ACK flag that the handler waits for. The
  table only ever grows.
\<close>

theorem wire_never_established:
  assumes "half_open st" and "run_all (wire_step net rd api thr) st evs = Inr st'"
  shows "half_open st' \<and> (\<forall>k c. conns (snd st) k = Some c \<longrightarrow> conns (snd st') k = Some c) \<and>
    (\<forall>k c. conns (snd st') k = Some c \<longrightarrow> fst c = TCP_STATE_SYN_SENT)"
proof -
  have ho: "half_open st'" by (rule wire.run_inv [OF assms])
  have "\<forall>k c. conns (snd st) k = Some c \<longrightarrow> conns (snd st') k = Some c" using assms
  proof (induction evs arbitrary: st)
    case (Cons ev evs)
    then obtain st1 where s: "wire_step net rd api thr st ev = Inr st1"
      "run_all (wire_step net rd api thr) st1 evs = Inr st'" by (auto simp: fault_simps)
    from wire_step_half_open [OF Cons.prems(1) s(1)] Cons.IH [OF _ s(2)] show ?case by blast
  qed simp
  with ho show ?thesis by (simp add: half_open_conns)
qed

theorem wire_never_established_witness:
  "\<exists>st st'. conns (snd st) = [demo_client \<mapsto> (TCP_STATE_SYN_SENT, 78)] \<and>
     run_all (wire_step demo_net rd_pool demo_timer 1) st [WirePkt (8, [demo_seg 9 16 78 []])] = Inr st' \<and>
     conns (snd st') demo_client = Some (TCP_STATE_SYN_SENT, 78)"
proof -
  obtain s :: "(u64 \<times> u64) option tcpImpl" where s: "tcp_inv s" "listen s = listen demo_server"
    "conns s = [demo_client \<mapsto> (TCP_STATE_SYN_SENT, 78)]"
    using demo_wire_syn by blast
  have ho: "half_open ([], s)" using s by (auto simp: half_open_conns split: if_splits)
  have h: "sport (demo_header 9 16 78) = Some 9" "seqno (demo_header 9 16 78) = Some 78"
      "demo_client = makeClientId (saddr4 (ipHeader (demo_header 9 16 78))) 9"
    by (simp_all add: demo_header_def demo_client_def)
  have some: "clients s demo_client \<noteq> None" using fun_cong [OF s(3), of demo_client] by (auto simp: conns_def)
  obtain s' where s': "tcp_step demo_timer 1 s (EvRx (demo_header 9 16 78)) = Inr s'"
    using tcp_packet_known [OF s(1) demo_timer_documented h, of 1] some by auto
  have "tcp_parse demo_net (tcb_clientId (listen s)) [demo_seg 9 16 78 []] =
      Inr (Some (demo_header 9 16 78, (itr_new [demo_seg 9 16 78 []])\<lparr>itr_offset := 54\<rparr>))"
    by (simp add: s(2) demo_parse_bare)
  from handleTcpRx_step [OF s(1) this s', of rd_pool 8 "[]"]
  have r: "run_all (wire_step demo_net rd_pool demo_timer 1) ([], s) [WirePkt (8, [demo_seg 9 16 78 []])] =
      Inr (hand_over rd_pool \<lparr>ab_data = Some 8\<rparr> [], s')" by simp
  have "conns (snd ([] :: mlog, s)) demo_client = Some (TCP_STATE_SYN_SENT, 78)" using s(3) by simp
  with wire_never_established [OF ho r] have "conns s' demo_client = Some (TCP_STATE_SYN_SENT, 78)" by auto
  with s(3) r show ?thesis
    by (intro exI [of _ "([], s)"] exI [of _ "(hand_over rd_pool \<lparr>ab_data = Some 8\<rparr> [], s')"]) simp
qed

end
