(* ===== verification/Arr.thy ===== *)
theory Arr
  imports Prelude
begin

text \<open>
  \<^verbatim>\<open>Arr\<close> of \<^verbatim>\<open>core/buffer.hxx\<close>: a fixed array with a count of the elements in use. The
  capacity is the length of the array. \<^verbatim>\<open>begin\<close> and \<^verbatim>\<open>end\<close> delimit the elements in use,
  \<open>arr_list\<close>; a reference returned by \<^verbatim>\<open>back\<close> is the index of its element.
\<close>

record 'a Arr =
  arr_data :: "'a list"
  arr_cnt :: nat

definition arr_new :: "'a list \<Rightarrow> 'a Arr" where
  "arr_new dat = \<lparr>arr_data = dat, arr_cnt = 0\<rparr>"

definition arr_list :: "'a Arr \<Rightarrow> 'a list" where
  "arr_list a = take (arr_cnt a) (arr_data a)"

definition arr_push_back :: "'a Arr \<Rightarrow> 'a \<Rightarrow> fault + 'a Arr" where
  "arr_push_back a given =
     bindR (assertR (arr_cnt a < length (arr_data a))) (\<lambda>_.
       Inr \<lparr>arr_data = (arr_data a)[arr_cnt a := given], arr_cnt = arr_cnt a + 1\<rparr>)"

definition arr_emplace :: "'a Arr \<Rightarrow> 'a \<Rightarrow> fault + 'a Arr" where
  "arr_emplace a given =
     bindR (assertR (arr_cnt a < length (arr_data a))) (\<lambda>_.
       Inr \<lparr>arr_data = (arr_data a)[arr_cnt a := given], arr_cnt = arr_cnt a + 1\<rparr>)"

definition arr_back :: "'a Arr \<Rightarrow> nat \<Rightarrow> fault + nat" where
  "arr_back a ridx =
     bindR (assertR (arr_cnt a > ridx \<and> arr_cnt a < length (arr_data a))) (\<lambda>_.
       Inr (arr_cnt a - 1 - ridx))"

definition arr_index :: "'a Arr \<Rightarrow> nat \<Rightarrow> fault + 'a" where
  "arr_index a idx =
     bindR (assertR (arr_cnt a > idx)) (\<lambda>_.
       if idx < length (arr_data a) then Inr (arr_data a ! idx) else Inl OutOfBounds)"

definition arr_empty :: "'a Arr \<Rightarrow> bool" where
  "arr_empty a = (0 = arr_cnt a)"

definition arr_size :: "'a Arr \<Rightarrow> nat" where
  "arr_size a = arr_cnt a"

text \<open>Writing through a reference into the array.\<close>

definition arr_update :: "'a Arr \<Rightarrow> nat \<Rightarrow> ('a \<Rightarrow> 'a) \<Rightarrow> 'a Arr" where
  "arr_update a i f = a\<lparr>arr_data := (arr_data a)[i := f (arr_data a ! i)]\<rparr>"

definition arr_inv :: "'a Arr \<Rightarrow> bool" where
  "arr_inv a \<longleftrightarrow> arr_cnt a \<le> length (arr_data a)"

lemma arr_push_back_ok:
  assumes "arr_push_back a x = Inr a'"
  shows "arr_inv a' \<and> arr_list a' = arr_list a @ [x] \<and> length (arr_data a') = length (arr_data a) \<and>
    arr_cnt a' = Suc (arr_cnt a)"
  using assms by (auto simp: arr_push_back_def fault_simps arr_inv_def arr_list_def take_Suc_nth)

lemma arr_back_ok: "arr_back a r = Inr i \<longleftrightarrow> r < arr_cnt a \<and> arr_cnt a < length (arr_data a) \<and> i = arr_cnt a - 1 - r"
  by (auto simp: arr_back_def fault_simps)

section \<open>Properties\<close>

text \<open>
  \<^verbatim>\<open>push_back\<close> and \<^verbatim>\<open>emplace\<close> append while there is room and stop the
  process otherwise; an element in use is read back by its index, one that is not fails the
  assertion; and \<^verbatim>\<open>back\<close> of the element just appended is refused exactly when it filled the array.
\<close>

theorem arr_push_back_spec:
  assumes "arr_inv a"
  shows "(case arr_push_back a x of
      Inr a' \<Rightarrow> arr_cnt a < length (arr_data a) \<and> arr_inv a' \<and> arr_list a' = arr_list a @ [x] \<and>
        arr_index a' (arr_cnt a) = Inr x \<and> arr_index a' (arr_size a') = Inl AssertFailed \<and>
        (arr_back a' 0 = Inl AssertFailed \<longleftrightarrow> arr_size a' = length (arr_data a'))
    | Inl e \<Rightarrow> e = AssertFailed \<and> arr_cnt a = length (arr_data a)) \<and>
    arr_emplace a x = arr_push_back a x"
proof (cases "arr_cnt a < length (arr_data a)")
  case True
  then obtain a' where a': "arr_push_back a x = Inr a'"
    and d: "a' = \<lparr>arr_data = (arr_data a)[arr_cnt a := x], arr_cnt = arr_cnt a + 1\<rparr>"
    by (auto simp: arr_push_back_def)
  with True arr_push_back_ok [OF a'] show ?thesis
    by (auto simp: arr_index_def arr_size_def arr_back_def arr_emplace_def assertR_def split: if_splits)
next
  case False
  with assms show ?thesis by (simp add: arr_push_back_def arr_emplace_def arr_inv_def)
qed

theorem arr_push_back_spec_witness:
  "arr_push_back \<lparr>arr_data = [7, 8 :: nat], arr_cnt = 1\<rparr> 9 = Inr \<lparr>arr_data = [7, 9], arr_cnt = 2\<rparr> \<and>
   arr_back \<lparr>arr_data = [7, 9 :: nat], arr_cnt = 2\<rparr> 0 = Inl AssertFailed"
proof -
  have "arr_inv \<lparr>arr_data = [7, 8 :: nat], arr_cnt = 1\<rparr>" by (simp add: arr_inv_def)
  moreover have p: "arr_push_back \<lparr>arr_data = [7, 8 :: nat], arr_cnt = 1\<rparr> 9 =
      Inr \<lparr>arr_data = [7, 9], arr_cnt = 2\<rparr>" by code_simp
  ultimately show ?thesis
    using arr_push_back_spec [of "\<lparr>arr_data = [7, 8 :: nat], arr_cnt = 1\<rparr>" 9]
    unfolding p by (simp add: arr_size_def)
qed

end
