(* ===== verification/Reactor.thy ===== *)
theory Reactor
  imports TcpRx Arr
begin

text \<open>
  The reactor: the threads, their queues, ports and services, the receive loop and the posting of
  messages (\<^verbatim>\<open>core/plugin.cc\<close>, \<^verbatim>\<open>core/reactor.hxx\<close>, \<^verbatim>\<open>core/plugin.h\<close>), and the start of
  the application (\<^verbatim>\<open>main.cc\<close>). A thread runs every event to its end on its own objects;
  \<open>thr\<close> is its \<^verbatim>\<open>g_this_threadId\<close>. What DPDK delivers (received packets, clock readings, return
  codes) is an argument of the operations.
\<close>

section \<open>Messages between threads\<close>

type_synonym u4 = "4 word"

record MsgHeader =
  srcThd :: u4
  srcSvc :: u4
  dstThd :: u4
  dstSvc :: u4

text \<open>The packed bit fields: the first of two fields is in the low half of its byte.\<close>

definition msg_bytes :: "MsgHeader \<Rightarrow> u8 list" where
  "msg_bytes h = [ucast (srcThd h) OR push_bit 4 (ucast (srcSvc h)),
                  ucast (dstThd h) OR push_bit 4 (ucast (dstSvc h))]"

definition msg_of_bytes :: "u8 list \<Rightarrow> MsgHeader" where
  "msg_of_bytes bs = \<lparr>srcThd = ucast (bs ! 0), srcSvc = ucast (drop_bit 4 (bs ! 0)),
                      dstThd = ucast (bs ! 1), dstSvc = ucast (drop_bit 4 (bs ! 1))\<rparr>"

section \<open>Threads\<close>

definition MAX_SERVICES :: nat where "MAX_SERVICES = 16"
definition MAX_THREADS :: nat where "MAX_THREADS = 8"
definition THREAD_MSGQ_SIZE :: nat where "THREAD_MSGQ_SIZE = 64"
definition MAX_PKT_BURST :: nat where "MAX_PKT_BURST = 128"
definition MAX_RX_QUEUE_PER_LCORE :: nat where "MAX_RX_QUEUE_PER_LCORE = 16"
definition BURST_TX_DRAIN_US :: u64 where "BURST_TX_DRAIN_US = 100"
definition SERVICE_PROTO_TCP :: nat where "SERVICE_PROTO_TCP = 2"

lemmas size_defs = MAX_SERVICES_def MAX_THREADS_def THREAD_MSGQ_SIZE_def MAX_PKT_BURST_def
  MAX_RX_QUEUE_PER_LCORE_def SERVICE_PROTO_TCP_def

record PortInfo =
  portId :: u32
  port_tx :: u64
  port_rx :: u64
  dropped :: u64
  tx_buffer :: "nat option"

definition port_new :: "u32 \<Rightarrow> PortInfo" where
  "port_new givenPort = \<lparr>portId = givenPort, port_tx = 0, port_rx = 0, dropped = 0, tx_buffer = None\<rparr>"

text \<open>The service functions that occur; the first is an empty \<^verbatim>\<open>std::function\<close>.\<close>

datatype reactor = EmptyReactor | NoneReactor | TcpReactor

record internal_thread =
  mbuf_mpsc :: "packet option bus_mp_sc"
  portList :: "PortInfo Arr"
  pkts_burst :: "packet option Arr"
  srv :: "reactor list"
  enabled :: bool
  prev_tsc :: u64
  drain_tsc :: u64

text \<open>An element of the static array \<^verbatim>\<open>g_threads\<close>.\<close>

definition thread_new :: internal_thread where
  "thread_new =
     \<lparr>mbuf_mpsc = bus_new (replicate THREAD_MSGQ_SIZE None),
      portList = arr_new (replicate MAX_RX_QUEUE_PER_LCORE (port_new 0)),
      pkts_burst = arr_new (replicate MAX_PKT_BURST None),
      srv = replicate MAX_SERVICES EmptyReactor,
      enabled = False, prev_tsc = 0, drain_tsc = 0\<rparr>"

definition thread_init :: "internal_thread \<Rightarrow> int \<times> internal_thread" where
  "thread_init self =
     (if enabled self then (0, self)
      else (0, self\<lparr>srv := replicate MAX_SERVICES NoneReactor, enabled := True\<rparr>))"

definition thread_deinit :: "internal_thread \<Rightarrow> int \<times> internal_thread" where
  "thread_deinit self = (0, self)"

text \<open>
  \<^verbatim>\<open>~internal_thread\<close>, at the exit of the process; \<^verbatim>\<open>main\<close> has called
  \<^verbatim>\<open>deinit\<close> before.
\<close>

definition thread_destroy :: "internal_thread \<Rightarrow> internal_thread" where
  "thread_destroy self = snd (thread_deinit self)"

text \<open>
  \<^verbatim>\<open>addPort\<close>, with the results of \<^verbatim>\<open>rte_zmalloc_socket\<close> and of
  \<^verbatim>\<open>rte_eth_tx_buffer_set_err_callback\<close>.
\<close>

definition addPort :: "nat option \<Rightarrow> int \<Rightarrow> u32 \<Rightarrow> internal_thread \<Rightarrow> fault + internal_thread" where
  "addPort zmalloc set_cb port self =
     bindR (arr_push_back (portList self) (port_new port)) (\<lambda>pl.
       if zmalloc = None then Inl Panic
       else bindR (arr_back pl 0) (\<lambda>_.
         if set_cb < 0 then Inl Panic
         else bindR (arr_back pl 0) (\<lambda>i.
           Inr (self\<lparr>portList := arr_update pl i (\<lambda>p. p\<lparr>tx_buffer := zmalloc\<rparr>)\<rparr>))))"

section \<open>The whole program\<close>

record 't world =
  g_threads :: "internal_thread list"
  gl_tcpCtxt :: "'t tcpImpl list"
  mb_log :: mlog

definition world_new :: "'t timer_api \<Rightarrow> 't world" where
  "world_new api = \<lparr>g_threads = replicate MAX_THREADS thread_new,
     gl_tcpCtxt = replicate MAX_THREADS (tcpImpl_new api), mb_log = []\<rparr>"

text \<open>The services of DPDK the receive path uses.\<close>

record 't env =
  e_net :: net_api
  e_rd :: refcnt_fun
  e_tmr :: "'t timer_api"
  rte_pktmbuf_prepend :: "rte_mbuf_seg list \<Rightarrow> u16 \<Rightarrow> rte_mbuf_seg list option"

definition thread_at :: "nat \<Rightarrow> 't world \<Rightarrow> fault + internal_thread" where
  "thread_at i w = (if i < length (g_threads w) then Inr (g_threads w ! i) else Inl OutOfBounds)"

definition set_thread :: "nat \<Rightarrow> internal_thread \<Rightarrow> 't world \<Rightarrow> 't world" where
  "set_thread i t w = w\<lparr>g_threads := (g_threads w)[i := t]\<rparr>"

definition set_service :: "nat \<Rightarrow> reactor \<Rightarrow> internal_thread \<Rightarrow> fault + internal_thread" where
  "set_service svcId r t =
     (if svcId < length (srv t) then Inr (t\<lparr>srv := (srv t)[svcId := r]\<rparr>) else Inl OutOfBounds)"

text \<open>\<^verbatim>\<open>setServiceReactor\<close>: the threads in order.\<close>

fun set_services :: "nat \<Rightarrow> reactor \<Rightarrow> internal_thread list \<Rightarrow> fault + internal_thread list" where
  "set_services svcId r [] = Inr []"
| "set_services svcId r (t # ts) =
     bindR (set_service svcId r t) (\<lambda>t1. bindR (set_services svcId r ts) (\<lambda>ts1. Inr (t1 # ts1)))"

definition setServiceReactor :: "nat \<Rightarrow> reactor \<Rightarrow> 't world \<Rightarrow> fault + 't world" where
  "setServiceReactor svcId r w =
     bindR (set_services svcId r (g_threads w)) (\<lambda>ts. Inr (w\<lparr>g_threads := ts\<rparr>))"

definition tcp_init :: "'t world \<Rightarrow> fault + (int \<times> 't world)" where
  "tcp_init w = bindR (setServiceReactor SERVICE_PROTO_TCP TcpReactor w) (\<lambda>w1. Inr (0, w1))"

definition tcp_deinit :: "'t world \<Rightarrow> int \<times> 't world" where
  "tcp_deinit w = (0, w)"

section \<open>Posting\<close>

text \<open>A call of a service on the thread \<open>thr\<close>.\<close>

definition call_reactor ::
  "'t env \<Rightarrow> nat \<Rightarrow> reactor \<Rightarrow> int \<Rightarrow> packet \<Rightarrow> 't world \<Rightarrow> fault + (int \<times> 't world)" where
  "call_reactor env thr r msgId pkt w =
     (case r of
        EmptyReactor \<Rightarrow> Inl BadCall
      | NoneReactor \<Rightarrow> Inr (-1, w)
      | TcpReactor \<Rightarrow>
          if thr < length (gl_tcpCtxt w) then
            bindR (TCP_REACTOR (e_net env) (e_rd env) (e_tmr env) (int thr) msgId pkt
                (mb_log w, gl_tcpCtxt w ! thr)) (\<lambda>(ret, l, self).
              Inr (ret, w\<lparr>mb_log := l, gl_tcpCtxt := (gl_tcpCtxt w)[thr := self]\<rparr>))
          else Inl OutOfBounds)"

text \<open>\<^verbatim>\<open>memcpy\<close> to the front of a buffer.\<close>

definition write_front :: "u8 list \<Rightarrow> rte_mbuf_seg list \<Rightarrow> fault + rte_mbuf_seg list" where
  "write_front bs m =
     (case m of
        [] \<Rightarrow> Inl NullDeref
      | s # rest \<Rightarrow>
          if length bs \<le> length (seg_mem s)
          then Inr (s\<lparr>seg_mem := bs @ drop (length bs) (seg_mem s)\<rparr> # rest) else Inl OutOfBounds)"

text \<open>
  \<^verbatim>\<open>reactorPost\<close>; its callers pass a packet, never a null pointer. On the own thread the service
  is called and the packet freed; for another thread the message header is put in front of the packet
  and the packet into the queue of that thread (\<open>-1\<close> when it is full).
\<close>

definition reactorPost ::
  "'t env \<Rightarrow> nat \<Rightarrow> nat \<Rightarrow> nat \<Rightarrow> nat \<Rightarrow> int \<Rightarrow> packet \<Rightarrow> 't world \<Rightarrow> fault + (int \<times> 't world)" where
  "reactorPost env thr targetThread dst_svc src_svc msgId pkt w =
     (if targetThread = thr then
        bindR (thread_at thr w) (\<lambda>t.
          if dst_svc < length (srv t) then
            bindR (call_reactor env thr (srv t ! dst_svc) msgId pkt w) (\<lambda>(ret, w1).
              Inr (ret, w1\<lparr>mb_log := McFree (fst pkt) # mb_log w1\<rparr>))
          else Inl OutOfBounds)
      else
        let header = \<lparr>srcThd = of_nat thr, srcSvc = of_nat src_svc,
              dstThd = of_nat targetThread, dstSvc = of_nat dst_svc\<rparr>;
            m = rte_pktmbuf_prepend env (snd pkt) (of_nat (length (msg_bytes header))) in
        bindR (assertR (m \<noteq> None)) (\<lambda>_. bindR (write_front (msg_bytes header) (the m)) (\<lambda>m1.
          bindR (thread_at targetThread w) (\<lambda>t.
            bindR (bus_push (mbuf_mpsc t) (Some (fst pkt, m1))) (\<lambda>(ret, q).
              Inr (ret, set_thread targetThread (t\<lparr>mbuf_mpsc := q\<rparr>) w))))))"

section \<open>Receiving\<close>

definition processRx ::
  "'t env \<Rightarrow> nat \<Rightarrow> packet \<Rightarrow> u32 \<Rightarrow> 't world \<Rightarrow> fault + 't world" where
  "processRx env thr pkt port w =
     (let (p, m) = pkt; cb = rte_cb (e_rd env);
          (rbuf, l1) = autobuf_own cb autobuf_new (Some p) (mb_log w);
          drop_pkt = Inr (w\<lparr>mb_log := autobuf_destroy cb rbuf l1\<rparr>) in
      bindR (rx_ip_header (e_net env) m) (\<lambda>r.
        case r of
          None \<Rightarrow> drop_pkt
        | Some (reader, iphdr) \<Rightarrow>
            bindR (load8 iphdr (off_version_ihl (e_net env))) (\<lambda>vihl.
              let ipversion = drop_bit 4 (0xF0 AND vihl) in
              if ipversion \<noteq> 4 then drop_pkt
              else bindR (load8 iphdr (off_next_proto_id (e_net env))) (\<lambda>proto.
                if proto = 6 then
                  let (raw, rbuf1) = autobuf_release rbuf in
                  bindR (reactorPost env thr (thr mod 256) SERVICE_PROTO_TCP SERVICE_PROTO_TCP MSG_TCP_RX
                      (the raw, m) (w\<lparr>mb_log := l1\<rparr>)) (\<lambda>(_, w1).
                    Inr (w1\<lparr>mb_log := autobuf_destroy cb rbuf1 (mb_log w1)\<rparr>))
                else
                  Inr (w\<lparr>mb_log := autobuf_destroy cb rbuf (McFree p # l1)\<rparr>)))))"

text \<open>The packets of a burst, in the order of the array.\<close>

fun process_burst :: "'t env \<Rightarrow> nat \<Rightarrow> u32 \<Rightarrow> packet option list \<Rightarrow> 't world \<Rightarrow> fault + 't world" where
  "process_burst env thr port [] w = Inr w"
| "process_burst env thr port (x # xs) w =
     (case x of
        None \<Rightarrow> Inl NullDeref
      | Some pkt \<Rightarrow> bindR (processRx env thr pkt port w) (\<lambda>w1. process_burst env thr port xs w1))"

text \<open>The flush of the transmit buffers; \<open>flush\<close> has the packets sent on each port.\<close>

fun flush_ports :: "(nat \<Rightarrow> u16) \<Rightarrow> nat \<Rightarrow> PortInfo list \<Rightarrow> fault + PortInfo list" where
  "flush_ports flush i [] = Inr []"
| "flush_ports flush i (p # ps) =
     bindR (assertR (tx_buffer p \<noteq> None)) (\<lambda>_.
       let sent = flush i;
           p1 = (if sent \<noteq> 0 then p\<lparr>port_tx := port_tx p + ucast sent\<rparr> else p) in
       bindR (flush_ports flush (Suc i) ps) (\<lambda>ps1. Inr (p1 # ps1)))"

definition set_ports :: "PortInfo list \<Rightarrow> internal_thread \<Rightarrow> internal_thread" where
  "set_ports ps t =
     t\<lparr>portList := (portList t)\<lparr>arr_data := ps @ drop (length ps) (arr_data (portList t))\<rparr>\<rparr>"

text \<open>
  \<^verbatim>\<open>rte_eth_rx_burst\<close> fills the front of the array (never more than it was offered) and the
  count is set to the number of packets.
\<close>

definition store_burst :: "packet list \<Rightarrow> packet option Arr \<Rightarrow> fault + packet option Arr" where
  "store_burst ps a =
     (if length ps \<le> length (arr_data a)
      then Inr \<lparr>arr_data = map Some ps @ drop (length ps) (arr_data a), arr_cnt = length ps\<rparr>
      else Inl OutOfBounds)"

fun rx_ports :: "'t env \<Rightarrow> nat \<Rightarrow> (nat \<Rightarrow> packet list) \<Rightarrow> nat \<Rightarrow> nat \<Rightarrow> 't world \<Rightarrow> fault + 't world" where
  "rx_ports env thr rx i 0 w = Inr w"
| "rx_ports env thr rx i (Suc n) w =
     bindR (thread_at thr w) (\<lambda>t.
       let port = portId (arr_data (portList t) ! i);
           pl = arr_update (portList t) i (\<lambda>p. p\<lparr>port_rx := port_rx p + of_nat (length (rx i))\<rparr>) in
       bindR (store_burst (rx i) (pkts_burst t)) (\<lambda>burst.
         bindR (process_burst env thr port (arr_list burst)
             (set_thread thr (t\<lparr>portList := pl, pkts_burst := burst\<rparr>) w)) (\<lambda>w1.
           rx_ports env thr rx (Suc i) n w1)))"

text \<open>One turn of the loop: clock reading, packets sent by the flush, packets received.\<close>

type_synonym turn = "u64 \<times> (nat \<Rightarrow> u16) \<times> (nat \<Rightarrow> packet list)"

definition txrxBurst :: "'t env \<Rightarrow> nat \<Rightarrow> turn \<Rightarrow> 't world \<Rightarrow> fault + 't world" where
  "txrxBurst env thr tn w =
     (let (cur_tsc, flush, rx) = tn in
      bindR (thread_at thr w) (\<lambda>t.
        let diff_tsc = cur_tsc - prev_tsc t in
        bindR (if diff_tsc > drain_tsc t
            then bindR (flush_ports flush 0 (arr_list (portList t))) (\<lambda>ps.
              Inr (set_thread thr ((set_ports ps t)\<lparr>prev_tsc := cur_tsc\<rparr>) w))
            else Inr w) (\<lambda>w1.
          rx_ports env thr rx 0 (arr_cnt (portList t)) w1)))"

text \<open>
  \<^verbatim>\<open>run\<close>: the turns are those until \<^verbatim>\<open>g_quit\<close> is set. \<open>tsc_hz\<close> is the clock rate
  (\<^verbatim>\<open>US_PER_S\<close> is a million).
\<close>

definition thread_run :: "'t env \<Rightarrow> nat \<Rightarrow> u64 \<Rightarrow> turn list \<Rightarrow> 't world \<Rightarrow> fault + (int \<times> 't world)" where
  "thread_run env thr tsc_hz turns w =
     bindR (thread_at thr w) (\<lambda>t.
       let t1 = t\<lparr>drain_tsc := (tsc_hz + 1000000 - 1) div 1000000 * BURST_TX_DRAIN_US\<rparr>;
           w1 = set_thread thr t1 w in
       if arr_empty (portList t1) then Inr (0, w1)
       else bindR (run_all (\<lambda>w tn. txrxBurst env thr tn w) w1 turns) (\<lambda>w2. Inr (0, w2)))"

text \<open>\<^verbatim>\<open>pm::run\<close> makes \<open>coreIdx\<close> the \<^verbatim>\<open>g_this_threadId\<close> of the thread.\<close>

definition pm_run :: "'t env \<Rightarrow> nat \<Rightarrow> u64 \<Rightarrow> turn list \<Rightarrow> 't world \<Rightarrow> fault + (int \<times> 't world)" where
  "pm_run env coreIdx tsc_hz turns w =
     bindR (thread_run env coreIdx tsc_hz turns w) (\<lambda>(_, w1). Inr (0, w1))"

end
