(* ===== verification/ReactorSpec.thy ===== *)
theory ReactorSpec
  imports Reactor
begin

text \<open>
  What the reactor keeps and does: the well-formedness of threads and contexts, that a thread touches
  only its own objects, the life of a packet buffer from the device to its free, the accounting of
  received packets, and posting to another thread.
\<close>

section \<open>Well-formedness\<close>

definition thread_ok :: "internal_thread \<Rightarrow> bool" where
  "thread_ok t \<longleftrightarrow>
     length (srv t) = MAX_SERVICES \<and>
     length (arr_data (portList t)) = MAX_RX_QUEUE_PER_LCORE \<and>
     arr_cnt (portList t) < MAX_RX_QUEUE_PER_LCORE \<and>
     (\<forall>p \<in> set (arr_list (portList t)). tx_buffer p \<noteq> None) \<and>
     length (arr_data (pkts_burst t)) = MAX_PKT_BURST \<and>
     bus_inv (mbuf_mpsc t) \<and> CAPACITY (mbuf_mpsc t) = THREAD_MSGQ_SIZE"

definition world_ok :: "'t world \<Rightarrow> bool" where
  "world_ok w \<longleftrightarrow>
     length (g_threads w) = MAX_THREADS \<and> length (gl_tcpCtxt w) = MAX_THREADS \<and>
     list_all thread_ok (g_threads w) \<and> list_all tcp_inv (gl_tcpCtxt w)"

lemma thread_new_ok: "thread_ok thread_new"
  by (simp add: thread_ok_def thread_new_def arr_new_def arr_list_def bus_inv_def bus_new_def CAPACITY_def
      size_defs)

lemma world_new_ok: "world_ok (world_new api)"
  by (simp add: world_ok_def world_new_def thread_new_ok tcp_inv_new MAX_THREADS_def list_all_iff)

lemma thread_at_eq [simp]: "i < length (g_threads w) \<Longrightarrow> thread_at i w = Inr (g_threads w ! i)"
  by (simp add: thread_at_def)

lemma set_thread_simps [simp]:
  "g_threads (set_thread i t w) = (g_threads w)[i := t]"
  "gl_tcpCtxt (set_thread i t w) = gl_tcpCtxt w" "mb_log (set_thread i t w) = mb_log w"
  by (simp_all add: set_thread_def)

lemma set_thread_ok: "world_ok w \<Longrightarrow> thread_ok t \<Longrightarrow> world_ok (set_thread i t w)"
  by (simp add: world_ok_def list_all_update)

section \<open>A service works on its own context\<close>

text \<open>
  Work for a packet on the thread \<open>thr\<close> leaves the contexts of the other threads as they are, and
  all thread objects.
\<close>

definition ctx_frame :: "nat \<Rightarrow> 't world \<Rightarrow> 't world \<Rightarrow> bool" where
  "ctx_frame thr w w' \<longleftrightarrow>
     length (gl_tcpCtxt w') = length (gl_tcpCtxt w) \<and>
     (\<forall>j. j \<noteq> thr \<longrightarrow> gl_tcpCtxt w' ! j = gl_tcpCtxt w ! j) \<and>
     (list_all tcp_inv (gl_tcpCtxt w) \<longrightarrow> list_all tcp_inv (gl_tcpCtxt w'))"

definition only_ctx :: "nat \<Rightarrow> 't world \<Rightarrow> 't world \<Rightarrow> bool" where
  "only_ctx thr w w' \<longleftrightarrow> g_threads w' = g_threads w \<and> ctx_frame thr w w'"

lemma ctx_frame_refl [simp]: "ctx_frame thr w w"
  by (simp add: ctx_frame_def)

lemma ctx_frame_simps [simp]:
  "ctx_frame thr w (w'\<lparr>mb_log := l\<rparr>) = ctx_frame thr w w'"
  "ctx_frame thr (w\<lparr>mb_log := l\<rparr>) w' = ctx_frame thr w w'"
  "ctx_frame thr w (set_thread i t w') = ctx_frame thr w w'"
  "ctx_frame thr (set_thread i t w) w' = ctx_frame thr w w'"
  by (simp_all add: ctx_frame_def)

lemma ctx_frame_trans: "ctx_frame thr w1 w2 \<Longrightarrow> ctx_frame thr w2 w3 \<Longrightarrow> ctx_frame thr w1 w3"
  by (simp add: ctx_frame_def)

lemma only_ctx_refl [simp]: "only_ctx thr w w"
  by (simp add: only_ctx_def)

lemma only_ctx_log [simp]: "only_ctx thr w (w'\<lparr>mb_log := l\<rparr>) = only_ctx thr w w'"
  "only_ctx thr (w\<lparr>mb_log := l\<rparr>) w' = only_ctx thr w w'"
  by (simp_all add: only_ctx_def)

lemma only_ctx_trans: "only_ctx thr w1 w2 \<Longrightarrow> only_ctx thr w2 w3 \<Longrightarrow> only_ctx thr w1 w3"
  unfolding only_ctx_def by (metis ctx_frame_trans)

lemma TCP_REACTOR_inv:
  assumes "tcp_inv self" and "TCP_REACTOR net rd api thr msgId pkt (l, self) = Inr (ret, l', self')"
  shows "tcp_inv self'"
proof -
  obtain p m where pkt: "pkt = (p, m)" by (cases pkt)
  show ?thesis
  proof (cases "msgId = MSG_TCP_RX")
    case False
    with assms show ?thesis by (simp add: TCP_REACTOR_def)
  next
    case True
    with assms(2) pkt have "handleTcpRx net rd api thr (p, m) (l, self) = Inr (l', self')"
      by (auto simp: TCP_REACTOR_def fault_simps)
    with assms(1) show ?thesis
    proof (cases rule: handleTcpRx_cases)
      case 1
      then show ?thesis using assms(1) by simp
    next
      case (2 h r)
      then show ?thesis using tcp_step_inv [OF assms(1)] by blast
    qed
  qed
qed

lemma call_reactor_frame:
  assumes "call_reactor env thr r msgId pkt w = Inr (ret, w')"
  shows "only_ctx thr w w'"
proof (cases r)
  case TcpReactor
  with assms obtain l self where t: "thr < length (gl_tcpCtxt w)"
    "TCP_REACTOR (e_net env) (e_rd env) (e_tmr env) (int thr) msgId pkt (mb_log w, gl_tcpCtxt w ! thr) =
      Inr (ret, l, self)" "w' = w\<lparr>mb_log := l, gl_tcpCtxt := (gl_tcpCtxt w)[thr := self]\<rparr>"
    by (auto simp: call_reactor_def fault_simps split: if_splits)
  have "tcp_inv self" if "list_all tcp_inv (gl_tcpCtxt w)"
    by (rule TCP_REACTOR_inv [OF _ t(2)]) (use that t(1) in \<open>simp add: list_all_length\<close>)
  with t(1,3) show ?thesis
    by (simp add: only_ctx_def ctx_frame_def list_all_update)
qed (use assms in \<open>auto simp: call_reactor_def\<close>)

lemma reactorPost_local_frame:
  assumes "reactorPost env thr thr dst src msgId pkt w = Inr (ret, w')"
  shows "only_ctx thr w w'"
  using assms call_reactor_frame [of env thr "srv (g_threads w ! thr) ! dst" msgId pkt w]
  by (auto simp: reactorPost_def thread_at_def fault_simps split: if_splits)

lemma processRx_frame:
  assumes "thr < 256" and "processRx env thr pkt port w = Inr w'"
  shows "only_ctx thr w w'"
proof -
  obtain p m where pkt: "pkt = (p, m)" by (cases pkt)
  show ?thesis
    using assms pkt
    by (auto simp: processRx_def fault_simps Let_def dest!: reactorPost_local_frame
        split: option.splits if_splits)
qed

lemma process_burst_frame:
  assumes "thr < 256" and "process_burst env thr port xs w = Inr w'"
  shows "only_ctx thr w w'"
  using assms(2)
proof (induction xs arbitrary: w)
  case (Cons x xs)
  then obtain pkt w1 where "processRx env thr pkt port w = Inr w1" "process_burst env thr port xs w1 = Inr w'"
    by (auto simp: fault_simps split: option.splits)
  then show ?case
    using Cons.IH processRx_frame [OF assms(1)] by (blast intro: only_ctx_trans)
qed simp

section \<open>One turn of the receive loop\<close>

lemma flush_ports_spec:
  "\<forall>p \<in> set ps. tx_buffer p \<noteq> None \<Longrightarrow>
     \<exists>ps1. flush_ports flush i ps = Inr ps1 \<and> length ps1 = length ps \<and>
       (\<forall>j < length ps. ps1 ! j = (ps ! j)\<lparr>port_tx := port_tx (ps ! j) + ucast (flush (i + j))\<rparr>)"
proof (induction ps arbitrary: i)
  case (Cons p ps)
  then obtain ps1 where "flush_ports flush (Suc i) ps = Inr ps1" "length ps1 = length ps"
    "\<forall>j < length ps. ps1 ! j = (ps ! j)\<lparr>port_tx := port_tx (ps ! j) + ucast (flush (Suc i + j))\<rparr>"
    by (metis list.set_intros(2))
  with Cons.prems show ?case by (auto simp: Let_def nth_Cons split: nat.split)
qed simp

text \<open>The ports of a thread after packets were counted on those from \<open>i\<close> on.\<close>

definition counted :: "(nat \<Rightarrow> packet list) \<Rightarrow> nat \<Rightarrow> nat \<Rightarrow> PortInfo list \<Rightarrow> PortInfo list \<Rightarrow> bool" where
  "counted rx i n ps ps' \<longleftrightarrow>
     length ps' = length ps \<and>
     (\<forall>j < length ps. ps' ! j =
        (if i \<le> j \<and> j < i + n then (ps ! j)\<lparr>port_rx := port_rx (ps ! j) + of_nat (length (rx j))\<rparr> else ps ! j))"

lemma rx_ports_spec:
  assumes "thr < 256" and "rx_ports env thr rx i n w = Inr w'" and "thr < length (g_threads w)"
    and "i + n \<le> length (arr_data (portList (g_threads w ! thr)))"
    and "length (arr_data (pkts_burst (g_threads w ! thr))) = b"
  shows "\<exists>t'. g_threads w' = (g_threads w)[thr := t'] \<and>
    counted rx i n (arr_data (portList (g_threads w ! thr))) (arr_data (portList t')) \<and>
    arr_cnt (portList t') = arr_cnt (portList (g_threads w ! thr)) \<and>
    srv t' = srv (g_threads w ! thr) \<and> mbuf_mpsc t' = mbuf_mpsc (g_threads w ! thr) \<and>
    length (arr_data (pkts_burst t')) = b \<and> drain_tsc t' = drain_tsc (g_threads w ! thr) \<and>
    prev_tsc t' = prev_tsc (g_threads w ! thr) \<and> enabled t' = enabled (g_threads w ! thr)"
  using assms(2-)
proof (induction n arbitrary: i w)
  case 0
  then show ?case by (intro exI [of _ "g_threads w ! thr"]) (auto simp: counted_def)
next
  case (Suc n)
  let ?t = "g_threads w ! thr"
  let ?pl = "arr_update (portList ?t) i (\<lambda>p. p\<lparr>port_rx := port_rx p + of_nat (length (rx i))\<rparr>)"
  from Suc.prems obtain burst w1 where s: "store_burst (rx i) (pkts_burst ?t) = Inr burst"
    "process_burst env thr (portId (arr_data (portList ?t) ! i)) (arr_list burst)
       (set_thread thr (?t\<lparr>portList := ?pl, pkts_burst := burst\<rparr>) w) = Inr w1"
    "rx_ports env thr rx (Suc i) n w1 = Inr w'"
    by (auto simp: fault_simps Let_def)
  let ?t1 = "?t\<lparr>portList := ?pl, pkts_burst := burst\<rparr>"
  have b: "length (arr_data burst) = b" using s(1) Suc.prems(4) by (auto simp: store_burst_def split: if_splits)
  have g: "g_threads w1 = (g_threads w)[thr := ?t1]"
    using process_burst_frame [OF assms(1) s(2)] by (simp add: only_ctx_def)
  then have t1: "g_threads w1 ! thr = ?t1" using Suc.prems(2) by simp
  have ih: "thr < length (g_threads w1)" "Suc i + n \<le> length (arr_data (portList (g_threads w1 ! thr)))"
    "length (arr_data (pkts_burst (g_threads w1 ! thr))) = b"
    using g t1 Suc.prems b by (simp_all add: arr_update_def)
  obtain t' where t': "g_threads w' = (g_threads w1)[thr := t']"
    "counted rx (Suc i) n (arr_data ?pl) (arr_data (portList t'))"
    "arr_cnt (portList t') = arr_cnt ?pl" "srv t' = srv ?t" "mbuf_mpsc t' = mbuf_mpsc ?t"
    "length (arr_data (pkts_burst t')) = b" "drain_tsc t' = drain_tsc ?t" "prev_tsc t' = prev_tsc ?t"
    "enabled t' = enabled ?t"
    using Suc.IH [OF s(3) ih] unfolding t1 by auto
  have "counted rx i (Suc n) (arr_data (portList ?t)) (arr_data (portList t'))"
    using t'(2) Suc.prems(3) by (auto simp: counted_def arr_update_def nth_list_update)
  with t' g show ?case by (intro exI [of _ t']) (simp add: arr_update_def)
qed

lemma rx_ports_ctx:
  assumes "thr < 256" and "rx_ports env thr rx i n w = Inr w'"
  shows "ctx_frame thr w w'"
  using assms(2)
proof (induction n arbitrary: i w)
  case (Suc n)
  then obtain t burst pt w1 where "process_burst env thr pt (arr_list burst) (set_thread thr t w) = Inr w1"
    "rx_ports env thr rx (Suc i) n w1 = Inr w'"
    by (auto simp: fault_simps Let_def)
  then show ?case
    using Suc.IH process_burst_frame [OF assms(1), of env _ "arr_list burst" "set_thread thr t w" w1]
    by (auto simp: only_ctx_def intro: ctx_frame_trans)
qed simp

lemma rx_ports_idle:
  "thr < length (g_threads w) \<Longrightarrow> \<forall>j. rx j = [] \<Longrightarrow> \<exists>w'. rx_ports env thr rx i n w = Inr w'"
  by (induction n arbitrary: i w) (auto simp: Let_def store_burst_def arr_list_def)

text \<open>The thread at the start of the receive half of a turn.\<close>

definition flushed :: "u64 \<Rightarrow> (nat \<Rightarrow> u16) \<Rightarrow> internal_thread \<Rightarrow> internal_thread" where
  "flushed tsc flush t =
     (if tsc - prev_tsc t > drain_tsc t
      then (set_ports (map (\<lambda>j. (arr_list (portList t) ! j)\<lparr>port_tx :=
               port_tx (arr_list (portList t) ! j) + ucast (flush j)\<rparr>) [0..<arr_cnt (portList t)]) t)\<lparr>prev_tsc := tsc\<rparr>
      else t)"

lemma arr_list_length: "arr_cnt a \<le> length (arr_data a) \<Longrightarrow> length (arr_list a) = arr_cnt a"
  by (simp add: arr_list_def)

lemma txrxBurst_flushed:
  assumes "thread_ok (g_threads w ! thr)" and "thr < length (g_threads w)"
  shows "txrxBurst env thr (tsc, flush, rx) w =
    rx_ports env thr rx 0 (arr_cnt (portList (g_threads w ! thr)))
      (set_thread thr (flushed tsc flush (g_threads w ! thr)) w)"
proof -
  let ?t = "g_threads w ! thr" and ?n = "arr_cnt (portList (g_threads w ! thr))"
  have len: "length (arr_list (portList ?t)) = ?n"
    using assms(1) by (simp add: thread_ok_def arr_list_length)
  have "\<forall>p \<in> set (arr_list (portList ?t)). tx_buffer p \<noteq> None" using assms(1) by (simp add: thread_ok_def)
  from flush_ports_spec [OF this, of flush 0] obtain ps where ps: "flush_ports flush 0 (arr_list (portList ?t)) = Inr ps"
    "length ps = ?n"
    "\<forall>j < ?n. ps ! j = (arr_list (portList ?t) ! j)\<lparr>port_tx := port_tx (arr_list (portList ?t) ! j) + ucast (flush j)\<rparr>"
    using len by auto
  have "ps = map (\<lambda>j. (arr_list (portList ?t) ! j)\<lparr>port_tx :=
      port_tx (arr_list (portList ?t) ! j) + ucast (flush j)\<rparr>) [0..<?n]"
    by (rule nth_equalityI) (use ps in auto)
  moreover have same: "set_thread thr (g_threads w ! thr) w = w" by (simp add: set_thread_def)
  ultimately show ?thesis using assms(2) ps(1) by (simp add: txrxBurst_def flushed_def same)
qed

lemma flushed_simps [simp]:
  "arr_cnt (portList (flushed tsc flush t)) = arr_cnt (portList t)"
  "srv (flushed tsc flush t) = srv t" "pkts_burst (flushed tsc flush t) = pkts_burst t"
  "mbuf_mpsc (flushed tsc flush t) = mbuf_mpsc t" "drain_tsc (flushed tsc flush t) = drain_tsc t"
  "enabled (flushed tsc flush t) = enabled t"
  "prev_tsc (flushed tsc flush t) = (if tsc - prev_tsc t > drain_tsc t then tsc else prev_tsc t)"
  by (simp_all add: flushed_def set_ports_def)

lemma flushed_ports:
  assumes "arr_cnt (portList t) \<le> length (arr_data (portList t))" and "i < arr_cnt (portList t)"
  shows "length (arr_data (portList (flushed tsc flush t))) = length (arr_data (portList t))"
    and "arr_data (portList (flushed tsc flush t)) ! i = (arr_data (portList t) ! i)\<lparr>port_tx :=
      port_tx (arr_data (portList t) ! i) + (if tsc - prev_tsc t > drain_tsc t then ucast (flush i) else 0)\<rparr>"
  using assms by (simp_all add: flushed_def set_ports_def arr_list_def nth_append)

lemma txrxBurst_result:
  assumes ok: "world_ok w" and thr: "thr < MAX_THREADS" and res: "txrxBurst env thr (tsc, flush, rx) w = Inr w'"
  shows "\<exists>t'. g_threads w' = (g_threads w)[thr := t'] \<and> ctx_frame thr w w' \<and> thread_ok t' \<and>
    arr_cnt (portList t') = arr_cnt (portList (g_threads w ! thr)) \<and>
    mbuf_mpsc t' = mbuf_mpsc (g_threads w ! thr) \<and> srv t' = srv (g_threads w ! thr) \<and>
    prev_tsc t' = prev_tsc (flushed tsc flush (g_threads w ! thr)) \<and>
    (\<forall>i < arr_cnt (portList t'). arr_data (portList t') ! i =
       (arr_data (portList (g_threads w ! thr)) ! i)\<lparr>
          port_tx := port_tx (arr_data (portList (g_threads w ! thr)) ! i) +
            (if tsc - prev_tsc (g_threads w ! thr) > drain_tsc (g_threads w ! thr) then ucast (flush i) else 0),
          port_rx := port_rx (arr_data (portList (g_threads w ! thr)) ! i) + of_nat (length (rx i))\<rparr>)"
proof -
  let ?t = "g_threads w ! thr"
  let ?f = "flushed tsc flush ?t"
  let ?n = "arr_cnt (portList ?t)"
  have len: "thr < length (g_threads w)" using ok thr by (simp add: world_ok_def)
  have t: "thread_ok ?t" using ok len by (simp add: world_ok_def list_all_length)
  then have n: "?n < length (arr_data (portList ?t))" by (simp add: thread_ok_def)
  have fl: "length (arr_data (portList ?f)) = length (arr_data (portList ?t))"
    using n by (simp add: flushed_def set_ports_def)
  have b: "thr < 256" using thr by (simp add: MAX_THREADS_def)
  let ?w1 = "set_thread thr ?f w"
  have rx: "rx_ports env thr rx 0 ?n ?w1 = Inr w'"
    using res txrxBurst_flushed [OF t len] by simp
  obtain t' where t': "g_threads w' = (g_threads w)[thr := t']"
    "counted rx 0 ?n (arr_data (portList ?f)) (arr_data (portList t'))"
    "arr_cnt (portList t') = ?n" "srv t' = srv ?t" "mbuf_mpsc t' = mbuf_mpsc ?t"
    "length (arr_data (pkts_burst t')) = MAX_PKT_BURST" "prev_tsc t' = prev_tsc ?f"
    using rx_ports_spec [OF b rx, of MAX_PKT_BURST] len n fl t by (auto simp: thread_ok_def)
  have ports: "arr_data (portList t') ! i = (arr_data (portList ?t) ! i)\<lparr>
          port_tx := port_tx (arr_data (portList ?t) ! i) +
            (if tsc - prev_tsc ?t > drain_tsc ?t then ucast (flush i) else 0),
          port_rx := port_rx (arr_data (portList ?t) ! i) + of_nat (length (rx i))\<rparr>" if "i < ?n" for i
    using that t'(2) n fl flushed_ports(2) [of ?t i tsc flush] by (simp add: counted_def)
  have "length (arr_data (portList t')) = length (arr_data (portList ?t))"
    using t'(2) fl by (simp add: counted_def)
  moreover have "\<forall>p \<in> set (arr_list (portList t')). tx_buffer p \<noteq> None"
  proof -
    have "tx_buffer (arr_data (portList t') ! i) \<noteq> None" if "i < ?n" for i
    proof -
      have "arr_data (portList ?t) ! i \<in> set (arr_list (portList ?t))"
        using that n by (auto simp: arr_list_def in_set_conv_nth intro!: exI [of _ i])
      then have "tx_buffer (arr_data (portList ?t) ! i) \<noteq> None" using t by (simp add: thread_ok_def)
      then show ?thesis using ports [OF that] by simp
    qed
    then show ?thesis using t'(3) by (auto simp: arr_list_def in_set_conv_nth)
  qed
  ultimately have "thread_ok t'" using t t' by (simp add: thread_ok_def)
  moreover have "ctx_frame thr w w'" using rx_ports_ctx [OF b rx] by simp
  ultimately show ?thesis using t' ports by (intro exI [of _ t']) simp
qed

lemma txrxBurst_ok:
  assumes "world_ok w" and "thr < MAX_THREADS" and "txrxBurst env thr tn w = Inr w'"
  shows "world_ok w'"
proof -
  obtain tsc flush rx where tn: "tn = (tsc, flush, rx)" by (cases tn)
  obtain t' where "g_threads w' = (g_threads w)[thr := t']" "ctx_frame thr w w'" "thread_ok t'"
    using txrxBurst_result [OF assms(1,2) assms(3) [unfolded tn]] by blast
  with assms(1) show ?thesis by (simp add: world_ok_def ctx_frame_def list_all_update)
qed

interpretation reactor_run: kept_invariant "\<lambda>w tn. txrxBurst env (thr mod MAX_THREADS) tn w" world_ok
  for env :: "'t env" and thr
  by unfold_locales (rule txrxBurst_ok, auto simp: MAX_THREADS_def)

section \<open>The life of a packet buffer\<close>

text \<open>The IP version nibble of a packet that passes the size checks.\<close>

definition rx_version :: "net_api \<Rightarrow> rte_mbuf_seg list \<Rightarrow> u8 option" where
  "rx_version net m =
     (case rx_ip_header net m of
        Inr (Some (reader, iphdr)) \<Rightarrow>
          (case load8 iphdr (off_version_ihl net) of Inr v \<Rightarrow> Some (drop_bit 4 (0xF0 AND v)) | Inl _ \<Rightarrow> None)
      | _ \<Rightarrow> None)"

text \<open>The TCP service on the own thread, and the free after it.\<close>

lemma reactorPost_tcp:
  assumes "thr < length (g_threads w)" and "srv (g_threads w ! thr) ! SERVICE_PROTO_TCP = TcpReactor"
    and "SERVICE_PROTO_TCP < length (srv (g_threads w ! thr))" and "thr < length (gl_tcpCtxt w)"
  shows "reactorPost env thr thr SERVICE_PROTO_TCP src MSG_TCP_RX pkt w =
    bindR (handleTcpRx (e_net env) (e_rd env) (e_tmr env) (int thr) pkt (mb_log w, gl_tcpCtxt w ! thr)) (\<lambda>(l, self).
      Inr (0, w\<lparr>mb_log := McFree (fst pkt) # l, gl_tcpCtxt := (gl_tcpCtxt w)[thr := self]\<rparr>))"
  using assms
  by (cases "handleTcpRx (e_net env) (e_rd env) (e_tmr env) (int thr) pkt (mb_log w, gl_tcpCtxt w ! thr)")
    (auto simp: reactorPost_def call_reactor_def TCP_REACTOR_def)

lemma world_okD:
  assumes "world_ok w" and "thr < MAX_THREADS"
  shows "thr < length (g_threads w)" and "thr < length (gl_tcpCtxt w)" and "thread_ok (g_threads w ! thr)"
    and "tcp_inv (gl_tcpCtxt w ! thr)" and "SERVICE_PROTO_TCP < length (srv (g_threads w ! thr))"
    and "thr mod 256 = thr"
proof -
  show l: "thr < length (g_threads w)" and "thr < length (gl_tcpCtxt w)" and t: "thread_ok (g_threads w ! thr)"
    and "tcp_inv (gl_tcpCtxt w ! thr)"
    using assms by (auto simp: world_ok_def list_all_length)
  show "SERVICE_PROTO_TCP < length (srv (g_threads w ! thr))" using t by (simp add: thread_ok_def size_defs)
  show "thr mod 256 = thr" using assms(2) by (simp add: MAX_THREADS_def)
qed

lemma mlog_dead: "\<not> mb_live rd l p \<Longrightarrow> \<not> mb_live rd (c # l) p"
  by (cases c) auto

lemma tcp_parse_Some:
  assumes "tcp_parse net lid m = Inr (Some x)"
  shows "\<exists>reader iphdr. rx_ip_header net m = Inr (Some (reader, iphdr)) \<and>
    load8 iphdr (off_next_proto_id net) = Inr 6"
  using assms by (auto simp: tcp_parse_def fault_simps split: option.splits if_splits)

lemma processRx_cases:
  assumes ok: "world_ok w" "thr < MAX_THREADS" and tcp: "srv (g_threads w ! thr) ! SERVICE_PROTO_TCP = TcpReactor"
    and res: "processRx env thr (p, m) port w = Inr w'"
  obtains (dropped) "rx_version (e_net env) m \<noteq> Some 4"
      "w' = w\<lparr>mb_log := autobuf_destroy (rte_cb (e_rd env)) \<lparr>ab_data = Some p\<rparr> (mb_log w)\<rparr>"
  | (other) "\<forall>lid x. tcp_parse (e_net env) lid m \<noteq> Inr (Some x)"
      "w' = w\<lparr>mb_log := autobuf_destroy (rte_cb (e_rd env)) \<lparr>ab_data = Some p\<rparr> (McFree p # mb_log w)\<rparr>"
  | (served) l self where "rx_version (e_net env) m = Some 4"
      "handleTcpRx (e_net env) (e_rd env) (e_tmr env) (int thr) (p, m) (mb_log w, gl_tcpCtxt w ! thr) = Inr (l, self)"
      "w' = w\<lparr>mb_log := McFree p # l, gl_tcpCtxt := (gl_tcpCtxt w)[thr := self]\<rparr>"
proof -
  note D = world_okD [OF ok]
  from res obtain r where r: "rx_ip_header (e_net env) m = Inr r" by (auto simp: processRx_def Let_def fault_simps)
  show ?thesis
  proof (cases r)
    case None
    with r res show ?thesis by (intro dropped) (auto simp: processRx_def Let_def rx_version_def)
  next
    case (Some q)
    obtain reader iphdr where q: "q = (reader, iphdr)" by (cases q)
    from r Some q res obtain v where v: "load8 iphdr (off_version_ihl (e_net env)) = Inr v"
      by (auto simp: processRx_def Let_def fault_simps)
    have ver: "rx_version (e_net env) m = Some (drop_bit 4 (0xF0 AND v))" using r Some q v by (simp add: rx_version_def)
    show ?thesis
    proof (cases "drop_bit 4 (0xF0 AND v) = 4")
      case False
      with r Some q v res show ?thesis
        unfolding processRx_def by (intro dropped) (auto simp: Let_def ver simp del: drop_bit_and)
    next
      case True
      with r Some q v res obtain proto where pr: "load8 iphdr (off_next_proto_id (e_net env)) = Inr proto"
        unfolding processRx_def by (auto simp: Let_def fault_simps simp del: drop_bit_and)
      show ?thesis
      proof (cases "proto = 6")
        case False
        then have "\<forall>lid x. tcp_parse (e_net env) lid m \<noteq> Inr (Some x)"
          using tcp_parse_Some [of "e_net env" _ m] r Some q pr by fastforce
        with True False r Some q v pr res show ?thesis
          unfolding processRx_def by (intro other) (auto simp: Let_def simp del: drop_bit_and)
      next
        case p6: True
        from D tcp have post: "reactorPost env thr thr SERVICE_PROTO_TCP SERVICE_PROTO_TCP MSG_TCP_RX (p, m) w =
          bindR (handleTcpRx (e_net env) (e_rd env) (e_tmr env) (int thr) (p, m) (mb_log w, gl_tcpCtxt w ! thr))
            (\<lambda>(l, self). Inr (0, w\<lparr>mb_log := McFree p # l, gl_tcpCtxt := (gl_tcpCtxt w)[thr := self]\<rparr>))"
          by (simp add: reactorPost_tcp)
        obtain l self where "handleTcpRx (e_net env) (e_rd env) (e_tmr env) (int thr) (p, m) (mb_log w, gl_tcpCtxt w ! thr) = Inr (l, self)"
          "w' = w\<lparr>mb_log := McFree p # l, gl_tcpCtxt := (gl_tcpCtxt w)[thr := self]\<rparr>"
          using True p6 r Some q v pr res D(6) post
          unfolding processRx_def by (auto simp: Let_def fault_simps simp del: drop_bit_and)
        with ver True show ?thesis by (intro served) simp_all
      qed
    qed
  qed
qed

section \<open>Words of the message header\<close>

lemma msg_nibbles:
  fixes a b :: u4
  shows "ucast (ucast a OR push_bit 4 (ucast b) :: u8) = a"
    and "ucast (drop_bit 4 (ucast a OR push_bit 4 (ucast b) :: u8)) = b"
  by (rule bit_word_eqI, auto simp: bit_simps dest: bit_imp_le_length)+

lemma msg_bytes_length [simp]: "length (msg_bytes h) = 2"
  by (simp add: msg_bytes_def)

text \<open>What \<^verbatim>\<open>rte_pktmbuf_prepend\<close> documents: the data grows at the front of the first segment.\<close>

definition prepend_documented :: "(rte_mbuf_seg list \<Rightarrow> u16 \<Rightarrow> rte_mbuf_seg list option) \<Rightarrow> bool" where
  "prepend_documented f \<longleftrightarrow>
     (\<forall>m n m'. f m n = Some m' \<longrightarrow>
        (\<exists>s s' rest. m = s # rest \<and> m' = s' # rest \<and> data_len s' = data_len s + n \<and>
           pkt_len s' = pkt_len s + ucast n \<and> length (seg_mem s') = length (seg_mem s) + unat n \<and>
           drop (unat n) (seg_mem s') = seg_mem s))"

definition demo_prepend :: "rte_mbuf_seg list \<Rightarrow> u16 \<Rightarrow> rte_mbuf_seg list option" where
  "demo_prepend m n =
     (case m of [] \<Rightarrow> None
      | s # rest \<Rightarrow> Some (\<lparr>data_len = data_len s + n, pkt_len = pkt_len s + ucast n,
                          seg_mem = replicate (unat n) 0 @ seg_mem s\<rparr> # rest))"

lemma demo_prepend_documented: "prepend_documented demo_prepend"
  by (auto simp: prepend_documented_def demo_prepend_def split: list.splits)

definition demo_env :: "(u64 \<times> u64) option env" where
  "demo_env = \<lparr>e_net = demo_net, e_rd = rd_pool, e_tmr = demo_timer, rte_pktmbuf_prepend = demo_prepend\<rparr>"

text \<open>A world in which thread 2 has a port and the TCP service, with listening contexts.\<close>

definition demo_thread :: internal_thread where
  "demo_thread = thread_new\<lparr>srv := (replicate MAX_SERVICES NoneReactor)[SERVICE_PROTO_TCP := TcpReactor],
     portList := \<lparr>arr_data = replicate MAX_RX_QUEUE_PER_LCORE ((port_new 0)\<lparr>tx_buffer := Some 1\<rparr>), arr_cnt = 1\<rparr>,
     enabled := True\<rparr>"

definition demo_world :: "(u64 \<times> u64) option world" where
  "demo_world = \<lparr>g_threads = (replicate MAX_THREADS thread_new)[2 := demo_thread],
     gl_tcpCtxt = replicate MAX_THREADS demo_server, mb_log = []\<rparr>"

lemma demo_thread_ok: "thread_ok demo_thread"
  using thread_new_ok
  by (auto simp: thread_ok_def demo_thread_def arr_list_def size_defs dest: in_set_takeD)

lemma demo_world_simps [simp]:
  "world_ok demo_world" "g_threads demo_world ! 2 = demo_thread" "gl_tcpCtxt demo_world ! 2 = demo_server"
  "srv demo_thread ! SERVICE_PROTO_TCP = TcpReactor" "mb_log demo_world = []"
proof -
  have "list_all thread_ok ((replicate MAX_THREADS thread_new)[2 := demo_thread])"
    by (rule list_all_update) (simp_all add: list_all_iff thread_new_ok demo_thread_ok)
  then show "world_ok demo_world" by (simp add: world_ok_def demo_world_def) (simp add: list_all_iff)
qed (simp_all add: demo_world_def demo_thread_def size_defs)

lemma demo_env_simps [simp]:
  "e_net demo_env = demo_net" "e_rd demo_env = rd_pool" "e_tmr demo_env = demo_timer"
  "rte_pktmbuf_prepend demo_env = demo_prepend"
  by (simp_all add: demo_env_def)

section \<open>Properties\<close>

text \<open>
  Property (C7). The life of a packet buffer from the device on: a packet with one reference that
  \<^verbatim>\<open>processRx\<close> takes is always freed, but every call on it is made on a live buffer only if it is an
  IPv4 packet that the TCP parser accepts for the listening port. Every other packet (too short, not
  IPv4, not TCP, refused by the parser) is freed and then touched again, or freed twice.
\<close>

theorem processRx_mbuf:
  assumes "refcnt_documented (e_rd env)" and "world_ok w" and "thr < MAX_THREADS"
    and "srv (g_threads w ! thr) ! SERVICE_PROTO_TCP = TcpReactor"
    and "mlog_ok (e_rd env) (mb_log w)" and "mb_live (e_rd env) (mb_log w) p" and "e_rd env (mb_log w) p = 1"
    and "processRx env thr (p, m) port w = Inr w'"
  shows "\<not> mb_live (e_rd env) (mb_log w') p \<and>
    (mlog_ok (e_rd env) (mb_log w') \<longleftrightarrow>
       rx_version (e_net env) m = Some 4 \<and>
       (\<exists>x. tcp_parse (e_net env) (tcb_clientId (listen (gl_tcpCtxt w ! thr))) m = Inr (Some x)))"
  using assms(2,3,4,8)
proof (cases rule: processRx_cases)
  case dropped
  with drop_last [OF assms(1,6,7)] show ?thesis by simp
next
  case other
  have "\<not> mb_live (e_rd env) (McFree p # mb_log w) p" using assms(7) by simp
  with other show ?thesis by (simp add: drop_log mlog_dead)
next
  case (served l self)
  have inv: "tcp_inv (gl_tcpCtxt w ! thr)" using world_okD [OF assms(2,3)] by simp
  from inv served(2) show ?thesis
  proof (cases rule: handleTcpRx_cases)
    case 1
    with served(1,3) drop_last [OF assms(1,6,7)] show ?thesis by (simp add: mlog_dead)
  next
    case (2 h r)
    with served(1,3) hand_over_live [OF assms(1,5,6,7)] show ?thesis by auto
  qed
qed

lemma demo_rx:
  "rx_version demo_net [demo_seg 9 2 77 []] = Some 4"
  "rx_ip_header demo_net [demo_seg 9 2 77 []] =
     Inr (Some ((itr_new [demo_seg 9 2 77 []])\<lparr>itr_offset := 14\<rparr>, Some (drop 14 (demo_bytes 9 2 77 []))))"
  "load8 (Some (drop 14 (demo_bytes 9 2 77 []))) (off_version_ihl demo_net) = Inr 69"
  "load8 (Some (drop 14 (demo_bytes 9 2 77 []))) (off_next_proto_id demo_net) = Inr 6"
  by code_simp+

lemma demo_processRx: "\<exists>w'. processRx demo_env 2 (7, [demo_seg 9 2 77 []]) 0 demo_world = Inr w'"
proof -
  have two: "2 < MAX_THREADS" by (simp add: MAX_THREADS_def)
  note D = world_okD [OF demo_world_simps(1) two]
  have post: "reactorPost demo_env 2 2 SERVICE_PROTO_TCP SERVICE_PROTO_TCP MSG_TCP_RX (7, [demo_seg 9 2 77 []]) demo_world =
      bindR (handleTcpRx demo_net rd_pool demo_timer 2 (7, [demo_seg 9 2 77 []]) ([], demo_server)) (\<lambda>(l, self).
        Inr (0, demo_world\<lparr>mb_log := McFree 7 # l, gl_tcpCtxt := (gl_tcpCtxt demo_world)[2 := self]\<rparr>))"
    using D reactorPost_tcp [of 2 demo_world demo_env SERVICE_PROTO_TCP "(7, [demo_seg 9 2 77 []])"] by simp
  obtain s where "handleTcpRx demo_net rd_pool demo_timer 2 (7, [demo_seg 9 2 77 []]) ([], demo_server) =
      Inr (hand_over rd_pool \<lparr>ab_data = Some 7\<rparr> [], s)"
    using demo_wire_syn by blast
  moreover have same: "demo_world\<lparr>mb_log := []\<rparr> = demo_world" by (simp add: demo_world_def)
  ultimately show ?thesis using post by (simp add: processRx_def demo_rx Let_def same)
qed

theorem processRx_mbuf_witness:
  "\<exists>w'. processRx demo_env 2 (7, [demo_seg 9 2 77 []]) 0 demo_world = Inr w' \<and>
     mlog_ok rd_pool (mb_log w') \<and> \<not> mb_live rd_pool (mb_log w') 7"
proof -
  obtain w' where w': "processRx demo_env 2 (7, [demo_seg 9 2 77 []]) 0 demo_world = Inr w'"
    using demo_processRx by blast
  have two: "2 < MAX_THREADS" by (simp add: MAX_THREADS_def)
  from processRx_mbuf [OF _ _ two _ _ _ _ w'] w' show ?thesis
    by (auto simp: rd_pool_documented demo_rx demo_parse_bare)
qed

text \<open>
  The two bytes of a message header determine its four fields: packing and unpacking
  is the identity, in both directions.
\<close>

theorem msg_header_round_trip:
  "msg_of_bytes (msg_bytes h) = h \<and> (\<forall>a b. msg_bytes (msg_of_bytes [a, b]) = [a, b])"
proof (intro conjI allI)
  show "msg_of_bytes (msg_bytes h) = h"
    by (cases h) (simp add: msg_bytes_def msg_of_bytes_def msg_nibbles del: drop_bit_or)
  have "ucast (ucast a :: u4) OR push_bit 4 (ucast (ucast (drop_bit 4 a) :: u4)) = a" for a :: u8
    by (rule bit_word_eqI) (auto simp: bit_simps not_less dest: bit_imp_le_length)
  then show "msg_bytes (msg_of_bytes [a, b]) = [a, b]" for a b
    by (simp add: msg_bytes_def msg_of_bytes_def)
qed

text \<open>
  Property (C31). A post to another thread whose queue has room puts the packet at the end of that
  queue, with a header of two bytes in front of its data from which the receiver reads back the threads
  and services (of which there are at most 16), and changes nothing else. The message id is not part of
  what is sent: two posts that differ only in it have the same effect. On a full queue nothing changes and the
  result is \<open>-1\<close>.
\<close>

theorem reactorPost_remote:
  assumes "world_ok w" and "target < MAX_THREADS" and "target \<noteq> thr"
    and "prepend_documented (rte_pktmbuf_prepend env)"
    and "rte_pktmbuf_prepend env m 2 = Some m'"
  shows "\<exists>m1 ret w'. reactorPost env thr target dst src msgId (p, m) w = Inr (ret, w') \<and>
    reactorPost env thr target dst src msgId2 (p, m) w = Inr (ret, w') \<and>
    msg_of_bytes (take 2 (seg_mem (hd m1))) =
      \<lparr>srcThd = of_nat thr, srcSvc = of_nat src, dstThd = of_nat target, dstSvc = of_nat dst\<rparr> \<and>
    drop 2 (seg_mem (hd m1)) = seg_mem (hd m) \<and>
    gl_tcpCtxt w' = gl_tcpCtxt w \<and> mb_log w' = mb_log w \<and>
    (\<forall>j. j \<noteq> target \<longrightarrow> g_threads w' ! j = g_threads w ! j) \<and>
    (let q = mbuf_mpsc (g_threads w ! target); q' = mbuf_mpsc (g_threads w' ! target) in
       if bus_len q = bus_room q then ret = -1 \<and> q' = q
       else ret = 0 \<and> bus_list q' = bus_list q @ [Some (p, m1)])"
proof -
  note D = world_okD [OF assms(1,2)]
  let ?q = "mbuf_mpsc (g_threads w ! target)"
  let ?h = "\<lparr>srcThd = of_nat thr, srcSvc = of_nat src, dstThd = of_nat target, dstSvc = of_nat dst\<rparr>"
  have q: "bus_inv ?q" using D(3) by (simp add: thread_ok_def)
  obtain s s' rest where m: "m = s # rest" "m' = s' # rest" "length (seg_mem s') = length (seg_mem s) + 2"
    "drop 2 (seg_mem s') = seg_mem s"
    using assms(4,5) unfolding prepend_documented_def by fastforce
  define m1 where "m1 = s'\<lparr>seg_mem := msg_bytes ?h @ drop 2 (seg_mem s')\<rparr> # rest"
  have wf: "write_front (msg_bytes ?h) m' = Inr m1" using m by (simp add: write_front_def m1_def)
  obtain ret q' where push: "bus_push ?q (Some (p, m1)) = Inr (ret, q')"
    "if bus_len ?q = bus_room ?q then ret = -1 \<and> q' = ?q
     else ret = 0 \<and> bus_list q' = bus_list ?q @ [Some (p, m1)]"
    using bus.push_total [OF q, of "Some (p, m1)"] bus.push_cases [OF q, of "Some (p, m1)"] by fastforce
  let ?w = "set_thread target ((g_threads w ! target)\<lparr>mbuf_mpsc := q'\<rparr>) w"
  have "reactorPost env thr target dst src i (p, m) w = Inr (ret, ?w)" for i
    using assms(3,5) wf push(1) D(1) by (simp add: reactorPost_def Let_def)
  moreover have "msg_of_bytes (take 2 (seg_mem (hd m1))) = ?h \<and> drop 2 (seg_mem (hd m1)) = seg_mem (hd m)"
    using m by (simp add: m1_def) (simp add: msg_of_bytes_def msg_bytes_def msg_nibbles del: drop_bit_or)
  ultimately show ?thesis using push(2) D(1)
    by (intro exI [of _ m1] exI [of _ ret] exI [of _ ?w]) (simp add: Let_def)
qed

theorem reactorPost_remote_witness:
  "\<exists>m1 w'. reactorPost demo_env 2 5 2 3 MSG_TCP_RX (7, [demo_seg 9 2 77 []]) demo_world = Inr (0, w') \<and>
     msg_of_bytes (take 2 (seg_mem (hd m1))) = \<lparr>srcThd = 2, srcSvc = 3, dstThd = 5, dstSvc = 2\<rparr> \<and>
     bus_list (mbuf_mpsc (g_threads w' ! 5)) = [Some (7, m1)]"
proof -
  have five: "5 < MAX_THREADS" by (simp add: MAX_THREADS_def)
  have pre: "prepend_documented (rte_pktmbuf_prepend demo_env)" by (simp add: demo_prepend_documented)
  obtain m' where m': "rte_pktmbuf_prepend demo_env [demo_seg 9 2 77 []] 2 = Some m'"
    by (simp add: demo_prepend_def)
  have "g_threads demo_world ! 5 = thread_new" by (simp add: demo_world_def MAX_THREADS_def)
  then have q: "bus_list (mbuf_mpsc (g_threads demo_world ! 5)) = []"
    "bus_len (mbuf_mpsc (g_threads demo_world ! 5)) \<noteq> bus_room (mbuf_mpsc (g_threads demo_world ! 5))"
    by (simp_all add: thread_new_def bus_list_def bus_len_def bus_room_def bus_new_def CAPACITY_def THREAD_MSGQ_SIZE_def)
  obtain m1 ret w' where r: "reactorPost demo_env 2 5 2 3 MSG_TCP_RX (7, [demo_seg 9 2 77 []]) demo_world = Inr (ret, w')"
    "msg_of_bytes (take 2 (seg_mem (hd m1))) = \<lparr>srcThd = of_nat 2, srcSvc = of_nat 3, dstThd = of_nat 5, dstSvc = of_nat 2\<rparr>"
    "ret = 0 \<and> bus_list (mbuf_mpsc (g_threads w' ! 5)) = bus_list (mbuf_mpsc (g_threads demo_world ! 5)) @ [Some (7, m1)]"
    using reactorPost_remote [OF demo_world_simps(1) five _ pre m', of 2 2 3 MSG_TCP_RX 7 0] q(2)
    by (auto simp: Let_def)
  then show ?thesis using q(1) by (intro exI [of _ m1] exI [of _ w']) simp
qed

text \<open>
  Property (C30). One turn of the receive loop on a well-formed world keeps it well-formed; it
  leaves the objects and the TCP contexts of all other threads alone, and on its own thread it adds to
  each port's counters exactly the packets received, and those sent when the flush was due, whose clock
  it then resets. The assertion on the transmit buffer never fails: a turn without packets always
  completes.
\<close>

theorem txrxBurst_accounts:
  assumes "world_ok w" and "thr < MAX_THREADS"
  shows "(\<forall>w'. txrxBurst env thr (tsc, flush, rx) w = Inr w' \<longrightarrow>
      world_ok w' \<and>
      (\<forall>j. j \<noteq> thr \<longrightarrow> g_threads w' ! j = g_threads w ! j \<and> gl_tcpCtxt w' ! j = gl_tcpCtxt w ! j) \<and>
      (let t = g_threads w ! thr; t' = g_threads w' ! thr; due = tsc - prev_tsc t > drain_tsc t in
         arr_cnt (portList t') = arr_cnt (portList t) \<and> mbuf_mpsc t' = mbuf_mpsc t \<and>
         prev_tsc t' = (if due then tsc else prev_tsc t) \<and>
         (\<forall>i < arr_cnt (portList t).
            let p = arr_data (portList t) ! i in
            arr_data (portList t') ! i =
              p\<lparr>port_tx := port_tx p + (if due then ucast (flush i) else 0),
                port_rx := port_rx p + of_nat (length (rx i))\<rparr>))) \<and>
    ((\<forall>i. rx i = []) \<longrightarrow> (\<exists>w'. txrxBurst env thr (tsc, flush, rx) w = Inr w'))"
proof (intro conjI allI impI)
  note D = world_okD [OF assms]
  show "\<exists>w'. txrxBurst env thr (tsc, flush, rx) w = Inr w'" if "\<forall>i. rx i = []"
    unfolding txrxBurst_flushed [OF D(3,1)] by (rule rx_ports_idle) (use D(1) that in simp_all)
  fix w' assume res: "txrxBurst env thr (tsc, flush, rx) w = Inr w'"
  show "world_ok w'" by (rule txrxBurst_ok [OF assms res])
  from txrxBurst_result [OF assms res] D(1)
  show "g_threads w' ! j = g_threads w ! j" "gl_tcpCtxt w' ! j = gl_tcpCtxt w ! j" if "j \<noteq> thr" for j
    using that by (auto simp: ctx_frame_def)
  from txrxBurst_result [OF assms res] D(1)
  show "let t = g_threads w ! thr; t' = g_threads w' ! thr; due = tsc - prev_tsc t > drain_tsc t in
         arr_cnt (portList t') = arr_cnt (portList t) \<and> mbuf_mpsc t' = mbuf_mpsc t \<and>
         prev_tsc t' = (if due then tsc else prev_tsc t) \<and>
         (\<forall>i < arr_cnt (portList t).
            let p = arr_data (portList t) ! i in
            arr_data (portList t') ! i =
              p\<lparr>port_tx := port_tx p + (if due then ucast (flush i) else 0),
                port_rx := port_rx p + of_nat (length (rx i))\<rparr>)"
    by (auto simp: Let_def)
qed

theorem txrxBurst_accounts_witness:
  "\<exists>w'. txrxBurst demo_env 2 (5, (\<lambda>i. 3), (\<lambda>i. [])) demo_world = Inr w' \<and>
     port_tx (arr_data (portList (g_threads w' ! 2)) ! 0) = 3"
proof -
  have two: "2 < MAX_THREADS" by (simp add: MAX_THREADS_def)
  note th = txrxBurst_accounts [OF demo_world_simps(1) two, of demo_env 5 "\<lambda>i. 3" "\<lambda>i. []"]
  then obtain w' where w': "txrxBurst demo_env 2 (5, (\<lambda>i. 3), (\<lambda>i. [])) demo_world = Inr w'" by auto
  have "arr_cnt (portList demo_thread) = 1" "arr_data (portList demo_thread) ! 0 = (port_new 0)\<lparr>tx_buffer := Some 1\<rparr>"
    "prev_tsc demo_thread = 0" "drain_tsc demo_thread = 0"
    by (simp_all add: demo_thread_def thread_new_def MAX_RX_QUEUE_PER_LCORE_def)
  with th w' have "port_tx (arr_data (portList (g_threads w' ! 2)) ! 0) = 3"
    by (auto simp: Let_def port_new_def)
  with w' show ?thesis by blast
qed

text \<open>
  Running a thread's loop for any number of turns keeps the world well-formed and
  returns 0; a thread without ports returns at once, whatever would arrive. A worker whose core number is
  not below \<^verbatim>\<open>MAX_THREADS\<close> has no thread object: \<^verbatim>\<open>run\<close> accesses the array out of its bounds.
\<close>

theorem pm_run_keeps_world:
  assumes "world_ok w"
  shows "(thr < MAX_THREADS \<and> pm_run env thr hz turns w = Inr (ret, w') \<longrightarrow>
      ret = 0 \<and> world_ok w' \<and>
      (arr_empty (portList (g_threads w ! thr)) \<longrightarrow> gl_tcpCtxt w' = gl_tcpCtxt w \<and> mb_log w' = mb_log w)) \<and>
    (MAX_THREADS \<le> thr \<longrightarrow> pm_run env thr hz turns w = Inl OutOfBounds)"
proof (intro conjI impI)
  assume "MAX_THREADS \<le> thr"
  then show "pm_run env thr hz turns w = Inl OutOfBounds"
    using assms by (simp add: pm_run_def thread_run_def thread_at_def world_ok_def)
next
  assume r: "thr < MAX_THREADS \<and> pm_run env thr hz turns w = Inr (ret, w')"
  then have thr: "thr < MAX_THREADS" "thr mod MAX_THREADS = thr" by simp_all
  note D = world_okD [OF assms thr(1)]
  let ?t = "(g_threads w ! thr)\<lparr>drain_tsc := (hz + 1000000 - 1) div 1000000 * BURST_TX_DRAIN_US\<rparr>"
  have w1: "world_ok (set_thread thr ?t w)"
    by (rule set_thread_ok [OF assms]) (use D(3) in \<open>simp add: thread_ok_def\<close>)
  from r D(1) have run: "ret = 0" "if arr_empty (portList (g_threads w ! thr)) then w' = set_thread thr ?t w
      else run_all (\<lambda>w tn. txrxBurst env thr tn w) (set_thread thr ?t w) turns = Inr w'"
    by (auto simp: pm_run_def thread_run_def Let_def fault_simps split: if_splits)
  show "ret = 0" by (rule run(1))
  show "world_ok w'"
    using run(2) w1 reactor_run.run_inv [of "set_thread thr ?t w" env thr turns w'] unfolding thr(2)
    by (auto split: if_splits)
  assume "arr_empty (portList (g_threads w ! thr))"
  with run(2) show "gl_tcpCtxt w' = gl_tcpCtxt w" "mb_log w' = mb_log w" by simp_all
qed

theorem pm_run_keeps_world_witness:
  "(\<exists>w'. pm_run demo_env 3 1000000 [(5, (\<lambda>i. 0), (\<lambda>i. [(7, [])]))] demo_world = Inr (0, w') \<and> world_ok w') \<and>
   pm_run demo_env 8 1000000 [] demo_world = Inl OutOfBounds"
proof
  let ?turn = "(5, (\<lambda>i. 0), (\<lambda>i. [(7, [])])) :: turn"
  have t: "g_threads demo_world ! 3 = thread_new" "3 < length (g_threads demo_world)"
    by (simp_all add: demo_world_def MAX_THREADS_def)
  have "arr_empty (portList thread_new)" by (simp add: thread_new_def arr_new_def arr_empty_def)
  with t obtain w' where w': "pm_run demo_env 3 1000000 [?turn] demo_world = Inr (0, w')"
    by (simp add: pm_run_def thread_run_def Let_def)
  then have "world_ok w'"
    using pm_run_keeps_world [OF demo_world_simps(1), of 3 demo_env 1000000 "[?turn]" 0 w'] by (simp add: MAX_THREADS_def)
  with w' show "\<exists>w'. pm_run demo_env 3 1000000 [?turn] demo_world = Inr (0, w') \<and> world_ok w'" by blast
  show "pm_run demo_env 8 1000000 [] demo_world = Inl OutOfBounds"
    using pm_run_keeps_world [OF demo_world_simps(1), of 8 demo_env 1000000 "[]"] by (simp add: MAX_THREADS_def)
qed

end
