(* ===== verification/Boot.thy ===== *)
theory Boot
  imports ReactorSpec
begin

text \<open>
  The start of the application: \<^verbatim>\<open>pm::init\<close> and \<^verbatim>\<open>port_init\<close> of \<^verbatim>\<open>core/plugin.cc\<close> and the
  sequence of \<^verbatim>\<open>main\<close> in \<^verbatim>\<open>main.cc\<close>. What DPDK reports of ports, cores and devices is the record
  \<open>boot_env\<close>; a failing device call ends the process (\<^verbatim>\<open>rte_exit\<close>, \<^verbatim>\<open>rte_panic\<close>). Of the
  device configuration only the return codes are kept here; the theory \<^verbatim>\<open>DevSetup\<close> has the calls with
  their arguments, and shows that they give this start.
\<close>

record boot_env =
  rte_eal_init :: int
  rte_eth_dev_count_avail :: nat
  pool_created :: bool
  dev_ids :: "nat list"                          \<comment> \<open>\<^verbatim>\<open>RTE_ETH_FOREACH_DEV\<close>\<close>
  rte_eth_dev_is_valid_port :: "nat \<Rightarrow> bool"
  rte_lcore_is_enabled :: "nat \<Rightarrow> bool"
  rte_get_main_lcore :: nat
  dev_before :: "nat \<Rightarrow> int list"                 \<comment> \<open>results of the calls before \<^verbatim>\<open>addPort\<close>\<close>
  dev_start :: "nat \<Rightarrow> int"
  be_zmalloc :: "nat \<Rightarrow> nat option"
  be_set_cb :: "nat \<Rightarrow> int"

section \<open>Ports and cores\<close>

text \<open>
  The macro is a decimal number. The shift \<^verbatim>\<open>1 << portid\<close> is undefined for ports from 32 on, which
  DPDK has only when it is built for more than its default of 32 ports; they count as disabled here.
\<close>

definition PORT_CONFIG_MASK :: u32 where "PORT_CONFIG_MASK = 1111111"

definition port_enabled :: "nat \<Rightarrow> bool" where
  "port_enabled portid = (PORT_CONFIG_MASK AND push_bit portid 1 \<noteq> 0)"

text \<open>
  \<^verbatim>\<open>port_init\<close>: the checked calls are \<^verbatim>\<open>dev_info_get\<close>, \<^verbatim>\<open>dev_configure\<close>,
  \<^verbatim>\<open>adjust_nb_rx_tx_desc\<close>, the set-up of each receive queue and of the transmit queue.
\<close>

definition port_init :: "boot_env \<Rightarrow> nat \<Rightarrow> nat \<Rightarrow> 't world \<Rightarrow> fault + 't world" where
  "port_init be portid lcoreId w =
     (if \<not> port_enabled portid then Inr w
      else if \<exists>ret \<in> set (dev_before be portid). ret < 0 then Inl Panic
      else bindR (thread_at lcoreId w) (\<lambda>t.
        bindR (addPort (be_zmalloc be portid) (be_set_cb be portid) (of_nat portid) t) (\<lambda>t1.
          if dev_start be portid < 0 then Inl Panic else Inr (set_thread lcoreId t1 w))))"

text \<open>
  The search for the core of the next port. The assertion bounds the core by \<^verbatim>\<open>MAX_THREADS\<close> before
  \<^verbatim>\<open>RTE_MAX_LCORE\<close> is reached.
\<close>

function next_lcore :: "boot_env \<Rightarrow> nat \<Rightarrow> 't world \<Rightarrow> fault + nat" where
  "next_lcore be rx_lcore_id w =
     bindR (if \<not> rte_lcore_is_enabled be rx_lcore_id \<or> rx_lcore_id = rte_get_main_lcore be then Inr True
            else bindR (thread_at rx_lcore_id w) (\<lambda>t.
              Inr (arr_size (portList t) = MAX_RX_QUEUE_PER_LCORE))) (\<lambda>skip.
       if skip then
         if rx_lcore_id + 1 < MAX_THREADS then next_lcore be (rx_lcore_id + 1) w else Inl AssertFailed
       else Inr rx_lcore_id)"
  by pat_completeness auto
termination
  by (relation "measure (\<lambda>(be, i, w). MAX_THREADS - i)") auto

declare next_lcore.simps [simp del]

text \<open>The loop over the ports; the flag says that an invalid port ended it.\<close>

fun init_ports :: "boot_env \<Rightarrow> nat \<Rightarrow> nat list \<Rightarrow> 't world \<Rightarrow> fault + (bool \<times> 't world)" where
  "init_ports be rx_lcore_id [] w = Inr (True, w)"
| "init_ports be rx_lcore_id (port # ports) w =
     (if \<not> port_enabled port then init_ports be rx_lcore_id ports w
      else if \<not> rte_eth_dev_is_valid_port be port then Inr (False, w)
      else bindR (next_lcore be rx_lcore_id w) (\<lambda>i. bindR (assertR (i < MAX_THREADS)) (\<lambda>_.
        bindR (port_init be port i w) (\<lambda>w1. init_ports be i ports w1))))"

definition pm_init :: "boot_env \<Rightarrow> 't world \<Rightarrow> fault + (int \<times> 't world)" where
  "pm_init be w =
     (let w1 = w\<lparr>g_threads := map (\<lambda>t. snd (thread_init t)) (g_threads w)\<rparr> in
      bindR (assertR (\<forall>t \<in> set (g_threads w). fst (thread_init t) = 0)) (\<lambda>_.
      if rte_eth_dev_count_avail be = 0 then Inl Panic
      else if \<not> pool_created be then Inl Panic
      else bindR (init_ports be 0 (dev_ids be) w1) (\<lambda>(ok, w2). Inr (if ok then 0 else -1, w2))))"

definition pm_deinit :: "'t world \<Rightarrow> int \<times> 't world" where
  "pm_deinit w = (0, w\<lparr>g_threads := map (\<lambda>t. snd (thread_deinit t)) (g_threads w)\<rparr>)"

text \<open>The state in which \<^verbatim>\<open>main\<close> launches the workers: the result of \<^verbatim>\<open>pm::init\<close> is ignored.\<close>

definition main_start :: "'t timer_api \<Rightarrow> boot_env \<Rightarrow> fault + 't world" where
  "main_start api be =
     (if rte_eal_init be < 0 then Inl Panic
      else bindR (pm_init be (world_new api)) (\<lambda>(_, w). bindR (tcp_init w) (\<lambda>(_, w1). Inr w1)))"

section \<open>Ports and cores\<close>

definition thread_ports :: "internal_thread \<Rightarrow> u32 list" where
  "thread_ports t = map portId (arr_list (portList t))"

definition all_ports :: "'t world \<Rightarrow> u32 list" where
  "all_ports w = concat (map thread_ports (g_threads w))"

lemma addPort_spec:
  assumes ok: "thread_ok t" and z: "z \<noteq> None" and cb: "0 \<le> cb"
  shows "if arr_cnt (portList t) + 1 < MAX_RX_QUEUE_PER_LCORE
    then \<exists>t'. addPort z cb p t = Inr t' \<and> thread_ok t' \<and> thread_ports t' = thread_ports t @ [p] \<and>
      srv t' = srv t \<and> mbuf_mpsc t' = mbuf_mpsc t
    else addPort z cb p t = Inl AssertFailed"
proof -
  let ?pl = "portList t"
  have len: "length (arr_data ?pl) = MAX_RX_QUEUE_PER_LCORE" and c: "arr_cnt ?pl < MAX_RX_QUEUE_PER_LCORE"
    and b: "\<forall>q \<in> set (arr_list ?pl). tx_buffer q \<noteq> None"
    using ok by (auto simp: thread_ok_def)
  let ?pl1 = "\<lparr>arr_data = (arr_data ?pl)[arr_cnt ?pl := port_new p], arr_cnt = arr_cnt ?pl + 1\<rparr>"
  have push: "arr_push_back ?pl (port_new p) = Inr ?pl1" using c len by (simp add: arr_push_back_def)
  show ?thesis
  proof (cases "arr_cnt ?pl + 1 < MAX_RX_QUEUE_PER_LCORE")
    case False
    then show ?thesis using push z len by (simp add: addPort_def arr_back_def)
  next
    case True
    let ?t = "t\<lparr>portList := arr_update ?pl1 (arr_cnt ?pl) (\<lambda>q. q\<lparr>tx_buffer := z\<rparr>)\<rparr>"
    have add: "addPort z cb p t = Inr ?t"
      using True push z cb len by (auto simp: addPort_def arr_back_def)
    have l: "arr_list (portList ?t) = arr_list ?pl @ [(port_new p)\<lparr>tx_buffer := z\<rparr>]"
      using c len by (simp add: arr_list_def arr_update_def take_Suc_nth)
    have "thread_ok ?t"
      using ok True b z l by (simp add: thread_ok_def) (simp add: arr_update_def)
    with add l True show ?thesis by (simp add: thread_ports_def port_new_def)
  qed
qed

lemma addPort_fault: "addPort z cb p t = Inr t' \<Longrightarrow> z \<noteq> None \<and> 0 \<le> cb"
  by (auto simp: addPort_def fault_simps split: if_splits)

lemma next_lcore_spec:
  "next_lcore be i w = Inr j \<Longrightarrow> i < MAX_THREADS \<Longrightarrow>
     i \<le> j \<and> j < MAX_THREADS \<and> rte_lcore_is_enabled be j \<and> j \<noteq> rte_get_main_lcore be"
proof (induction be i w rule: next_lcore.induct)
  case (1 be i w)
  from "1.prems" obtain skip where s: "(if \<not> rte_lcore_is_enabled be i \<or> i = rte_get_main_lcore be then Inr True
      else bindR (thread_at i w) (\<lambda>t. Inr (arr_size (portList t) = MAX_RX_QUEUE_PER_LCORE))) = Inr skip"
    "(if skip then if i + 1 < MAX_THREADS then next_lcore be (i + 1) w else Inl AssertFailed else Inr i) = Inr j"
    by (subst (asm) next_lcore.simps) (auto simp only: bindR_eq_Inr)
  show ?case
  proof (cases skip)
    case True
    with s(2) have n: "i + 1 < MAX_THREADS" "next_lcore be (i + 1) w = Inr j" by (auto split: if_splits)
    from "1.IH" [OF s(1) True n(1) n(2) n(1)] show ?thesis by simp
  next
    case False
    with s "1.prems"(2) show ?thesis by (auto split: if_splits)
  qed
qed

text \<open>While the ports are distributed: cores above the current one have none yet.\<close>

definition boot_inv :: "boot_env \<Rightarrow> nat \<Rightarrow> 't world \<Rightarrow> bool" where
  "boot_inv be i w \<longleftrightarrow>
     world_ok w \<and> i < MAX_THREADS \<and>
     (\<forall>j < MAX_THREADS. i < j \<longrightarrow> thread_ports (g_threads w ! j) = []) \<and>
     (\<forall>j < MAX_THREADS. thread_ports (g_threads w ! j) \<noteq> [] \<longrightarrow>
        rte_lcore_is_enabled be j \<and> j \<noteq> rte_get_main_lcore be)"

lemma concat_append_last:
  assumes "i < length xs" and "\<forall>j < length xs. i < j \<longrightarrow> xs ! j = []"
  shows "concat (xs[i := xs ! i @ [p]]) = concat xs @ [p]"
proof -
  have "\<forall>x \<in> set (drop (Suc i) xs). x = []"
    using assms(2) by (auto simp: in_set_conv_nth)
  then have d: "concat (drop (Suc i) xs) = []" by simp
  have "concat xs = concat (take i xs @ xs ! i # drop (Suc i) xs)"
    using id_take_nth_drop [OF assms(1)] by simp
  then show ?thesis using assms(1) d by (simp add: upd_conv_take_nth_drop)
qed

lemma port_init_step:
  assumes inv: "boot_inv be i w" and core: "rte_lcore_is_enabled be i" "i \<noteq> rte_get_main_lcore be"
    and en: "port_enabled port" and res: "port_init be port i w = Inr w'"
  shows "boot_inv be i w' \<and> all_ports w' = all_ports w @ [of_nat port] \<and> gl_tcpCtxt w' = gl_tcpCtxt w \<and>
    map srv (g_threads w') = map srv (g_threads w) \<and> mb_log w' = mb_log w"
proof -
  let ?t = "g_threads w ! i"
  have ok: "world_ok w" and i: "i < MAX_THREADS" using inv by (auto simp: boot_inv_def)
  note D = world_okD [OF ok i]
  from res en D(1) obtain t' where a: "addPort (be_zmalloc be port) (be_set_cb be port) (of_nat port) ?t = Inr t'"
    "w' = set_thread i t' w"
    by (auto simp: port_init_def fault_simps split: if_splits)
  from addPort_fault [OF a(1)] have z: "be_zmalloc be port \<noteq> None" "0 \<le> be_set_cb be port" by auto
  from addPort_spec [OF D(3) z, of "of_nat port"] a(1)
  have t': "thread_ok t'" "thread_ports t' = thread_ports ?t @ [of_nat port]" "srv t' = srv ?t"
    by (auto split: if_splits)
  have "map srv ((g_threads w)[i := t']) = map srv (g_threads w)"
    using t'(3) by (simp add: map_update) (metis list_update_id nth_map D(1))
  moreover have "all_ports w' = all_ports w @ [of_nat port]"
  proof -
    have "map thread_ports (g_threads w') =
        (map thread_ports (g_threads w))[i := map thread_ports (g_threads w) ! i @ [of_nat port]]"
      using a(2) t'(2) D(1) by (simp add: map_update)
    moreover have "\<forall>j < length (g_threads w). i < j \<longrightarrow> thread_ports (g_threads w ! j) = []"
      using inv by (simp add: boot_inv_def world_ok_def)
    ultimately show ?thesis unfolding all_ports_def
      using concat_append_last [of i "map thread_ports (g_threads w)"] D(1) by simp
  qed
  moreover have "boot_inv be i w'"
    using inv core a(2) t'(1,2) D(1) set_thread_ok [OF ok t'(1)]
    by (auto simp: boot_inv_def nth_list_update world_ok_def)
  ultimately show ?thesis using a(2) by simp
qed

lemma boot_inv_mono: "boot_inv be i w \<Longrightarrow> i \<le> j \<Longrightarrow> j < MAX_THREADS \<Longrightarrow> boot_inv be j w"
  by (auto simp: boot_inv_def)

lemma init_ports_spec:
  assumes "boot_inv be i w" and "init_ports be i ports w = Inr (ok, w')"
  shows "(\<exists>j. boot_inv be j w') \<and>
    all_ports w' = all_ports w @ map of_nat (takeWhile (rte_eth_dev_is_valid_port be) (filter port_enabled ports)) \<and>
    gl_tcpCtxt w' = gl_tcpCtxt w \<and> map srv (g_threads w') = map srv (g_threads w) \<and>
    (ok \<longleftrightarrow> list_all (rte_eth_dev_is_valid_port be) (filter port_enabled ports))"
  using assms
proof (induction ports arbitrary: i w)
  case (Cons port ports)
  consider "\<not> port_enabled port" | "port_enabled port" "\<not> rte_eth_dev_is_valid_port be port"
    | "port_enabled port" "rte_eth_dev_is_valid_port be port" by blast
  then show ?case
  proof cases
    case 1
    with Cons show ?thesis by simp
  next
    case 2
    with Cons.prems show ?thesis by auto
  next
    case 3
    with Cons.prems(2) obtain j w1 where j: "next_lcore be i w = Inr j" "port_init be port j w = Inr w1"
      "init_ports be j ports w1 = Inr (ok, w')"
      by (auto simp: fault_simps)
    have "i < MAX_THREADS" using Cons.prems(1) by (simp add: boot_inv_def)
    from next_lcore_spec [OF j(1) this] have n: "i \<le> j" "j < MAX_THREADS" "rte_lcore_is_enabled be j"
      "j \<noteq> rte_get_main_lcore be" by auto
    from port_init_step [OF boot_inv_mono [OF Cons.prems(1) n(1,2)] n(3,4) 3(1) j(2)] Cons.IH [OF _ j(3)] 3
    show ?thesis by simp
  qed
qed auto

lemma thread_ports_length: "thread_ok t \<Longrightarrow> length (thread_ports t) = arr_cnt (portList t)"
  by (simp add: thread_ports_def thread_ok_def arr_list_length)

section \<open>Services\<close>

lemma set_services_spec:
  assumes "\<forall>t \<in> set ts. svcId < length (srv t)"
  shows "\<exists>ts'. set_services svcId r ts = Inr ts' \<and> length ts' = length ts \<and>
    (\<forall>i < length ts. ts' ! i = (ts ! i)\<lparr>srv := (srv (ts ! i))[svcId := r]\<rparr>)"
  using assms
proof (induction ts)
  case (Cons t ts)
  then obtain ts' where "set_services svcId r ts = Inr ts'" "length ts' = length ts"
    "\<forall>i < length ts. ts' ! i = (ts ! i)\<lparr>srv := (srv (ts ! i))[svcId := r]\<rparr>" by auto
  with Cons.prems show ?case by (auto simp: set_service_def nth_Cons split: nat.split)
qed simp

text \<open>The world after \<^verbatim>\<open>tcp_init\<close>.\<close>

definition with_tcp :: "'t world \<Rightarrow> 't world" where
  "with_tcp w = w\<lparr>g_threads := map (\<lambda>t. t\<lparr>srv := (srv t)[SERVICE_PROTO_TCP := TcpReactor]\<rparr>) (g_threads w)\<rparr>"

lemma with_tcp_ctx [simp]: "gl_tcpCtxt (with_tcp w) = gl_tcpCtxt w"
  by (simp add: with_tcp_def)

lemma with_tcp_thread:
  assumes "world_ok w" and "i < MAX_THREADS"
  shows "srv (g_threads (with_tcp w) ! i) = (srv (g_threads w ! i))[SERVICE_PROTO_TCP := TcpReactor]"
    and "thread_ports (g_threads (with_tcp w) ! i) = thread_ports (g_threads w ! i)"
  using world_okD(1) [OF assms] by (simp_all add: with_tcp_def thread_ports_def)

lemma with_tcp_ports: "all_ports (with_tcp w) = all_ports w"
  by (simp add: with_tcp_def all_ports_def thread_ports_def [abs_def] comp_def)

lemma with_tcp_ok: "world_ok w \<Longrightarrow> world_ok (with_tcp w)"
  by (auto simp: with_tcp_def world_ok_def list_all_iff thread_ok_def)

lemma tcp_init_spec:
  assumes "world_ok w"
  shows "tcp_init w = Inr (0, with_tcp w)"
proof -
  have "\<forall>t \<in> set (g_threads w). SERVICE_PROTO_TCP < length (srv t)"
    using assms by (auto simp: world_ok_def list_all_iff thread_ok_def size_defs)
  from set_services_spec [OF this, of TcpReactor] obtain ts where ts: "set_services SERVICE_PROTO_TCP TcpReactor (g_threads w) = Inr ts"
    "length ts = length (g_threads w)" "\<forall>i < length (g_threads w).
      ts ! i = (g_threads w ! i)\<lparr>srv := (srv (g_threads w ! i))[SERVICE_PROTO_TCP := TcpReactor]\<rparr>" by blast
  have "ts = map (\<lambda>t. t\<lparr>srv := (srv t)[SERVICE_PROTO_TCP := TcpReactor]\<rparr>) (g_threads w)"
    by (rule nth_equalityI) (use ts(2,3) in auto)
  with ts(1) show ?thesis by (simp add: tcp_init_def setServiceReactor_def with_tcp_def)
qed

section \<open>The start\<close>

text \<open>The world after the threads were initialised.\<close>

definition init_world :: "'t timer_api \<Rightarrow> 't world" where
  "init_world api = (world_new api)\<lparr>g_threads := map (\<lambda>t. snd (thread_init t)) (g_threads (world_new api))\<rparr>"

lemma init_world_simps:
  "g_threads (init_world api) = replicate MAX_THREADS (thread_new\<lparr>srv := replicate MAX_SERVICES NoneReactor, enabled := True\<rparr>)"
  "gl_tcpCtxt (init_world api) = replicate MAX_THREADS (tcpImpl_new api)"
  "world_ok (init_world api)" "all_ports (init_world api) = []"
  "i < MAX_THREADS \<Longrightarrow> thread_ports (g_threads (init_world api) ! i) = []"
proof -
  let ?t = "thread_new\<lparr>srv := replicate MAX_SERVICES NoneReactor, enabled := True\<rparr>"
  show g: "g_threads (init_world api) = replicate MAX_THREADS ?t"
    and c: "gl_tcpCtxt (init_world api) = replicate MAX_THREADS (tcpImpl_new api)"
    by (simp_all add: init_world_def world_new_def thread_init_def thread_new_def)
  have "thread_ok ?t" using thread_new_ok by (simp add: thread_ok_def)
  then show "world_ok (init_world api)"
    using g c by (simp add: world_ok_def list_all_iff tcp_inv_new MAX_THREADS_def)
  have "thread_ports ?t = []" by (simp add: thread_ports_def thread_new_def arr_new_def arr_list_def)
  then show "all_ports (init_world api) = []"
    and "i < MAX_THREADS \<Longrightarrow> thread_ports (g_threads (init_world api) ! i) = []"
    using g by (simp_all add: all_ports_def)
qed

lemma init_world_boot: "boot_inv be 0 (init_world api)"
  by (simp add: boot_inv_def init_world_simps(3,5)) (simp add: MAX_THREADS_def)

lemma main_startE:
  assumes "main_start api be = Inr w"
  obtains j w1 where "boot_inv be j w1" "gl_tcpCtxt w1 = replicate MAX_THREADS (tcpImpl_new api)"
    "all_ports w1 = map of_nat (takeWhile (rte_eth_dev_is_valid_port be) (filter port_enabled (dev_ids be)))"
    "\<forall>i < MAX_THREADS. srv (g_threads w1 ! i) = replicate MAX_SERVICES NoneReactor" "w = with_tcp w1"
proof -
  from assms obtain okf w1 r where i: "init_ports be 0 (dev_ids be) (init_world api) = Inr (okf, w1)"
    and t: "tcp_init w1 = Inr (r, w)"
    unfolding main_start_def by (auto simp: pm_init_def Let_def init_world_def fault_simps split: if_splits)
  from init_ports_spec [OF init_world_boot i] obtain j where w1: "boot_inv be j w1"
    "all_ports w1 = map of_nat (takeWhile (rte_eth_dev_is_valid_port be) (filter port_enabled (dev_ids be)))"
    "gl_tcpCtxt w1 = gl_tcpCtxt (init_world api)" "map srv (g_threads w1) = map srv (g_threads (init_world api))"
    by (auto simp: init_world_simps)
  have ok: "world_ok w1" using w1(1) by (simp add: boot_inv_def)
  have "srv (g_threads w1 ! i) = replicate MAX_SERVICES NoneReactor" if "i < MAX_THREADS" for i
    using that world_okD(1) [OF ok that] nth_map [of i "g_threads w1" srv] w1(4) by (simp add: init_world_simps)
  with that w1 tcp_init_spec [OF ok] t show ?thesis by (auto simp: init_world_simps)
qed

lemma main_start_ok:
  assumes "main_start api be = Inr w"
  shows "world_ok w" and "i < MAX_THREADS \<Longrightarrow> gl_tcpCtxt w ! i = tcpImpl_new api"
    and "i < MAX_THREADS \<Longrightarrow> srv (g_threads w ! i) ! SERVICE_PROTO_TCP = TcpReactor"
    and "all_ports w = map of_nat (takeWhile (rte_eth_dev_is_valid_port be) (filter port_enabled (dev_ids be)))"
    and "i < MAX_THREADS \<Longrightarrow> thread_ports (g_threads w ! i) \<noteq> [] \<Longrightarrow>
      rte_lcore_is_enabled be i \<and> i \<noteq> rte_get_main_lcore be"
proof -
  obtain j w1 where w1: "boot_inv be j w1" "gl_tcpCtxt w1 = replicate MAX_THREADS (tcpImpl_new api)"
    "all_ports w1 = map of_nat (takeWhile (rte_eth_dev_is_valid_port be) (filter port_enabled (dev_ids be)))"
    "\<forall>i < MAX_THREADS. srv (g_threads w1 ! i) = replicate MAX_SERVICES NoneReactor" "w = with_tcp w1"
    using assms by (rule main_startE)
  have ok: "world_ok w1" using w1(1) by (simp add: boot_inv_def)
  show "world_ok w" using with_tcp_ok [OF ok] w1(5) by simp
  show "i < MAX_THREADS \<Longrightarrow> gl_tcpCtxt w ! i = tcpImpl_new api" using w1(2,5) by simp
  show "i < MAX_THREADS \<Longrightarrow> srv (g_threads w ! i) ! SERVICE_PROTO_TCP = TcpReactor"
    using with_tcp_thread(1) [OF ok] w1(4,5) by (simp add: size_defs)
  show "all_ports w = map of_nat (takeWhile (rte_eth_dev_is_valid_port be) (filter port_enabled (dev_ids be)))"
    using w1(3,5) with_tcp_ports [of w1] by simp
  show "i < MAX_THREADS \<Longrightarrow> thread_ports (g_threads w ! i) \<noteq> [] \<Longrightarrow>
      rte_lcore_is_enabled be i \<and> i \<noteq> rte_get_main_lcore be"
    using with_tcp_thread(2) [OF ok] w1(1,5) by (simp add: boot_inv_def)
qed

section \<open>Properties\<close>

text \<open>
  The mask of the enabled ports is the decimal number 1111111, not seven one bits:
  of the ports 0 to 6 it enables 0, 1, 2 and 6 only, and further ones up to 20.
\<close>

theorem port_enabled_exactly:
  "port_enabled p \<longleftrightarrow> p \<in> {0, 1, 2, 6, 10, 12, 13, 14, 15, 20}"
proof -
  have b: "port_enabled p \<longleftrightarrow> bit PORT_CONFIG_MASK p"
  proof -
    have "PORT_CONFIG_MASK AND push_bit p 1 = (if bit PORT_CONFIG_MASK p then push_bit p 1 else 0)"
      by (rule bit_word_eqI) (auto simp: bit_simps)
    moreover have "push_bit p (1 :: u32) \<noteq> 0" if "bit PORT_CONFIG_MASK p"
    proof -
      have "p < LENGTH(32)" using that by (rule bit_imp_le_length)
      then have "bit (push_bit p (1 :: u32)) p" by (simp add: bit_simps)
      then show ?thesis by (auto simp del: push_bit_of_1)
    qed
    ultimately show ?thesis by (auto simp: port_enabled_def)
  qed
  show ?thesis
  proof (cases "p < 32")
    case True
    then have "p \<in> set [0..<32]" by simp
    moreover have "list_all (\<lambda>p. bit PORT_CONFIG_MASK p = (p \<in> set [0, 1, 2, 6, 10, 12, 13, 14, 15, 20])) [0..<32]"
      by code_simp
    ultimately show ?thesis unfolding b list_all_iff by auto
  next
    case False
    then have "\<not> bit PORT_CONFIG_MASK p" by (auto dest: bit_imp_le_length)
    with False show ?thesis unfolding b by auto
  qed
qed

text \<open>
  Property (C25). The start of the application, when it succeeds, leaves a well-formed world: every
  enabled port up to the first one that is not valid belongs to exactly one core, in order; no core has
  more than 15 ports; a core with ports is an enabled worker and not the main core; every thread has the
  TCP service and answers \<open>-1\<close> for the others; the TCP contexts are new.
\<close>

theorem main_start_world:
  assumes "main_start api be = Inr w"
  shows "world_ok w \<and>
    all_ports w = map of_nat (takeWhile (rte_eth_dev_is_valid_port be) (filter port_enabled (dev_ids be))) \<and>
    (\<forall>i < MAX_THREADS. length (thread_ports (g_threads w ! i)) \<le> 15 \<and>
       (thread_ports (g_threads w ! i) \<noteq> [] \<longrightarrow>
          rte_lcore_is_enabled be i \<and> i \<noteq> rte_get_main_lcore be) \<and>
       srv (g_threads w ! i) = (replicate MAX_SERVICES NoneReactor)[SERVICE_PROTO_TCP := TcpReactor] \<and>
       gl_tcpCtxt w ! i = tcpImpl_new api)"
proof -
  obtain j w1 where w1: "boot_inv be j w1" "gl_tcpCtxt w1 = replicate MAX_THREADS (tcpImpl_new api)"
    "all_ports w1 = map of_nat (takeWhile (rte_eth_dev_is_valid_port be) (filter port_enabled (dev_ids be)))"
    "\<forall>i < MAX_THREADS. srv (g_threads w1 ! i) = replicate MAX_SERVICES NoneReactor" "w = with_tcp w1"
    using assms by (rule main_startE)
  have ok1: "world_ok w1" using w1(1) by (simp add: boot_inv_def)
  note W = with_tcp_thread [OF ok1]
  have "length (thread_ports (g_threads w1 ! i)) \<le> 15" if "i < MAX_THREADS" for i
    using world_okD(3) [OF ok1 that] thread_ports_length [of "g_threads w1 ! i"]
    by (simp add: thread_ok_def MAX_RX_QUEUE_PER_LCORE_def)
  then show ?thesis using w1 W with_tcp_ok [OF ok1] with_tcp_ports [of w1] by (simp add: boot_inv_def)
qed

text \<open>A machine with four ports and three cores.\<close>

definition demo_boot :: boot_env where
  "demo_boot = \<lparr>rte_eal_init = 0, rte_eth_dev_count_avail = 4, pool_created = True, dev_ids = [0, 1, 2, 3],
     rte_eth_dev_is_valid_port = (\<lambda>p. True), rte_lcore_is_enabled = (\<lambda>i. i < 3), rte_get_main_lcore = 0,
     dev_before = (\<lambda>p. [0, 0, 0, 0, 0]), dev_start = (\<lambda>p. 0), be_zmalloc = (\<lambda>p. Some 1), be_set_cb = (\<lambda>p. 0)\<rparr>"

lemma demo_next_lcore:
  assumes "world_ok w"
  shows "next_lcore demo_boot 0 w = Inr 1" "next_lcore demo_boot 1 w = Inr 1"
proof -
  have t: "1 < length (g_threads w)" "thread_ok (g_threads w ! 1)"
    using world_okD [OF assms, of 1] by (simp_all add: MAX_THREADS_def)
  show one: "next_lcore demo_boot 1 w = Inr 1"
    by (subst next_lcore.simps) (use t in \<open>simp add: demo_boot_def arr_size_def thread_ok_def\<close>)
  show "next_lcore demo_boot 0 w = Inr 1"
    by (subst next_lcore.simps) (use one in \<open>simp add: demo_boot_def MAX_THREADS_def\<close>)
qed

lemma demo_init_ports:
  assumes "world_ok w" and "i \<in> {0, 1}" and "length (thread_ports (g_threads w ! 1)) + length ports \<le> 15"
  shows "\<exists>r. init_ports demo_boot i ports w = Inr r"
  using assms
proof (induction ports arbitrary: i w)
  case (Cons p ports)
  note D = world_okD [OF Cons.prems(1), of 1, unfolded MAX_THREADS_def]
  show ?case
  proof (cases "port_enabled p")
    case False
    with Cons show ?thesis by simp
  next
    case True
    have "arr_cnt (portList (g_threads w ! 1)) + 1 < MAX_RX_QUEUE_PER_LCORE"
      using Cons.prems(3) thread_ports_length [of "g_threads w ! 1"] D(3) by (simp add: MAX_RX_QUEUE_PER_LCORE_def)
    then obtain t' where t': "addPort (Some 1) 0 (of_nat p) (g_threads w ! 1) = Inr t'" "thread_ok t'"
      "thread_ports t' = thread_ports (g_threads w ! 1) @ [of_nat p]"
      using addPort_spec [of "g_threads w ! 1" "Some 1" 0 "of_nat p"] D(3) by auto
    let ?w = "set_thread 1 t' w"
    have p: "port_init demo_boot p 1 w = Inr ?w"
      using True t'(1) D(1) by (simp add: port_init_def) (simp add: demo_boot_def)
    have "g_threads ?w ! 1 = t'" using D(1) by simp
    then have "length (thread_ports (g_threads ?w ! 1)) + length ports \<le> 15" using Cons.prems(3) t'(3) by simp
    from Cons.IH [OF set_thread_ok [OF Cons.prems(1) t'(2)] _ this, of 1]
    obtain r where r: "init_ports demo_boot 1 ports ?w = Inr r" by auto
    have n: "next_lcore demo_boot i w = Inr 1" using Cons.prems(2) demo_next_lcore [OF Cons.prems(1)] by auto
    have v: "rte_eth_dev_is_valid_port demo_boot p" by (simp add: demo_boot_def)
    have m: "assertR ((1 :: nat) < MAX_THREADS) = Inr ()" by (simp add: MAX_THREADS_def)
    show ?thesis unfolding init_ports.simps n bindR_simps m p r using True v by simp
  qed
qed auto

lemma demo_main_start: "\<exists>w. main_start demo_timer demo_boot = Inr w"
proof -
  let ?w = "init_world demo_timer"
  have d: "dev_ids demo_boot = [0, 1, 2, 3]" "rte_eth_dev_count_avail demo_boot \<noteq> 0" "pool_created demo_boot"
    "\<not> rte_eal_init demo_boot < 0"
    by (simp_all add: demo_boot_def)
  have e: "thread_ports (g_threads ?w ! 1) = []" by (rule init_world_simps(5)) (simp add: MAX_THREADS_def)
  obtain okf w1 where i: "init_ports demo_boot 0 [0, 1, 2, 3] ?w = Inr (okf, w1)"
    using demo_init_ports [OF init_world_simps(3) [of demo_timer], of 0 "[0, 1, 2, 3]"] e by auto
  from init_ports_spec [OF init_world_boot i] have "world_ok w1" by (auto simp: boot_inv_def)
  note t = tcp_init_spec [OF this]
  have "\<forall>t \<in> set (g_threads (world_new demo_timer)). fst (thread_init t) = 0"
    by (simp add: thread_init_def)
  then show ?thesis
    unfolding main_start_def pm_init_def Let_def d(1) init_world_def [symmetric] i using d(2-) t by simp
qed

lemma demo_ports:
  "map of_nat (takeWhile (rte_eth_dev_is_valid_port demo_boot) (filter port_enabled (dev_ids demo_boot))) =
    [0, 1, 2 :: u32]"
  by code_simp

theorem main_start_world_witness:
  "\<exists>w. main_start demo_timer demo_boot = Inr w \<and> all_ports w = [0, 1, 2] \<and> world_ok w"
proof -
  obtain w where w: "main_start demo_timer demo_boot = Inr w" using demo_main_start by blast
  note demo_ports
  with main_start_world [OF w] w show ?thesis by simp
qed

text \<open>
  Property (C36). A core takes 15 ports: \<^verbatim>\<open>addPort\<close> appends the port with its transmit buffer while
  the core has fewer, and on the sixteenth port, for which there is a place in the array, the process
  aborts, because \<^verbatim>\<open>back\<close> asserts that the array is not full. The test for a full core in
  \<^verbatim>\<open>pm::init\<close> therefore never succeeds.
\<close>

theorem addPort_limit:
  assumes "thread_ok t" and "z \<noteq> None" and "0 \<le> cb"
  shows "(if length (thread_ports t) < 15
    then \<exists>t'. addPort z cb p t = Inr t' \<and> thread_ok t' \<and> thread_ports t' = thread_ports t @ [p]
    else addPort z cb p t = Inl AssertFailed) \<and>
    arr_size (portList t) \<noteq> MAX_RX_QUEUE_PER_LCORE"
proof -
  have n: "arr_cnt (portList t) + 1 < MAX_RX_QUEUE_PER_LCORE \<longleftrightarrow> length (thread_ports t) < 15"
    using thread_ports_length [OF assms(1)] by (auto simp: MAX_RX_QUEUE_PER_LCORE_def)
  show ?thesis using addPort_spec [OF assms, of p] assms(1) unfolding n
    by (auto simp: thread_ok_def arr_size_def split: if_splits)
qed

theorem addPort_limit_witness:
  "(\<exists>t'. addPort (Some 1) 0 4 demo_thread = Inr t' \<and> thread_ports t' = [0, 4]) \<and>
   addPort (Some 1) 0 4 (demo_thread\<lparr>portList := (portList demo_thread)\<lparr>arr_cnt := 15\<rparr>\<rparr>) = Inl AssertFailed"
proof -
  let ?t = "demo_thread\<lparr>portList := (portList demo_thread)\<lparr>arr_cnt := 15\<rparr>\<rparr>"
  have p: "thread_ports demo_thread = [0]" "length (thread_ports ?t) = 15"
    by (simp_all add: thread_ports_def demo_thread_def arr_list_def port_new_def MAX_RX_QUEUE_PER_LCORE_def)
  have "thread_ok ?t" using demo_thread_ok
    by (auto simp: thread_ok_def demo_thread_def arr_list_def size_defs dest: in_set_takeD)
  with addPort_limit [OF demo_thread_ok, of "Some 1" 0 4] addPort_limit [of ?t "Some 1" 0 4] p
  show ?thesis by auto
qed

end
