(* ===== verification/Workers.thy ===== *)
theory Workers
  imports Boot
begin

text \<open>
  The workers side by side: \<^verbatim>\<open>main\<close> of \<^verbatim>\<open>main.cc\<close> launches \<^verbatim>\<open>lcore_launch\<close> on every worker core,
  which enters \<^verbatim>\<open>pm::run\<close> and turns its loop until it reads a set \<^verbatim>\<open>g_quit\<close>; then \<^verbatim>\<open>main\<close>
  cleans up. A schedule is any sequence of steps of the workers. A step is the entry into
  \<^verbatim>\<open>run\<close>, one turn of its loop, or the end of the loop; a turn may be one step because, as shown here,
  it neither reads nor writes an object of another worker.
\<close>

section \<open>Workers\<close>

datatype worker_pc =
    Launched    \<comment> \<open>\<^verbatim>\<open>lcore_launch\<close> was called\<close>
  | Looping     \<comment> \<open>before the test of \<^verbatim>\<open>g_quit\<close>\<close>
  | Ended       \<comment> \<open>\<^verbatim>\<open>lcore_launch\<close> returned\<close>

text \<open>
  What a worker meets at a step: the value of \<^verbatim>\<open>g_quit\<close> it reads, and the turn if it is not set.
  \<^verbatim>\<open>g_quit\<close> is a volatile global that is 0 at first and that no source file writes, so in the program
  as it stands a worker with ports loops for ever. Here it may be read as set at any step, as a writer
  that is added would have it; the runs in which it never is are the program's own.
\<close>

type_synonym step_input = "bool \<times> turn"

definition run_enter :: "u64 \<Rightarrow> nat \<Rightarrow> 't world \<Rightarrow> fault + (worker_pc \<times> 't world)" where
  "run_enter hz i w =
     bindR (thread_at i w) (\<lambda>t.
       let t1 = t\<lparr>drain_tsc := (hz + 1000000 - 1) div 1000000 * BURST_TX_DRAIN_US\<rparr>;
           w1 = set_thread i t1 w in
       Inr (if arr_empty (portList t1) then Ended else Looping, w1))"

text \<open>\<^verbatim>\<open>lcore_launch\<close> on the core \<open>i\<close>, step by step.\<close>

fun worker_step ::
  "'t env \<Rightarrow> u64 \<Rightarrow> nat \<Rightarrow> worker_pc \<times> 't world \<Rightarrow> step_input \<Rightarrow> fault + (worker_pc \<times> 't world)" where
  "worker_step env hz i (Launched, w) inp = run_enter hz i w"
| "worker_step env hz i (Looping, w) (quit, tn) =
     (if quit then Inr (Ended, w) else bindR (txrxBurst env i tn w) (\<lambda>w1. Inr (Looping, w1)))"
| "worker_step env hz i (Ended, w) inp = Inr (Ended, w)"

section \<open>The application\<close>

record 't app =
  app_world :: "'t world"
  pcs :: "nat \<Rightarrow> worker_pc option"

text \<open>The cores \<^verbatim>\<open>rte_eal_mp_remote_launch\<close> calls with \<^verbatim>\<open>SKIP_MAIN\<close>; DPDK has \<open>n\<close> cores at most.\<close>

definition workers :: "boot_env \<Rightarrow> nat \<Rightarrow> nat list" where
  "workers be n = filter (\<lambda>i. rte_lcore_is_enabled be i \<and> i \<noteq> rte_get_main_lcore be) [0..<n]"

definition app_launch :: "boot_env \<Rightarrow> nat \<Rightarrow> 't world \<Rightarrow> 't app" where
  "app_launch be n w =
     \<lparr>app_world = w, pcs = (\<lambda>i. if i \<in> set (workers be n) then Some Launched else None)\<rparr>"

text \<open>One step of the application: the worker \<open>i\<close> goes on; there may be no such worker.\<close>

definition app_step :: "'t env \<Rightarrow> u64 \<Rightarrow> 't app \<Rightarrow> nat \<times> step_input \<Rightarrow> fault + 't app" where
  "app_step env hz a e =
     (let (i, inp) = e in
      case pcs a i of
        None \<Rightarrow> Inr a
      | Some pc \<Rightarrow> bindR (worker_step env hz i (pc, app_world a) inp) (\<lambda>(pc1, w1).
          Inr \<lparr>app_world = w1, pcs = (pcs a)(i \<mapsto> pc1)\<rparr>))"


section \<open>A worker alone\<close>

lemma worker_ended: "run_all (worker_step env hz i) (Ended, w) inps = Inr (Ended, w)"
  by (induction inps) auto

lemma worker_looping:
  "run_all (worker_step env hz i) (Looping, w) (map (Pair False) turns @ [(True, tn)]) =
     bindR (run_all (\<lambda>w tn. txrxBurst env i tn w) w turns) (\<lambda>w1. Inr (Ended, w1))"
proof (induction turns arbitrary: w)
  case (Cons x turns)
  then show ?case by (cases "txrxBurst env i x w") auto
qed simp

section \<open>What a worker reads\<close>

text \<open>Two worlds that agree on the objects of the thread \<open>i\<close>.\<close>

definition same_at :: "nat \<Rightarrow> 't world \<Rightarrow> 't world \<Rightarrow> bool" where
  "same_at i w v \<longleftrightarrow>
     i < length (g_threads w) \<and> i < length (g_threads v) \<and>
     i < length (gl_tcpCtxt w) \<and> i < length (gl_tcpCtxt v) \<and>
     g_threads w ! i = g_threads v ! i \<and> gl_tcpCtxt w ! i = gl_tcpCtxt v ! i"

abbreviation agree_at :: "nat \<Rightarrow> fault + 't world \<Rightarrow> fault + 't world \<Rightarrow> bool" where
  "agree_at i \<equiv> rel_sum (=) (same_at i)"

lemma same_at_log [simp]:
  "same_at i (w\<lparr>mb_log := l\<rparr>) v = same_at i w v" "same_at i w (v\<lparr>mb_log := l\<rparr>) = same_at i w v"
  by (simp_all add: same_at_def)

lemma same_at_set: "same_at i w v \<Longrightarrow> same_at i (set_thread i t w) (set_thread i t v)"
  by (simp add: same_at_def)

lemma same_at_thread: "same_at i w v \<Longrightarrow> thread_at i w = thread_at i v"
  by (simp add: same_at_def)

lemma handleTcpRx_any_log:
  "rel_sum (=) (\<lambda>x y. snd x = snd y) (handleTcpRx net rd api thr pkt (l1, self)) (handleTcpRx net rd api thr pkt (l2, self))"
  unfolding handleTcpRx_def
  by (auto simp: split_beta Let_def intro!: rel_bindR_eq split: option.split)

lemma call_reactor_same:
  assumes "same_at i w v"
  shows "rel_sum (=) (rel_prod (=) (same_at i)) (call_reactor env i r msgId pkt w) (call_reactor env i r msgId pkt v)"
proof (cases r)
  case TcpReactor
  note h = handleTcpRx_any_log [of "e_net env" "e_rd env" "e_tmr env" "int i" pkt "mb_log w" "gl_tcpCtxt v ! i" "mb_log v"]
  show ?thesis using assms TcpReactor
    by (auto simp: call_reactor_def TCP_REACTOR_def same_at_def split_beta bindR_assoc intro!: rel_bindR [OF h])
qed (use assms in \<open>simp_all add: call_reactor_def\<close>)

lemma reactorPost_same:
  assumes "same_at i w v"
  shows "rel_sum (=) (rel_prod (=) (same_at i))
    (reactorPost env i i dst src msgId pkt w) (reactorPost env i i dst src msgId pkt v)"
  unfolding reactorPost_def same_at_thread [OF assms]
  by (auto intro!: rel_bindR_eq rel_bindR [OF call_reactor_same [OF assms]])

lemma processRx_same:
  assumes "same_at i w v" and "i < 256"
  shows "agree_at i (processRx env i pkt port w) (processRx env i pkt port v)"
proof -
  obtain p m where pkt: "pkt = (p, m)" by (cases pkt)
  show ?thesis using assms unfolding processRx_def pkt
    by (auto simp: Let_def split_beta intro!: rel_bindR_eq rel_bindR [OF reactorPost_same] split: option.split)
qed

lemma process_burst_same:
  assumes "same_at i w v" and "i < 256"
  shows "agree_at i (process_burst env i port xs w) (process_burst env i port xs v)"
  using assms(1)
proof (induction xs arbitrary: w v)
  case (Cons x xs)
  then show ?case
    by (auto intro!: rel_bindR [OF processRx_same [OF _ assms(2)]] split: option.split)
qed simp

lemma rx_ports_same:
  assumes "same_at i w v" and "i < 256"
  shows "agree_at i (rx_ports env i rx k n w) (rx_ports env i rx k n v)"
  using assms(1)
proof (induction n arbitrary: k w v)
  case (Suc n)
  then show ?case unfolding rx_ports.simps same_at_thread [OF Suc.prems]
    by (auto simp: Let_def intro!: rel_bindR_eq rel_bindR [OF process_burst_same [OF _ assms(2)]] same_at_set)
qed simp

lemma txrxBurst_same:
  assumes "same_at i w v" and "i < 256"
  shows "agree_at i (txrxBurst env i tn w) (txrxBurst env i tn v)"
  unfolding txrxBurst_def same_at_thread [OF assms(1)]
  using assms
  by (auto simp: Let_def split_beta bindR_assoc intro!: rel_bindR_eq rx_ports_same same_at_set)

lemma worker_step_same:
  assumes "same_at i w v" and "i < MAX_THREADS"
  shows "rel_sum (=) (rel_prod (=) (same_at i)) (worker_step env hz i (pc, w) inp) (worker_step env hz i (pc, v) inp)"
proof -
  have i: "i < 256" using assms(2) by (simp add: MAX_THREADS_def)
  obtain quit tn where inp: "inp = (quit, tn)" by (cases inp)
  show ?thesis
  proof (cases pc)
    case Launched
    then show ?thesis using assms(1) unfolding worker_step.simps run_enter_def same_at_thread [OF assms(1)]
      by (auto simp: run_enter_def same_at_thread [OF assms(1)] Let_def intro!: rel_bindR_eq same_at_set)
  next
    case Looping
    then show ?thesis using assms(1) inp
      by (auto intro!: rel_bindR [OF txrxBurst_same [OF assms(1) i]])
  qed (use assms(1) in simp)
qed

section \<open>What a worker changes\<close>

text \<open>A step of the worker \<open>i\<close>: the ports and services of all threads stay, and the other threads' objects.\<close>

definition step_frame :: "nat \<Rightarrow> 't world \<Rightarrow> 't world \<Rightarrow> bool" where
  "step_frame i w w' \<longleftrightarrow>
     world_ok w' \<and>
     (\<forall>j < MAX_THREADS. j \<noteq> i \<longrightarrow> g_threads w' ! j = g_threads w ! j \<and> gl_tcpCtxt w' ! j = gl_tcpCtxt w ! j) \<and>
     (\<forall>j < MAX_THREADS. thread_ports (g_threads w' ! j) = thread_ports (g_threads w ! j) \<and>
        srv (g_threads w' ! j) = srv (g_threads w ! j))"

lemma step_frame_refl [simp]: "world_ok w \<Longrightarrow> step_frame i w w"
  by (simp add: step_frame_def)

lemma step_frame_thread:
  assumes "world_ok w" and "world_ok w'" and "i < MAX_THREADS" and "g_threads w' = (g_threads w)[i := t]" and "ctx_frame i w w'"
    and "thread_ports t = thread_ports (g_threads w ! i)" and "srv t = srv (g_threads w ! i)"
  shows "step_frame i w w'"
  using assms by (auto simp: step_frame_def ctx_frame_def nth_list_update world_ok_def)

lemma run_enter_frame:
  assumes ok: "world_ok w" and i: "i < MAX_THREADS"
  shows "\<exists>w'. run_enter hz i w = Inr (if thread_ports (g_threads w ! i) = [] then Ended else Looping, w') \<and>
    step_frame i w w' \<and> gl_tcpCtxt w' = gl_tcpCtxt w"
proof -
  note D = world_okD [OF ok i]
  let ?t = "(g_threads w ! i)\<lparr>drain_tsc := (hz + 1000000 - 1) div 1000000 * BURST_TX_DRAIN_US\<rparr>"
  have "arr_empty (portList ?t) \<longleftrightarrow> thread_ports (g_threads w ! i) = []"
    using thread_ports_length [OF D(3)] by (auto simp: arr_empty_def)
  then have "run_enter hz i w =
      Inr (if thread_ports (g_threads w ! i) = [] then Ended else Looping, set_thread i ?t w)"
    using D(1) by (simp add: run_enter_def Let_def)
  moreover have "thread_ok ?t" using D(3) by (simp add: thread_ok_def)
  then have "step_frame i w (set_thread i ?t w)"
    using D(1) by (intro step_frame_thread [OF ok set_thread_ok [OF ok] i, where t = ?t]) (simp_all add: thread_ports_def)
  ultimately show ?thesis by auto
qed

lemma txrxBurst_frame:
  assumes ok: "world_ok w" and i: "i < MAX_THREADS" and res: "txrxBurst env i tn w = Inr w'"
  shows "step_frame i w w'"
proof -
  obtain tsc flush rx where tn: "tn = (tsc, flush, rx)" by (cases tn)
  let ?t = "g_threads w ! i"
  obtain t' where t': "g_threads w' = (g_threads w)[i := t']" "ctx_frame i w w'" "thread_ok t'"
      "arr_cnt (portList t') = arr_cnt (portList ?t)" "srv t' = srv ?t"
      "\<forall>k < arr_cnt (portList t'). portId (arr_data (portList t') ! k) = portId (arr_data (portList ?t) ! k)"
    using txrxBurst_result [OF ok i res [unfolded tn]] by auto
  have "thread_ok ?t" using world_okD(3) [OF ok i] .
  then have "thread_ports t' = thread_ports ?t"
    using t' by (intro nth_equalityI) (auto simp: thread_ports_length, auto simp: thread_ports_def arr_list_def thread_ok_def)
  then show ?thesis using step_frame_thread [OF ok txrxBurst_ok [OF ok i res] i t'(1,2)] t'(5) by simp
qed

lemma worker_step_frame:
  assumes ok: "world_ok w" and i: "i < MAX_THREADS" and step: "worker_step env hz i (pc, w) inp = Inr (pc', w')"
  shows "step_frame i w w' \<and>
    (pc' = Looping \<longrightarrow> pc = Looping \<or> thread_ports (g_threads w ! i) \<noteq> []) \<and>
    (pc \<noteq> Looping \<longrightarrow> gl_tcpCtxt w' = gl_tcpCtxt w)"
proof -
  obtain quit tn where inp: "inp = (quit, tn)" by (cases inp)
  show ?thesis
  proof (cases pc)
    case Launched
    with step run_enter_frame [OF ok i, of hz] show ?thesis by (auto split: if_splits)
  next
    case Looping
    with step inp ok txrxBurst_frame [OF ok i, of env tn w'] show ?thesis by (auto simp: fault_simps split: if_splits)
  next
    case Ended
    with step ok show ?thesis by simp
  qed
qed

section \<open>Schedules\<close>

text \<open>The steps of one worker in a schedule.\<close>

definition own :: "nat \<Rightarrow> (nat \<times> step_input) list \<Rightarrow> step_input list" where
  "own i sched = map snd (filter (\<lambda>e. fst e = i) sched)"

lemma own_simps [simp]:
  "own i [] = []" "own i ((j, inp) # sched) = (if j = i then inp # own i sched else own i sched)"
  by (simp_all add: own_def)

text \<open>A well-formed application: all workers have a thread object.\<close>

definition app_ok :: "'t app \<Rightarrow> bool" where
  "app_ok a \<longleftrightarrow> world_ok (app_world a) \<and> (\<forall>i. pcs a i \<noteq> None \<longrightarrow> i < MAX_THREADS)"

lemma app_step_ok:
  assumes "app_ok a" and "app_step env hz a (i, inp) = Inr a'" and "pcs a i = Some pc"
  shows "\<exists>pc' w'. worker_step env hz i (pc, app_world a) inp = Inr (pc', w') \<and>
    a' = \<lparr>app_world = w', pcs = (pcs a)(i \<mapsto> pc')\<rparr> \<and> step_frame i (app_world a) w' \<and> app_ok a'"
proof -
  have ok: "world_ok (app_world a)" "i < MAX_THREADS" using assms(1,3) by (auto simp: app_ok_def)
  obtain pc' w' where s: "worker_step env hz i (pc, app_world a) inp = Inr (pc', w')"
      "a' = \<lparr>app_world = w', pcs = (pcs a)(i \<mapsto> pc')\<rparr>"
    using assms(2,3) by (auto simp: app_step_def fault_simps)
  from worker_step_frame [OF ok s(1)] s assms(1) ok(2) show ?thesis
    by (auto simp: app_ok_def step_frame_def)
qed

lemma app_step_none: "pcs a i = None \<Longrightarrow> app_step env hz a (i, inp) = Inr a"
  by (simp add: app_step_def)

lemma app_step_workers:
  assumes "app_ok a" and "app_step env hz a e = Inr a'"
  shows "app_ok a'" and "pcs a' i \<noteq> None \<longleftrightarrow> pcs a i \<noteq> None"
proof -
  obtain j inp where e: "e = (j, inp)" by (cases e)
  have "app_ok a' \<and> (pcs a' i \<noteq> None \<longleftrightarrow> pcs a i \<noteq> None)"
  proof (cases "pcs a j")
    case None
    with assms e show ?thesis by (simp add: app_step_none)
  next
    case (Some pc)
    from app_step_ok [OF assms(1) assms(2) [unfolded e] Some] Some show ?thesis by (auto split: if_splits)
  qed
  then show "app_ok a'" and "pcs a' i \<noteq> None \<longleftrightarrow> pcs a i \<noteq> None" by simp_all
qed

interpretation app_run: kept_invariant "app_step env hz" app_ok for env :: "'t env" and hz
  by unfold_locales (rule app_step_workers(1))

text \<open>The worker \<open>i\<close> at \<open>pc\<close> in the world \<open>v\<close> is in the state it has in the application.\<close>

definition follows :: "nat \<Rightarrow> worker_pc \<times> 't world \<Rightarrow> 't app \<Rightarrow> bool" where
  "follows i s a \<longleftrightarrow> pcs a i = Some (fst s) \<and> same_at i (snd s) (app_world a)"

lemma own_Cons: "own i (e # sched) = own i [e] @ own i sched"
  by (simp add: own_def)

lemma app_step_follows:
  assumes "app_ok a" and "follows i s a" and "app_step env hz a e = Inr a1"
  shows "\<exists>s1. run_all (worker_step env hz i) s (own i [e]) = Inr s1 \<and> follows i s1 a1 \<and> app_ok a1"
proof -
  obtain j inp where e: "e = (j, inp)" by (cases e)
  obtain spc v where s: "s = (spc, v)" by (cases s)
  show ?thesis
  proof (cases "pcs a j")
    case None
    then have "a1 = a" "j \<noteq> i" using assms(2,3) e by (auto simp: app_step_none follows_def)
    with assms(1,2) e show ?thesis by simp
  next
    case (Some pc)
    from app_step_ok [OF assms(1) assms(3) [unfolded e] Some] obtain pc1 w1 where
      w1: "worker_step env hz j (pc, app_world a) inp = Inr (pc1, w1)"
      "a1 = \<lparr>app_world = w1, pcs = (pcs a)(j \<mapsto> pc1)\<rparr>" "step_frame j (app_world a) w1" "app_ok a1" by blast
    have lt: "i < MAX_THREADS" "j < MAX_THREADS" using assms(1,2) Some by (auto simp: app_ok_def follows_def)
    show ?thesis
    proof (cases "j = i")
      case True
      with assms(2) Some s have v: "spc = pc" "same_at i v (app_world a)" by (auto simp: follows_def)
      from worker_step_same [OF v(2) lt(1), of env hz pc inp] w1(1) True
      obtain v1 where "worker_step env hz i (pc, v) inp = Inr (pc1, v1)" "same_at i v1 w1"
        by (auto elim: rel_sum.cases)
      with w1(2,4) True e s v(1) show ?thesis by (simp add: follows_def)
    next
      case False
      have "same_at i v w1"
        using assms(2) s w1(2,3,4) lt False by (auto simp: follows_def same_at_def step_frame_def world_ok_def)
      with assms(2) s w1(2,4) False e show ?thesis by (simp add: follows_def)
    qed
  qed
qed

lemma app_step_fault:
  assumes "app_step env hz a e = Inl f" and "app_ok a"
  shows "\<exists>i. pcs a i \<noteq> None \<and> (\<forall>s. follows i s a \<longrightarrow> run_all (worker_step env hz i) s (own i [e]) = Inl f)"
proof -
  obtain i inp where e: "e = (i, inp)" by (cases e)
  from assms(1) e obtain pc where pc: "pcs a i = Some pc" "worker_step env hz i (pc, app_world a) inp = Inl f"
    by (cases "pcs a i") (auto simp: app_step_def bindR_def split: sum.splits)
  have "worker_step env hz i s inp = Inl f" if fol: "follows i s a" for s
  proof -
    obtain v where "s = (pc, v)" "same_at i v (app_world a)" using fol pc(1) by (cases s) (auto simp: follows_def)
    moreover have "i < MAX_THREADS" using assms(2) pc(1) by (auto simp: app_ok_def)
    ultimately show ?thesis using worker_step_same [of i v "app_world a" env hz pc inp] pc(2)
      by (auto elim: rel_sum.cases)
  qed
  with e pc(1) show ?thesis by (intro exI [of _ i]) auto
qed

text \<open>A schedule that runs through is for each worker a run of its own; one that fails fails for one of them.\<close>

lemma app_run_own:
  assumes "app_ok a" and "follows i s a" and "run_all (app_step env hz) a sched = Inr a'"
  shows "\<exists>s'. run_all (worker_step env hz i) s (own i sched) = Inr s' \<and> follows i s' a'"
  using assms
proof (induction sched arbitrary: a s)
  case (Cons e sched)
  from Cons.prems(3) obtain a1 where a1: "app_step env hz a e = Inr a1" "run_all (app_step env hz) a1 sched = Inr a'"
    by (auto simp: fault_simps)
  obtain s1 where s1: "run_all (worker_step env hz i) s (own i [e]) = Inr s1" "follows i s1 a1" "app_ok a1"
    using app_step_follows [OF Cons.prems(1,2) a1(1)] by blast
  from Cons.IH [OF s1(3,2) a1(2)] s1(1) show ?case unfolding own_Cons [of i e sched] run_all_append by simp
qed simp

lemma app_run_fault:
  assumes "app_ok a" and "run_all (app_step env hz) a sched = Inl f"
  shows "\<exists>i. pcs a i \<noteq> None \<and> (\<forall>s. follows i s a \<longrightarrow> run_all (worker_step env hz i) s (own i sched) = Inl f)"
  using assms
proof (induction sched arbitrary: a)
  case (Cons e sched)
  show ?case
  proof (cases "app_step env hz a e")
    case (Inl g)
    with Cons.prems app_step_fault [OF Inl] show ?thesis unfolding own_Cons [of _ e sched] run_all_append by auto
  next
    case (Inr a1)
    note ok1 = app_step_workers(1) [OF Cons.prems(1) Inr] and dom = app_step_workers(2) [OF Cons.prems(1) Inr]
    from Cons.IH [OF ok1] Cons.prems(2) Inr obtain i where i: "pcs a1 i \<noteq> None"
      "\<forall>s. follows i s a1 \<longrightarrow> run_all (worker_step env hz i) s (own i sched) = Inl f" by auto
    have "run_all (worker_step env hz i) s (own i (e # sched)) = Inl f" if "follows i s a" for s
      using app_step_follows [OF Cons.prems(1) that Inr] i(2) unfolding own_Cons [of i e sched] run_all_append by auto
    with i(1) dom show ?thesis by blast
  qed
qed simp

section \<open>What a turn keeps of the context\<close>

text \<open>
  A property of the context that \<^verbatim>\<open>handleTcpRx\<close> keeps on the thread \<open>thr\<close> is kept by everything the
  thread does: packets reach the context through \<^verbatim>\<open>handleTcpRx\<close> only.
\<close>

definition ctx_at :: "('t tcpImpl \<Rightarrow> bool) \<Rightarrow> nat \<Rightarrow> 't world \<Rightarrow> bool" where
  "ctx_at P thr w \<longleftrightarrow> thr < length (gl_tcpCtxt w) \<and> P (gl_tcpCtxt w ! thr)"

lemma ctx_at_simps [simp]:
  "ctx_at P thr (w\<lparr>mb_log := l\<rparr>) = ctx_at P thr w" "ctx_at P thr (set_thread i t w) = ctx_at P thr w"
  by (simp_all add: ctx_at_def)

locale context_property =
  fixes env :: "'t env" and thr :: nat and P :: "'t tcpImpl \<Rightarrow> bool"
  assumes thr_byte: "thr < 256"
    and handle_keeps: "P self \<Longrightarrow>
      handleTcpRx (e_net env) (e_rd env) (e_tmr env) (int thr) pkt (l, self) = Inr (l', self') \<Longrightarrow> P self'"
begin

lemma call_keeps:
  assumes "ctx_at P thr w" and "call_reactor env thr r msgId pkt w = Inr (ret, w')"
  shows "ctx_at P thr w'"
  using assms
  by (cases r) (auto simp: call_reactor_def TCP_REACTOR_def ctx_at_def fault_simps
      dest!: handle_keeps [rotated] split: if_splits)

lemma post_keeps:
  assumes "ctx_at P thr w" and "reactorPost env thr thr dst src msgId pkt w = Inr (ret, w')"
  shows "ctx_at P thr w'"
  using assms by (auto simp: reactorPost_def fault_simps dest: call_keeps split: if_splits)

lemma processRx_keeps:
  assumes "ctx_at P thr w" and "processRx env thr pkt port w = Inr w'"
  shows "ctx_at P thr w'"
proof -
  obtain p m where pkt: "pkt = (p, m)" by (cases pkt)
  show ?thesis using assms thr_byte pkt
    by (auto simp: processRx_def fault_simps Let_def dest!: post_keeps [rotated] split: option.splits if_splits)
qed

lemma process_burst_keeps:
  assumes "ctx_at P thr w" and "process_burst env thr port xs w = Inr w'"
  shows "ctx_at P thr w'"
  using assms
proof (induction xs arbitrary: w)
  case (Cons x xs)
  then show ?case by (auto simp: fault_simps dest: processRx_keeps split: option.splits)
qed simp

lemma rx_ports_keeps:
  assumes "ctx_at P thr w" and "rx_ports env thr rx k n w = Inr w'"
  shows "ctx_at P thr w'"
  using assms
proof (induction n arbitrary: k w)
  case (Suc n)
  then show ?case by (auto simp: fault_simps Let_def dest!: process_burst_keeps [rotated])
qed simp

lemma txrxBurst_keeps:
  assumes "ctx_at P thr w" and "txrxBurst env thr tn w = Inr w'"
  shows "ctx_at P thr w'"
  using assms
  by (auto simp: txrxBurst_def Let_def fault_simps split_beta dest!: rx_ports_keeps [rotated] split: if_splits)

end

text \<open>A new context stays new: a segment that would change it aborts.\<close>

lemma handleTcpRx_new:
  assumes "handleTcpRx net rd api thr pkt (l, tcpImpl_new api0) = Inr (l', self')"
  shows "self' = tcpImpl_new api0"
  using assms by (cases pkt) (auto simp: handleTcpRx_def Let_def fault_simps new_context_aborts split: option.splits)

interpretation new_ctx: context_property env "thr mod MAX_THREADS" "\<lambda>self. self = tcpImpl_new api0"
  for env :: "'t env" and thr api0
  by unfold_locales (auto simp: MAX_THREADS_def dest: handleTcpRx_new less_trans [OF mod_less_divisor])

text \<open>Clients that are half-open stay so: the property of the packets on the wire, for a whole turn.\<close>

interpretation half_open_ctx: context_property env "thr mod MAX_THREADS" "\<lambda>self. half_open ([], self)"
  for env :: "'t env" and thr
proof
  show "thr mod MAX_THREADS < 256" by (simp add: MAX_THREADS_def less_trans [OF mod_less_divisor])
  fix pkt l l' self self'
  assume h: "half_open ([], self :: 't tcpImpl)"
    and r: "handleTcpRx (e_net env) (e_rd env) (e_tmr env) (int (thr mod MAX_THREADS)) pkt (l, self) = Inr (l', self')"
  have "half_open (l', self')"
    by (rule wire.step_inv [of "(l, self)" "e_net env" "e_rd env" "e_tmr env" "int (thr mod MAX_THREADS)" "WirePkt pkt"])
      (use h r in \<open>simp_all add: half_open_def\<close>)
  then show "half_open ([], self')" by (simp add: half_open_def)
qed

section \<open>The application from its start\<close>

text \<open>
  What a schedule keeps of the world \<open>w0\<close> it starts from: ports and services; the loop runs only on
  threads with ports; and of the contexts all that each packet keeps.
\<close>

definition app_keeps :: "'t world \<Rightarrow> 't app \<Rightarrow> bool" where
  "app_keeps w0 a \<longleftrightarrow> app_ok a \<and>
     (\<forall>i < MAX_THREADS. thread_ports (g_threads (app_world a) ! i) = thread_ports (g_threads w0 ! i) \<and>
        srv (g_threads (app_world a) ! i) = srv (g_threads w0 ! i) \<and>
        (pcs a i = Some Looping \<longrightarrow> thread_ports (g_threads w0 ! i) \<noteq> []))"

definition all_new :: "'t timer_api \<Rightarrow> 't app \<Rightarrow> bool" where
  "all_new api a \<longleftrightarrow> app_ok a \<and> (\<forall>i < MAX_THREADS. gl_tcpCtxt (app_world a) ! i = tcpImpl_new api)"

lemma app_keeps_step:
  assumes "app_keeps w0 a" and "app_step env hz a e = Inr a'"
  shows "app_keeps w0 a'"
proof -
  obtain i inp where e: "e = (i, inp)" by (cases e)
  have ok: "app_ok a" using assms(1) by (simp add: app_keeps_def)
  show ?thesis
  proof (cases "pcs a i")
    case None
    with assms e show ?thesis by (simp add: app_step_none)
  next
    case (Some pc)
    from app_step_ok [OF ok assms(2) [unfolded e] Some] obtain pc' w' where
      s: "worker_step env hz i (pc, app_world a) inp = Inr (pc', w')"
      "a' = \<lparr>app_world = w', pcs = (pcs a)(i \<mapsto> pc')\<rparr>" "step_frame i (app_world a) w'" "app_ok a'" by blast
    have w: "world_ok (app_world a)" "i < MAX_THREADS" using ok Some by (auto simp: app_ok_def)
    have "pc' = Looping \<longrightarrow> thread_ports (g_threads w0 ! i) \<noteq> []"
      using worker_step_frame [OF w s(1)] assms(1) Some w(2) by (auto simp: app_keeps_def)
    then show ?thesis using s(2,3,4) assms(1) by (simp add: app_keeps_def step_frame_def)
  qed
qed

lemma all_new_step:
  assumes "all_new api a" and "app_step env hz a e = Inr a'"
  shows "all_new api a'"
proof -
  obtain i quit tn where e: "e = (i, quit, tn)" by (cases e)
  have ok: "app_ok a" using assms(1) by (simp add: all_new_def)
  show ?thesis
  proof (cases "pcs a i")
    case None
    with assms e show ?thesis by (simp add: app_step_none)
  next
    case (Some pc)
    from app_step_ok [OF ok assms(2) [unfolded e] Some] obtain pc' w' where
      s: "worker_step env hz i (pc, app_world a) (quit, tn) = Inr (pc', w')"
      "a' = \<lparr>app_world = w', pcs = (pcs a)(i \<mapsto> pc')\<rparr>" "step_frame i (app_world a) w'" "app_ok a'" by blast
    have w: "world_ok (app_world a)" "i < MAX_THREADS" "i mod MAX_THREADS = i"
      using ok Some by (auto simp: app_ok_def)
    have "gl_tcpCtxt w' ! i = tcpImpl_new api"
    proof (cases "pc = Looping \<and> \<not> quit")
      case True
      have "ctx_at (\<lambda>self. self = tcpImpl_new api) i (app_world a)"
        using assms(1) w world_okD(2) [OF w(1,2)] by (simp add: ctx_at_def all_new_def)
      with new_ctx.txrxBurst_keeps [of api i "app_world a" env tn w'] True s(1) w(3)
      show ?thesis by (auto simp: ctx_at_def fault_simps)
    next
      case False
      then have "gl_tcpCtxt w' = gl_tcpCtxt (app_world a)"
        using worker_step_frame [OF w(1,2) s(1)] s(1) by (cases pc) auto
      then show ?thesis using assms(1) w(2) by (simp add: all_new_def)
    qed
    then show ?thesis using s(2,3,4) assms(1) by (auto simp: all_new_def step_frame_def)
  qed
qed

interpretation app_keeps_run: kept_invariant "app_step env hz" "app_keeps w0" for env :: "'t env" and hz w0
  by unfold_locales (rule app_keeps_step)

interpretation all_new_run: kept_invariant "app_step env hz" "all_new api" for env :: "'t env" and hz api
  by unfold_locales (rule all_new_step)

text \<open>A worker that has entered its loop and reads a set \<^verbatim>\<open>g_quit\<close> has ended.\<close>

lemma worker_quits:
  assumes "run_all (worker_step env hz i) (Looping, w) inps = Inr (pc, w')" and "\<exists>x \<in> set inps. fst x"
  shows "pc = Ended"
  using assms
proof (induction inps arbitrary: w)
  case (Cons inp inps)
  then show ?case by (cases inp) (auto simp: fault_simps worker_ended split: if_splits)
qed simp

lemma worker_ends:
  assumes "run_all (worker_step env hz i) (Launched, w) inps = Inr (pc, w')" and "\<exists>x \<in> set (tl inps). fst x"
  shows "pc = Ended"
proof -
  obtain x xs where i: "inps = x # xs" using assms(2) by (cases inps) auto
  with assms(1) obtain pc1 w1 where r: "run_enter hz i w = Inr (pc1, w1)" "run_all (worker_step env hz i) (pc1, w1) xs = Inr (pc, w')"
    by (auto simp: fault_simps)
  then have "pc1 = Ended \<or> pc1 = Looping" by (auto simp: run_enter_def fault_simps Let_def split: if_splits)
  with r(2) assms(2) i show ?thesis by (auto simp: worker_ended dest: worker_quits)
qed

lemma app_launch_ok:
  assumes "world_ok w" and "list_all (\<lambda>i. i < MAX_THREADS) (workers be n)"
  shows "app_ok (app_launch be n w)"
  using assms by (simp add: app_ok_def app_launch_def list_all_iff)



text \<open>An accepted segment on a new context: \<^verbatim>\<open>processRx\<close> and the turn it belongs to abort.\<close>

lemma processRx_new_aborts:
  assumes len: "thr < length (g_threads w)" "thr < length (gl_tcpCtxt w)" "thr < 256"
    "SERVICE_PROTO_TCP < length (srv (g_threads w ! thr))"
    and tcp: "srv (g_threads w ! thr) ! SERVICE_PROTO_TCP = TcpReactor"
    and new: "gl_tcpCtxt w ! thr = tcpImpl_new api"
    and v4: "rx_version (e_net env) m = Some 4"
    and parse: "tcp_parse (e_net env) 8000 m = Inr (Some (h, r))" and sp: "sport h \<noteq> None"
  shows "processRx env thr (p, m) port w = Inl AssertFailed"
proof -
  obtain reader iphdr where hdr: "rx_ip_header (e_net env) m = Inr (Some (reader, iphdr))"
    "load8 iphdr (off_next_proto_id (e_net env)) = Inr 6"
    using tcp_parse_Some [OF parse] by blast
  from v4 hdr(1) obtain v where v: "load8 iphdr (off_version_ihl (e_net env)) = Inr v" "drop_bit 4 (0xF0 AND v) = 4"
    by (auto simp: rx_version_def simp del: drop_bit_and split: sum.splits)
  have "handleTcpRx (e_net env) (e_rd env) (e_tmr env) (int thr) (p, m) (mb_log w, tcpImpl_new api) = Inl AssertFailed"
    using parse sp by (auto simp: handleTcpRx_def Let_def new_context_aborts)
  then have "reactorPost env thr thr SERVICE_PROTO_TCP SERVICE_PROTO_TCP MSG_TCP_RX (p, m) w = Inl AssertFailed"
    using len tcp new by (simp add: reactorPost_tcp)
  then show ?thesis using hdr v len(3)
    unfolding processRx_def by (auto simp: Let_def simp del: drop_bit_and)
qed

lemma txrxBurst_new_aborts:
  assumes ok: "world_ok w" "thr < MAX_THREADS" and tcp: "srv (g_threads w ! thr) ! SERVICE_PROTO_TCP = TcpReactor"
    and new: "gl_tcpCtxt w ! thr = tcpImpl_new api" and ports: "thread_ports (g_threads w ! thr) \<noteq> []"
    and v4: "rx_version (e_net env) m = Some 4"
    and parse: "tcp_parse (e_net env) 8000 m = Inr (Some (h, r))" and sp: "sport h \<noteq> None"
    and rx: "rx 0 = (p, m) # rest" "length (rx 0) \<le> MAX_PKT_BURST"
  shows "txrxBurst env thr (tsc, flush, rx) w = Inl AssertFailed"
proof -
  note D = world_okD [OF ok]
  let ?t = "g_threads w ! thr"
  let ?w = "set_thread thr (flushed tsc flush ?t) w"
  obtain n where n: "arr_cnt (portList ?t) = Suc n"
    using ports thread_ports_length [OF D(3)] by (cases "arr_cnt (portList ?t)") auto
  have f: "g_threads ?w ! thr = flushed tsc flush ?t" using D(1) by simp
  let ?b = "\<lparr>arr_data = map Some (rx 0) @ drop (length (rx 0)) (arr_data (pkts_burst ?t)), arr_cnt = length (rx 0)\<rparr>"
  have b: "store_burst (rx 0) (pkts_burst (flushed tsc flush ?t)) = Inr ?b"
    using D(3) rx(2) by (simp add: store_burst_def thread_ok_def)
  have l: "arr_list ?b = Some (p, m) # map Some rest" using rx(1) by (simp add: arr_list_def)
  have abort: "processRx env thr (p, m) port (set_thread thr t ?w) = Inl AssertFailed" if "srv t = srv ?t" for t port
    by (rule processRx_new_aborts [OF _ _ _ _ _ _ v4 parse sp])
      (use that ok(2) tcp new D in \<open>simp_all add: MAX_THREADS_def\<close>)
  show ?thesis
    using txrxBurst_flushed [OF D(3,1), of env tsc flush rx] n D(1) b l abort by (simp add: Let_def)
qed

text \<open>
  The steps of a worker alone are those of the loop of \<^verbatim>\<open>internal_thread::run\<close> over its turns.
\<close>

lemma worker_is_pm_run:
  "run_all (worker_step env hz i) (Launched, w) (start # map (Pair False) turns @ [(True, last_turn)]) =
     bindR (pm_run env i hz turns w) (\<lambda>(ret, w1). Inr (Ended, w1))"
  by (cases "thread_at i w")
    (simp_all add: run_enter_def pm_run_def thread_run_def Let_def worker_looping worker_ended bindR_assoc)

section \<open>Properties\<close>

text \<open>
  Property (C8). Workers do not influence each other. For every schedule of the workers of a
  well-formed application: if it runs through, then each worker is where its own steps alone would
  have taken it from the start, with the same thread object and the same TCP context; and if it
  fails, then one of the workers fails in the same way when it runs alone.
\<close>

theorem workers_isolated:
  assumes "app_ok a"
  shows "case run_all (app_step env hz) a sched of
      Inr a' \<Rightarrow> \<forall>i pc. pcs a i = Some pc \<longrightarrow>
        (\<exists>pc' w'. run_all (worker_step env hz i) (pc, app_world a) (own i sched) = Inr (pc', w') \<and>
           pcs a' i = Some pc' \<and> g_threads (app_world a') ! i = g_threads w' ! i \<and>
           gl_tcpCtxt (app_world a') ! i = gl_tcpCtxt w' ! i)
    | Inl f \<Rightarrow> \<exists>i pc. pcs a i = Some pc \<and>
        run_all (worker_step env hz i) (pc, app_world a) (own i sched) = Inl f"
proof -
  have f: "follows i (pc, app_world a) a" if "pcs a i = Some pc" for i pc
    using assms that world_okD(1,2) [of "app_world a" i] by (auto simp: follows_def same_at_def app_ok_def)
  show ?thesis
  proof (cases "run_all (app_step env hz) a sched")
    case (Inl g)
    with app_run_fault [OF assms Inl] f show ?thesis by fastforce
  next
    case (Inr a')
    have "\<exists>pc' w'. run_all (worker_step env hz i) (pc, app_world a) (own i sched) = Inr (pc', w') \<and>
           pcs a' i = Some pc' \<and> g_threads (app_world a') ! i = g_threads w' ! i \<and>
           gl_tcpCtxt (app_world a') ! i = gl_tcpCtxt w' ! i" if "pcs a i = Some pc" for i pc
      using app_run_own [OF assms f [OF that] Inr] by (auto simp: follows_def same_at_def)
    with Inr show ?thesis by simp
  qed
qed

text \<open>The machine with four ports and three cores, started; its two workers are cores 1 and 2.\<close>

lemma demo_workers: "workers demo_boot 4 = [1, 2]"
  by code_simp

lemma demo_workers_ok: "list_all (\<lambda>i. i < MAX_THREADS) (workers demo_boot 4)"
  by (simp add: demo_workers MAX_THREADS_def)

text \<open>A turn in which nothing arrives, and a schedule in which both workers enter and quit.\<close>

definition idle :: turn where "idle = (0, (\<lambda>i. 0), (\<lambda>i. []))"

definition demo_sched :: "(nat \<times> step_input) list" where
  "demo_sched = [(2, False, idle), (1, False, idle), (1, True, idle), (2, True, idle)]"

lemma demo_app_run:
  assumes "main_start demo_timer demo_boot = Inr w"
  shows "\<exists>a. run_all (app_step demo_env 1000000) (app_launch demo_boot 4 w) demo_sched = Inr a"
proof (rule ccontr)
  let ?a = "app_launch demo_boot 4 w"
  have ok: "world_ok w" by (rule main_start_ok(1) [OF assms])
  have aok: "app_ok ?a" by (rule app_launch_ok [OF ok demo_workers_ok])
  assume "\<nexists>a. run_all (app_step demo_env 1000000) ?a demo_sched = Inr a"
  then obtain f where "run_all (app_step demo_env 1000000) ?a demo_sched = Inl f"
    by (cases "run_all (app_step demo_env 1000000) ?a demo_sched") auto
  from app_run_fault [OF aok this] obtain i where i: "pcs ?a i \<noteq> None"
    "\<And>s. follows i s ?a \<Longrightarrow> run_all (worker_step demo_env 1000000 i) s (own i demo_sched) = Inl f" by blast
  have m: "i = 1 \<or> i = 2" using i(1) by (auto simp: app_launch_def demo_workers split: if_splits)
  then have lt: "i < MAX_THREADS" by (auto simp: MAX_THREADS_def)
  have "follows i (Launched, w) ?a"
    using m world_okD(1,2) [OF ok lt] by (auto simp: follows_def same_at_def app_launch_def demo_workers)
  from i(2) [OF this] have r: "run_all (worker_step demo_env 1000000 i) (Launched, w) [(False, idle), (True, idle)] = Inl f"
    using m by (auto simp: demo_sched_def)
  obtain w' where "run_enter 1000000 i w = Inr (if thread_ports (g_threads w ! i) = [] then Ended else Looping, w')"
    using run_enter_frame [OF ok lt] by blast
  with r show False by (auto split: if_splits)
qed

theorem workers_isolated_witness:
  "\<exists>w a w1. main_start demo_timer demo_boot = Inr w \<and>
     run_all (app_step demo_env 1000000) (app_launch demo_boot 4 w) demo_sched = Inr a \<and>
     run_all (worker_step demo_env 1000000 1) (Launched, w) [(False, idle), (True, idle)] = Inr (Ended, w1) \<and>
     g_threads (app_world a) ! 1 = g_threads w1 ! 1"
proof -
  obtain w where w: "main_start demo_timer demo_boot = Inr w" using demo_main_start by blast
  obtain a where a: "run_all (app_step demo_env 1000000) (app_launch demo_boot 4 w) demo_sched = Inr a"
    using demo_app_run [OF w] by blast
  have "pcs (app_launch demo_boot 4 w) 1 = Some Launched" "app_world (app_launch demo_boot 4 w) = w"
    "own 1 demo_sched = [(False, idle), (True, idle)]"
    by (simp_all add: app_launch_def demo_workers demo_sched_def)
  with workers_isolated [OF app_launch_ok [OF main_start_ok(1) [OF w] demo_workers_ok], of demo_env 1000000 demo_sched] a
  obtain pc' w1 where r: "run_all (worker_step demo_env 1000000 1) (Launched, w) [(False, idle), (True, idle)] = Inr (pc', w1)"
    "g_threads (app_world a) ! 1 = g_threads w1 ! 1" by fastforce
  moreover from r(1) have "pc' = Ended" by (rule worker_ends) simp
  ultimately show ?thesis using w a by blast
qed



text \<open>
  Property (C9). The application as it is started serves nobody. Whatever packets arrive at whatever
  worker in whatever schedule, as long as no step fails the TCP context of every thread is still the
  initial one, without a client. And an IPv4 packet for the listening port that the parser accepts
  makes the turn that receives it first on the worker's first port abort, on every worker that has a
  port.
\<close>

theorem started_app_serves_nobody:
  assumes "main_start api be = Inr w" and "list_all (\<lambda>i. i < MAX_THREADS) (workers be n)"
    and "run_all (app_step env hz) (app_launch be n w) sched = Inr a"
  shows "(\<forall>i < MAX_THREADS. gl_tcpCtxt (app_world a) ! i = tcpImpl_new api) \<and>
    (\<forall>i p m rest h r tsc flush rx.
       pcs a i = Some Looping \<and> rx 0 = (p, m) # rest \<and> length (rx 0) \<le> MAX_PKT_BURST \<and>
       rx_version (e_net env) m = Some 4 \<and> tcp_parse (e_net env) 8000 m = Inr (Some (h, r)) \<and> sport h \<noteq> None \<longrightarrow>
       app_step env hz a (i, False, tsc, flush, rx) = Inl AssertFailed)"
proof -
  note W = main_start_ok [OF assms(1)]
  have ok: "app_ok (app_launch be n w)" by (rule app_launch_ok [OF W(1) assms(2)])
  then have "all_new api (app_launch be n w)" "app_keeps w (app_launch be n w)"
    using W(2) by (simp_all add: all_new_def app_keeps_def app_launch_def)
  with all_new_run.run_inv [OF _ assms(3)] app_keeps_run.run_inv [OF _ assms(3)]
  have k: "all_new api a" "app_keeps w a" by blast+
  have "app_step env hz a (i, False, tsc, flush, rx) = Inl AssertFailed"
    if p: "pcs a i = Some Looping" "rx 0 = (p, m) # rest" "length (rx 0) \<le> MAX_PKT_BURST"
      "rx_version (e_net env) m = Some 4" "tcp_parse (e_net env) 8000 m = Inr (Some (h, r))" "sport h \<noteq> None"
    for i p m rest h r tsc flush rx
  proof -
    have a: "world_ok (app_world a)" "i < MAX_THREADS" using k(1) p(1) by (auto simp: all_new_def app_ok_def)
    have "txrxBurst env i (tsc, flush, rx) (app_world a) = Inl AssertFailed"
      by (rule txrxBurst_new_aborts [OF a _ _ _ p(4,5,6), where rx = rx and p = p and rest = rest])
        (use k p(1-3) a(2) W(3) in \<open>simp_all add: all_new_def app_keeps_def\<close>)
    with p(1) show ?thesis by (simp add: app_step_def)
  qed
  with k(1) show ?thesis by (auto simp: all_new_def)
qed

lemma demo_port_worker:
  assumes "main_start demo_timer demo_boot = Inr w"
  shows "\<exists>i \<in> {1, 2}. thread_ports (g_threads w ! i) \<noteq> []"
proof -
  have "all_ports w \<noteq> []" using main_start_ok(4) [OF assms] demo_ports by simp
  moreover have len: "length (g_threads w) = MAX_THREADS" using main_start_ok(1) [OF assms] by (simp add: world_ok_def)
  ultimately obtain i where i: "i < MAX_THREADS" "thread_ports (g_threads w ! i) \<noteq> []"
    by (auto simp: all_ports_def in_set_conv_nth)
  with main_start_ok(5) [OF assms i] have "i < 3" "i \<noteq> 0" by (simp_all add: demo_boot_def)
  then have "i \<in> {1, 2}" by auto
  with i(2) show ?thesis by blast
qed

theorem started_app_serves_nobody_witness:
  "\<exists>w i a. main_start demo_timer demo_boot = Inr w \<and>
     run_all (app_step demo_env 1000000) (app_launch demo_boot 4 w) [(i, False, idle)] = Inr a \<and>
     app_step demo_env 1000000 a (i, False, 0, (\<lambda>i. 0), (\<lambda>i. [(7, [demo_seg 9 2 77 []])])) = Inl AssertFailed"
proof -
  obtain w where w: "main_start demo_timer demo_boot = Inr w" using demo_main_start by blast
  obtain i :: nat where i: "i \<in> {1, 2}" "thread_ports (g_threads w ! i) \<noteq> []" using demo_port_worker [OF w] by blast
  have lt: "i < MAX_THREADS" using i(1) by (auto simp: MAX_THREADS_def)
  obtain w1 where w1: "run_enter 1000000 i w = Inr (Looping, w1)"
    using run_enter_frame [OF main_start_ok(1) [OF w] lt, of 1000000] i(2) by auto
  let ?a = "app_launch demo_boot 4 w"
  let ?b = "\<lparr>app_world = w1, pcs = (pcs ?a)(i \<mapsto> Looping)\<rparr>"
  have "pcs ?a i = Some Launched" "app_world ?a = w" using i(1) by (auto simp: app_launch_def demo_workers)
  with w1 have r: "run_all (app_step demo_env 1000000) ?a [(i, False, idle)] = Inr ?b"
    by (simp add: app_step_def)
  have s: "sport (demo_header 9 2 77) \<noteq> None" by (simp add: demo_header_def)
  note P = started_app_serves_nobody [OF w demo_workers_ok r, THEN conjunct2, rule_format,
      of i "\<lambda>i. [(7, [demo_seg 9 2 77 []])]" 7 "[demo_seg 9 2 77 []]" "[]" "demo_header 9 2 77"
        "(itr_new [demo_seg 9 2 77 []])\<lparr>itr_offset := 54\<rparr>" 0 "\<lambda>i. 0"]
  have "app_step demo_env 1000000 ?b (i, False, 0, (\<lambda>i. 0), (\<lambda>i. [(7, [demo_seg 9 2 77 []])])) = Inl AssertFailed"
    by (rule P) (simp add: demo_rx(1) demo_parse_bare(1) s MAX_PKT_BURST_def)
  with w r show ?thesis by blast
qed

end
