(* ===== verification/WireSpec.thy ===== *)
theory WireSpec
  imports ReactorSpec
begin

text \<open>
  The server from the wire to its clients. \<open>wire_spec\<close> is a function on the bytes of a frame and the
  map of connections; the receive path (\<^verbatim>\<open>processRx\<close>, \<^verbatim>\<open>reactorPost\<close>, \<^verbatim>\<open>TCP_REACTOR\<close>,
  \<^verbatim>\<open>handleTcpRx\<close>, the reader, the parser, the state handlers and the client table) implements it for
  one frame, for the turns of a receive loop, and for a whole run of a worker, as a fold over the frames
  that its ports delivered.
\<close>

section \<open>Specification\<close>

text \<open>The part of a frame from its TCP header on, and the id of its sender.\<close>

definition tcp_part :: "u8 list \<Rightarrow> u8 list" where
  "tcp_part bs = drop (tcp_start bs) bs"

definition frame_client :: "u8 list \<Rightarrow> u64" where
  "frame_client bs = of_nat (65536 * be_val (take 4 (drop 26 bs)) + be_val (take 2 (tcp_part bs)))"

text \<open>An IPv4 frame with TCP in it, and one that is for the port the server listens on.\<close>

definition tcp_frame :: "u8 list \<Rightarrow> bool" where
  "tcp_frame bs \<longleftrightarrow> unat (bs ! 14) div 16 = 4 \<and> bs ! 23 = 6"

definition frame_for :: "nat \<Rightarrow> u8 list \<Rightarrow> bool" where
  "frame_for port bs \<longleftrightarrow> tcp_frame bs \<and> 5 \<le> unat (tcp_part bs ! 12) div 16 \<and>
     be_val (take 2 (drop 2 (tcp_part bs))) = port"

definition frame_SYN :: "u8 list \<Rightarrow> bool" where
  "frame_SYN bs = odd (unat (tcp_part bs ! 13) div 2)"

definition frame_FIN :: "u8 list \<Rightarrow> bool" where
  "frame_FIN bs = odd (unat (tcp_part bs ! 13))"

definition frame_seqno :: "u8 list \<Rightarrow> u32" where
  "frame_seqno bs = of_nat (be_val (take 4 (drop 4 (tcp_part bs))))"

text \<open>The acknowledgement flag of a frame does not count: the parser masks it out.\<close>

definition wire_spec :: "nat \<Rightarrow> u8 list \<Rightarrow> (u64 \<Rightarrow> conn option) \<Rightarrow> (u64 \<Rightarrow> conn option)" where
  "wire_spec port bs C =
     (if frame_for port bs
      then C(frame_client bs := spec_packet (frame_SYN bs) False (frame_FIN bs) (frame_seqno bs) (C (frame_client bs)))
      else C)"

definition wire_run :: "nat \<Rightarrow> packet list \<Rightarrow> (u64 \<Rightarrow> conn option) \<Rightarrow> (u64 \<Rightarrow> conn option)" where
  "wire_run port fs C = fold (\<lambda>pkt. wire_spec port (packet_bytes (snd pkt))) fs C"

text \<open>A SYN of a new client, the only frame on which the client table may abort.\<close>

definition new_client :: "nat \<Rightarrow> u8 list \<Rightarrow> (u64 \<Rightarrow> conn option) \<Rightarrow> bool" where
  "new_client port bs C \<longleftrightarrow> frame_for port bs \<and> frame_SYN bs \<and> C (frame_client bs) = None"

fun meets_new_client :: "nat \<Rightarrow> packet list \<Rightarrow> (u64 \<Rightarrow> conn option) \<Rightarrow> bool" where
  "meets_new_client port [] C = False"
| "meets_new_client port (g # gs) C =
     (new_client port (packet_bytes (snd g)) C \<or>
        meets_new_client port gs (wire_spec port (packet_bytes (snd g)) C))"

text \<open>
  A frame as the device delivers it: the Ethernet and IPv4 base headers lie in the first segment, and
  so does the TCP base header if there is one.
\<close>

definition frame_ok :: "rte_mbuf_seg list \<Rightarrow> bool" where
  "frame_ok m \<longleftrightarrow> m \<noteq> [] \<and> packet_ok m \<and> 34 \<le> unat (data_len (hd m)) \<and>
     (tcp_frame (packet_bytes m) \<longrightarrow> tcp_start (packet_bytes m) + 20 \<le> unat (data_len (hd m)))"

section \<open>One frame\<close>

lemma be_val_bound: "be_val bs < 256 ^ length bs"
proof (induction bs rule: rev_induct)
  case (snoc b bs)
  have "unat b < 256" using unsigned_less [of b, where 'a = nat] by simp
  with snoc show ?case by (simp add: be_val_def)
qed (simp add: be_val_def)

lemma frame_client_id:
  assumes "unat ip = be_val (take 4 (drop 26 bs))" and "unat sp = be_val (take 2 (tcp_part bs))"
  shows "makeClientId ip sp = frame_client bs"
proof -
  have "makeClientId ip sp = of_nat (unat (makeClientId ip sp))" by simp
  then show ?thesis by (simp only: unat_makeClientId assms frame_client_def)
qed

lemma flag_bits:
  fixes e :: u8
  assumes "unat e = n mod 16"
  shows "ucast e AND tcp_FIN \<noteq> (0 :: u16) \<longleftrightarrow> odd n" and "ucast e AND tcp_SYN \<noteq> (0 :: u16) \<longleftrightarrow> odd (n div 2)"
    and "ucast e AND tcp_ACK = (0 :: u16)"
proof -
  have b: "bit e k \<longleftrightarrow> odd (n mod 16 div 2 ^ k)" for k
  proof -
    have "bit e k \<longleftrightarrow> bit (unat e) k" by (auto simp: bit_unsigned_iff dest: bit_imp_le_length)
    then show ?thesis by (simp add: assms bit_iff_odd)
  qed
  have p: "ucast e AND push_bit k (1 :: u16) \<noteq> 0 \<longleftrightarrow> bit e k" if "k < 8" for k
  proof -
    have "ucast e AND push_bit k (1 :: u16) = (if bit e k then push_bit k 1 else 0)"
      using that by (intro bit_word_eqI) (auto simp: bit_simps)
    moreover have "bit (push_bit k (1 :: u16)) k" using that by (simp add: bit_simps)
    then have "push_bit k (1 :: u16) \<noteq> 0" by (auto simp del: push_bit_of_1)
    ultimately show ?thesis by simp
  qed
  have "odd (n mod 16) \<longleftrightarrow> odd n" by presburger
  with p [of 0] b [of 0] show "ucast e AND tcp_FIN \<noteq> (0 :: u16) \<longleftrightarrow> odd n" by (simp add: tcp_FIN_def)
  have "odd (n mod 16 div 2) \<longleftrightarrow> odd (n div 2)" by presburger
  with p [of 1] b [of 1] show "ucast e AND tcp_SYN \<noteq> (0 :: u16) \<longleftrightarrow> odd (n div 2)" by (simp add: tcp_SYN_def)
  have "n mod 16 div 2 ^ 4 = 0" by simp
  with p [of 4] b [of 4] show "ucast e AND tcp_ACK = (0 :: u16)" by (simp add: tcp_ACK_def)
qed

text \<open>What the parser makes of it.\<close>

lemma tcp_frame_parse:
  assumes net: "net_documented net" and m: "frame_ok m" and tcp: "tcp_frame (packet_bytes m)"
  defines "bs \<equiv> packet_bytes m"
  shows "if frame_for (unat lid mod 65536) bs
    then \<exists>h r sp. tcp_parse net lid m = Inr (Some (h, r)) \<and> sport h = Some sp \<and>
      frame_client bs = makeClientId (saddr4 (ipHeader h)) sp \<and> seqno h = Some (frame_seqno bs) \<and>
      has_flag h tcp_SYN = frame_SYN bs \<and> has_flag h tcp_FIN = frame_FIN bs \<and> \<not> has_flag h tcp_ACK
    else tcp_parse net lid m = Inr None"
proof -
  from m obtain s ms where sm: "m = s # ms" by (cases m) (auto simp: frame_ok_def)
  have ok: "packet_ok (s # ms)" "34 \<le> unat (data_len s)" "tcp_start bs + 20 \<le> unat (data_len s)"
    "packet_bytes (s # ms) ! 23 = 6"
    using m tcp by (auto simp: frame_ok_def sm bs_def tcp_frame_def)
  have fits: "tcp_start (packet_bytes (s # ms)) + 20 \<le> unat (data_len s)" using ok(3) by (simp add: bs_def sm)
  note P = tcp_parse_chain [OF net ok(1) fits ok(4,2), of lid, folded sm, folded bs_def, folded tcp_part_def]
  show ?thesis
  proof (cases "unat (tcp_part bs ! 12) div 16 < 5")
    case True
    with P show ?thesis by (simp add: frame_for_def)
  next
    case False
    with P obtain h r len where h: "ip_header_of bs (ipHeader h)" "tcp_header_of (ipHeader h) len (tcp_part bs) h"
      "tcp_parse net lid m = (if ucast (the (dport h)) \<noteq> (lid AND 0xFFFF) then Inr None else Inr (Some (h, r)))"
      by auto
    from h(2) obtain sp dp sq where f: "sport h = Some sp" "unat sp = be_val (take 2 (tcp_part bs))"
      "dport h = Some dp" "unat dp = be_val (take 2 (drop 2 (tcp_part bs)))"
      "seqno h = Some sq" "unat sq = be_val (take 4 (drop 4 (tcp_part bs)))"
      "unat (evtmask h) = unat (tcp_part bs ! 13) mod 16"
      by (auto simp: tcp_header_of_def)
    have "unat (saddr4 (ipHeader h)) = be_val (take 4 (drop 26 bs))" using h(1) by (simp add: ip_header_of_def)
    from frame_client_id [OF this f(2)] have k: "frame_client bs = makeClientId (saddr4 (ipHeader h)) sp" by simp
    have "sq = of_nat (unat sq)" by simp
    then have sq: "sq = frame_seqno bs" by (simp only: f(6) frame_seqno_def)
    have "lid AND 0xFFFF = take_bit 16 lid" by (simp add: take_bit_eq_mask mask_eq_exp_minus_1)
    then have "unat (lid AND 0xFFFF) = take_bit 16 (unat lid)" by (simp only: unsigned_take_bit_eq)
    then have "unat (lid AND 0xFFFF) = unat lid mod 65536" by (simp add: take_bit_eq_mod)
    then have port: "ucast dp = (lid AND 0xFFFF) \<longleftrightarrow> be_val (take 2 (drop 2 (tcp_part bs))) = unat lid mod 65536"
      using f(4) by (simp add: word_unat_eq_iff unat_ucast_le)
    note fl = flag_bits [OF f(7), folded frame_SYN_def frame_FIN_def]
    show ?thesis
      using False tcp h(3) f(1,3,5) k sq port fl by (auto simp: frame_for_def bs_def has_flag_def)
  qed
qed

lemma version_nibble: "unat (drop_bit 4 (0xF0 AND v)) = unat v div 16" for v :: u8
proof -
  have "drop_bit 4 (0xF0 AND v) = drop_bit 4 v AND 15" by (simp add: and.commute)
  moreover have "unat (drop_bit 4 v) = unat v div 16" by (simp only: unat_drop_bit_eq) (simp add: drop_bit_eq_div)
  moreover have "unat v div 16 < 16" using unsigned_less [of v, where 'a = nat] by (intro less_mult_imp_div_less) simp
  ultimately show ?thesis by (simp only: unat_and_15 mod_less)
qed

text \<open>The receive path of a frame up to the service, with the version and protocol of its bytes.\<close>

lemma processRx_deliver:
  assumes net: "net_documented (e_net env)" and ok: "world_ok w" "thr < MAX_THREADS"
    and srv: "srv (g_threads w ! thr) ! SERVICE_PROTO_TCP = TcpReactor" and m: "frame_ok m"
  shows "if tcp_frame (packet_bytes m)
    then processRx env thr (p, m) port w =
      bindR (handleTcpRx (e_net env) (e_rd env) (e_tmr env) (int thr) (p, m) (mb_log w, gl_tcpCtxt w ! thr)) (\<lambda>(l, self).
        Inr (w\<lparr>mb_log := McFree p # l, gl_tcpCtxt := (gl_tcpCtxt w)[thr := self]\<rparr>))
    else \<exists>l. processRx env thr (p, m) port w = Inr (w\<lparr>mb_log := l\<rparr>)"
proof -
  note D = world_okD [OF ok]
  from m obtain s ms where sm: "m = s # ms" by (cases m) (auto simp: frame_ok_def)
  have pk: "packet_ok (s # ms)" and len: "34 \<le> unat (data_len s)" using m by (auto simp: frame_ok_def sm)
  have n: "14 < unat (data_len s)" "\<not> unat (pkt_len s) < 20" using len packet_okD(3) [OF pk] by linarith+
  have ld: "load8 (Some (drop 14 (seg_mem s))) k = Inr (packet_bytes m ! (14 + k))" if "14 + k < unat (data_len s)" for k
    using that packet_okD(1) [OF pk] load8_drop(1) [of k 14 "seg_mem s"] packet_okD(4) [OF pk that]
    by (simp add: seg_ok_def sm)
  have v: "load8 (Some (drop 14 (seg_mem s))) (off_version_ihl (e_net env)) = Inr (packet_bytes m ! 14)"
    "load8 (Some (drop 14 (seg_mem s))) (off_next_proto_id (e_net env)) = Inr (packet_bytes m ! 23)"
    using ld [of 0] ld [of 9] len by (simp_all add: net_documentedD [OF net])
  have v4: "drop_bit 4 (0xF0 AND packet_bytes m ! 14) = 4 \<longleftrightarrow> unat (packet_bytes m ! 14) div 16 = 4"
    by (simp add: word_unat_eq_iff version_nibble del: drop_bit_and)
  show ?thesis
    using rx_ip_header_chain [OF net pk n(1)] n(2) v v4 D srv
    by (cases "handleTcpRx (e_net env) (e_rd env) (e_tmr env) (int thr) (p, m) (mb_log w, gl_tcpCtxt w ! thr)")
      (auto simp: processRx_def sm [symmetric] Let_def tcp_frame_def reactorPost_tcp simp del: drop_bit_and)
qed

section \<open>Worlds that serve\<close>

text \<open>
  The thread \<open>thr\<close> of a well-formed world has the TCP service, \<open>n\<close> ports, and a listening block for
  \<open>port\<close> in LISTEN.
\<close>

definition serving :: "nat \<Rightarrow> nat \<Rightarrow> nat \<Rightarrow> 't world \<Rightarrow> bool" where
  "serving port n thr w \<longleftrightarrow> world_ok w \<and> thr < MAX_THREADS \<and>
     srv (g_threads w ! thr) ! SERVICE_PROTO_TCP = TcpReactor \<and>
     arr_cnt (portList (g_threads w ! thr)) = n \<and> listening (gl_tcpCtxt w ! thr) \<and>
     unat (tcb_clientId (listen (gl_tcpCtxt w ! thr))) mod 65536 = port"

definition clients_at :: "nat \<Rightarrow> 't world \<Rightarrow> u64 \<Rightarrow> conn option" where
  "clients_at thr w = conns (gl_tcpCtxt w ! thr)"

text \<open>
  The outcome \<open>r\<close> of work on the frames \<open>fs\<close>: the clients are those of the specification, or the
  table aborted on the first SYN of a client among the frames.
\<close>

definition refines_wire ::
  "nat \<Rightarrow> nat \<Rightarrow> nat \<Rightarrow> packet list \<Rightarrow> 't world \<Rightarrow> fault + 't world \<Rightarrow> bool" where
  "refines_wire port n thr fs w r =
     (case r of
        Inr w' \<Rightarrow> serving port n thr w' \<and> clients_at thr w' = wire_run port fs (clients_at thr w)
      | Inl f \<Rightarrow> f \<in> {AssertFailed, OutOfBounds} \<and> meets_new_client port fs (clients_at thr w))"

lemma wire_run_simps [simp]:
  "wire_run port [] C = C"
  "wire_run port (g # gs) C = wire_run port gs (wire_spec port (packet_bytes (snd g)) C)"
  "wire_run port (gs @ hs) C = wire_run port hs (wire_run port gs C)"
  by (simp_all add: wire_run_def)

lemma meets_new_client_append [simp]:
  "meets_new_client port (gs @ hs) C \<longleftrightarrow> meets_new_client port gs C \<or> meets_new_client port hs (wire_run port gs C)"
  by (induction gs arbitrary: C) auto

lemma refines_wire_Inr [simp]: "serving port n thr w \<Longrightarrow> refines_wire port n thr [] w (Inr w)"
  by (simp add: refines_wire_def)

lemma refines_wire_bind:
  assumes "refines_wire port n thr fs w r"
    and "\<And>w1. r = Inr w1 \<Longrightarrow> serving port n thr w1 \<Longrightarrow> refines_wire port n thr gs w1 (f w1)"
  shows "refines_wire port n thr (fs @ gs) w (bindR r f)"
  using assms by (cases r) (auto simp: refines_wire_def split: sum.splits)

lemma refines_wire_cong:
  "clients_at thr v = clients_at thr w \<Longrightarrow> refines_wire port n thr fs v r = refines_wire port n thr fs w r"
  by (cases r) (simp_all add: refines_wire_def)

text \<open>The updates around the frames: logs and counters do not matter.\<close>

lemma serving_log [simp]: "serving port n thr (w\<lparr>mb_log := l\<rparr>) = serving port n thr w"
  and clients_at_simps [simp]: "clients_at thr (w\<lparr>mb_log := l\<rparr>) = clients_at thr w"
    "clients_at thr (set_thread i t w) = clients_at thr w"
  by (simp_all add: serving_def clients_at_def world_ok_def)

lemma serving_set_thread:
  assumes "serving port n thr w" and "thread_ok t" and "srv t = srv (g_threads w ! thr)"
    and "arr_cnt (portList t) = n"
  shows "serving port n thr (set_thread thr t w)"
  using assms set_thread_ok [of w t thr] world_okD(1) [of w thr] by (simp add: serving_def)

section \<open>One frame\<close>

lemma processRx_wire:
  assumes net: "net_documented (e_net env)" and tmr: "timer_documented (e_tmr env)"
    and sv: "serving port n thr w" and m: "frame_ok m"
  shows "refines_wire port n thr [(p, m)] w (processRx env thr (p, m) pt w)"
proof -
  let ?self = "gl_tcpCtxt w ! thr" and ?bs = "packet_bytes m"
  have W: "world_ok w" "thr < MAX_THREADS" "srv (g_threads w ! thr) ! SERVICE_PROTO_TCP = TcpReactor"
    "listening ?self" "unat (tcb_clientId (listen ?self)) mod 65536 = port"
    using sv by (simp_all add: serving_def)
  note D = world_okD [OF W(1,2)]
  note rx = processRx_deliver [OF net W(1,2,3) m, of p pt]
  show ?thesis
  proof (cases "tcp_frame ?bs")
    case False
    with rx sv show ?thesis by (auto simp: refines_wire_def wire_spec_def frame_for_def)
  next
    case True
    let ?rx = "handleTcpRx (e_net env) (e_rd env) (e_tmr env) (int thr) (p, m) (mb_log w, ?self)"
    from True rx have rx: "processRx env thr (p, m) pt w = bindR ?rx (\<lambda>(l, self).
        Inr (w\<lparr>mb_log := McFree p # l, gl_tcpCtxt := (gl_tcpCtxt w)[thr := self]\<rparr>))" by simp
    have ctx: "refines_wire port n thr [(p, m)] w (Inr (w\<lparr>mb_log := l, gl_tcpCtxt := (gl_tcpCtxt w)[thr := self]\<rparr>))"
      if "tcp_inv self" "listen self = listen ?self" "conns self = wire_spec port ?bs (conns ?self)" for l self
      using that sv D(2) W(1)
      by (simp add: refines_wire_def serving_def clients_at_def listening_def world_ok_def list_all_update)
    note parse = tcp_frame_parse [OF net m True, of "tcb_clientId (listen ?self)", unfolded W(5)]
    show ?thesis
    proof (cases "frame_for port ?bs")
      case False
      with parse have "?rx = Inr (autobuf_destroy (rte_cb (e_rd env)) \<lparr>ab_data = Some p\<rparr> (mb_log w), ?self)"
        by (simp add: handleTcpRx_def Let_def)
      with False rx D(4) ctx [of ?self] show ?thesis by (simp add: wire_spec_def)
    next
      case True
      with parse obtain h r sp where h: "tcp_parse (e_net env) (tcb_clientId (listen ?self)) m = Inr (Some (h, r))"
        "sport h = Some sp" "frame_client ?bs = makeClientId (saddr4 (ipHeader h)) sp" "seqno h = Some (frame_seqno ?bs)"
        "has_flag h tcp_SYN = frame_SYN ?bs" "has_flag h tcp_FIN = frame_FIN ?bs" "\<not> has_flag h tcp_ACK" by auto
      show ?thesis
      proof (cases "conns ?self (frame_client ?bs) = None \<and> frame_SYN ?bs \<and>
          isl (fd_emplace (tcbTable ?self) (frame_client ?bs) (tcb_new (e_tmr env) (frame_client ?bs)))")
        case True
        then obtain f where f: "fd_emplace (tcbTable ?self) (frame_client ?bs) (tcb_new (e_tmr env) (frame_client ?bs)) = Inl f"
          by (auto simp: isl_def)
        have "clients ?self (frame_client ?bs) = None" using True by (simp add: conns_def)
        moreover have "event_key (EvRx h) = Some (frame_client ?bs)" using h(2,3) by simp
        ultimately have "tcp_step (e_tmr env) (int thr) ?self (EvRx h) = Inl f"
          using tcp_step_refines [OF D(4), of "EvRx h" "frame_client ?bs" "e_tmr env" "int thr"] True f W(4) h(4,5)
          by (simp add: accept_result_def listening_def tcp_emplace_def refines_at_def)
        then have "?rx = Inl f" using h(1)
          by (cases "tcp_deliver (e_tmr env) (int thr) h ?self") (auto simp: handleTcpRx_def Let_def)
        moreover have "f = AssertFailed \<or> f = OutOfBounds"
          using f by (auto simp: fd_emplace_def Let_def split: option.splits if_splits)
        ultimately show ?thesis using rx True \<open>frame_for port ?bs\<close>
          by (auto simp: refines_wire_def new_client_def clients_at_def)
      next
        case False
        then have room: "\<not> isl (fd_emplace (tcbTable ?self) (frame_client ?bs) (tcb_new (e_tmr env) (frame_client ?bs)))"
          if "clients ?self (frame_client ?bs) = None" "has_flag h tcp_SYN"
          using that h(5) by (simp add: conns_def)
        obtain self' where s: "tcp_step (e_tmr env) (int thr) ?self (EvRx h) = Inr self'" "tcp_inv self'"
          "listen self' = listen ?self" "conns self' = wire_spec port ?bs (conns ?self)"
          using tcp_packet_known [OF D(4) tmr h(2,4,3) W(4) room, of "int thr"] h(5-7) \<open>frame_for port ?bs\<close>
          by (auto simp: wire_spec_def)
        from handleTcpRx_step [OF D(4) h(1) s(1)] rx ctx [OF s(2,3,4)] show ?thesis by simp
      qed
    qed
  qed
qed

section \<open>A turn of the loop\<close>

lemma process_burst_wire:
  assumes "net_documented (e_net env)" and "timer_documented (e_tmr env)"
    and "serving port n thr w" and "list_all (\<lambda>g. frame_ok (snd g)) fs"
  shows "refines_wire port n thr fs w (process_burst env thr pt (map Some fs) w)"
  using assms(3,4)
proof (induction fs arbitrary: w)
  case (Cons g fs)
  obtain p m where g: "g = (p, m)" by (cases g)
  have "refines_wire port n thr ([g] @ fs) w (bindR (processRx env thr g pt w) (\<lambda>w1. process_burst env thr pt (map Some fs) w1))"
    by (rule refines_wire_bind)
      (use Cons g processRx_wire [OF assms(1,2) Cons.prems(1)] in auto)
  then show ?case by simp
qed simp

text \<open>The thread object keeps its form when packets are counted and stored.\<close>

lemma arr_list_update:
  "arr_list (arr_update a i f) = (if i < arr_cnt a \<and> i < length (arr_data a) then (arr_list a)[i := f (arr_list a ! i)] else arr_list a)"
  by (auto simp: arr_list_def arr_update_def take_update_swap intro!: list_update_beyond)

lemma thread_ok_counted:
  assumes "thread_ok t" and "length (arr_data b) = MAX_PKT_BURST" and "\<And>q. tx_buffer (f q) = tx_buffer q"
  shows "thread_ok (t\<lparr>portList := arr_update (portList t) i f, pkts_burst := b\<rparr>)"
proof -
  let ?l = "arr_list (portList t)"
  have "\<forall>q \<in> set ?l. tx_buffer q \<noteq> None" using assms(1) by (simp add: thread_ok_def)
  then have "\<forall>q \<in> set (arr_list (arr_update (portList t) i f)). tx_buffer q \<noteq> None"
    using assms(1,3) set_update_subset_insert [of ?l i "f (?l ! i)"] nth_mem [of i ?l]
    by (auto simp: arr_list_update arr_list_length thread_ok_def)
  with assms(1,2) show ?thesis by (simp add: thread_ok_def) (simp add: arr_update_def)
qed

lemma rx_ports_wire:
  assumes net: "net_documented (e_net env)" "timer_documented (e_tmr env)"
    and sv: "serving port n thr w"
    and fs: "\<forall>j. i \<le> j \<and> j < i + c \<longrightarrow> length (rx j) \<le> MAX_PKT_BURST \<and> list_all (\<lambda>g. frame_ok (snd g)) (rx j)"
  shows "refines_wire port n thr (concat (map rx [i..<i + c])) w (rx_ports env thr rx i c w)"
  using sv fs
proof (induction c arbitrary: i w)
  case (Suc c)
  let ?t = "g_threads w ! thr"
  define f :: "PortInfo \<Rightarrow> PortInfo" where "f = (\<lambda>p. p\<lparr>port_rx := port_rx p + of_nat (length (rx i))\<rparr>)"
  define b where "b = \<lparr>arr_data = map Some (rx i) @ drop (length (rx i)) (arr_data (pkts_burst ?t)), arr_cnt = length (rx i)\<rparr>"
  define v where "v = set_thread thr (?t\<lparr>portList := arr_update (portList ?t) i f, pkts_burst := b\<rparr>) w"
  have W: "world_ok w" "thr < MAX_THREADS" "arr_cnt (portList ?t) = n" using Suc.prems(1) by (simp_all add: serving_def)
  note D = world_okD [OF W(1,2)]
  have l: "length (rx i) \<le> MAX_PKT_BURST" "list_all (\<lambda>g. frame_ok (snd g)) (rx i)" using Suc.prems(2) by auto
  have st: "store_burst (rx i) (pkts_burst ?t) = Inr b" "length (arr_data b) = MAX_PKT_BURST" "arr_list b = map Some (rx i)"
    using D(3) l(1) by (simp_all add: store_burst_def thread_ok_def b_def arr_list_def)
  have sv: "serving port n thr v" unfolding v_def
    using Suc.prems(1) thread_ok_counted [OF D(3) st(2), of f i] W(3)
    by (intro serving_set_thread) (simp_all add: f_def arr_update_def)
  have "rx_ports env thr rx i (Suc c) w =
      bindR (process_burst env thr (portId (arr_data (portList ?t) ! i)) (map Some (rx i)) v) (rx_ports env thr rx (Suc i) c)"
    using D(1) st by (simp add: v_def f_def Let_def)
  moreover have "refines_wire port n thr (rx i @ concat (map rx [Suc i..<Suc i + c])) v
      (bindR (process_burst env thr (portId (arr_data (portList ?t) ! i)) (map Some (rx i)) v) (rx_ports env thr rx (Suc i) c))"
    by (rule refines_wire_bind [OF process_burst_wire [OF net sv l(2)]])
      (use Suc.IH [where i = "Suc i"] Suc.prems(2) in auto)
  moreover have "refines_wire port n thr gs v r = refines_wire port n thr gs w r" for gs r
    by (rule refines_wire_cong) (simp add: v_def)
  moreover have "[i..<i + Suc c] = i # [Suc i..<Suc i + c]" by (simp add: upt_conv_Cons del: upt_Suc)
  ultimately show ?case by (simp only: list.map concat.simps)
qed simp

text \<open>The frames of a turn and what is asked of them; \<open>rx\<close> has the packets of each port of the thread.\<close>

definition turn_frames :: "nat \<Rightarrow> turn \<Rightarrow> packet list" where
  "turn_frames n tn = concat (map (snd (snd tn)) [0..<n])"

definition turn_ok :: "nat \<Rightarrow> turn \<Rightarrow> bool" where
  "turn_ok n tn \<longleftrightarrow> list_all (\<lambda>j. length (snd (snd tn) j) \<le> MAX_PKT_BURST \<and>
     list_all (\<lambda>g. frame_ok (snd g)) (snd (snd tn) j)) [0..<n]"

lemma thread_ok_flushed:
  assumes "thread_ok t"
  shows "thread_ok (flushed tsc flush t)"
proof -
  have n: "arr_cnt (portList t) < length (arr_data (portList t))" using assms by (simp add: thread_ok_def)
  have "tx_buffer q \<noteq> None" if q: "q \<in> set (arr_list (portList (flushed tsc flush t)))" for q
  proof -
    obtain j where j: "j < arr_cnt (portList t)" "q = arr_data (portList (flushed tsc flush t)) ! j"
      using q n by (auto simp: arr_list_def in_set_conv_nth)
    have "arr_data (portList t) ! j \<in> set (arr_list (portList t))"
      using j(1) n by (auto simp: arr_list_def in_set_conv_nth intro!: exI [of _ j])
    then show ?thesis using assms j n flushed_ports(2) [of t j tsc flush] by (simp add: thread_ok_def)
  qed
  moreover have "length (arr_data (portList (flushed tsc flush t))) = length (arr_data (portList t))"
    using n by (simp add: flushed_def set_ports_def)
  ultimately show ?thesis using assms by (simp add: thread_ok_def)
qed

lemma txrxBurst_wire:
  assumes net: "net_documented (e_net env)" "timer_documented (e_tmr env)"
    and sv: "serving port n thr w" and tn: "turn_ok n tn"
  shows "refines_wire port n thr (turn_frames n tn) w (txrxBurst env thr tn w)"
proof -
  obtain tsc flush rx where t: "tn = (tsc, flush, rx)" by (cases tn)
  have W: "world_ok w" "thr < MAX_THREADS" "arr_cnt (portList (g_threads w ! thr)) = n" using sv by (simp_all add: serving_def)
  note D = world_okD [OF W(1,2)]
  let ?v = "set_thread thr (flushed tsc flush (g_threads w ! thr)) w"
  have "serving port n thr ?v"
    using sv thread_ok_flushed [OF D(3)] W(3) by (intro serving_set_thread) simp_all
  from rx_ports_wire [OF net this, of 0 n rx] tn t
  have "refines_wire port n thr (turn_frames n tn) ?v (rx_ports env thr rx 0 n ?v)"
    by (simp add: turn_ok_def turn_frames_def list_all_iff)
  moreover have "refines_wire port n thr gs ?v r = refines_wire port n thr gs w r" for gs r
    by (rule refines_wire_cong) simp
  ultimately show ?thesis
    using txrxBurst_flushed [OF D(3,1), of env tsc flush rx] W(3) t by simp
qed

lemma turns_wire:
  assumes "net_documented (e_net env)" "timer_documented (e_tmr env)"
    and "serving port n thr w" and "list_all (turn_ok n) turns"
  shows "refines_wire port n thr (concat (map (turn_frames n) turns)) w
    (run_all (\<lambda>w tn. txrxBurst env thr tn w) w turns)"
  using assms(3,4)
proof (induction turns arbitrary: w)
  case (Cons tn turns)
  show ?case unfolding list.map concat.simps run_all.simps
    by (rule refines_wire_bind [OF txrxBurst_wire [OF assms(1,2) Cons.prems(1)]])
      (use Cons in auto)
qed simp

section \<open>Properties\<close>

text \<open>
  Property (C2). One frame, from its bytes to the clients. On a thread that serves the port, every
  well-formed frame, however it is segmented behind its headers, changes the clients of the thread
  exactly as \<open>wire_spec\<close> says: not at all when it is not IPv4, not TCP, refused for its data offset or
  for another port, and otherwise the one client its addresses name, by its flags and sequence number.
  The thread goes on serving. The one failure is the abort of the client table on the SYN of a new
  client.
\<close>

theorem processRx_refines_wire:
  assumes "net_documented (e_net env)" and "timer_documented (e_tmr env)" and "serving port n thr w" and "frame_ok m"
  shows "case processRx env thr (p, m) pt w of
      Inr w' \<Rightarrow> serving port n thr w' \<and> clients_at thr w' = wire_spec port (packet_bytes m) (clients_at thr w)
    | Inl f \<Rightarrow> f \<in> {AssertFailed, OutOfBounds} \<and> new_client port (packet_bytes m) (clients_at thr w)"
  using processRx_wire [OF assms, of p pt] by (simp add: refines_wire_def split: sum.splits)

lemma demo_serving: "serving 8000 1 2 demo_world"
proof -
  have "arr_cnt (portList demo_thread) = 1" by (simp add: demo_thread_def)
  then show ?thesis by (simp add: serving_def MAX_THREADS_def)
qed

lemma demo_frame:
  "frame_ok [demo_seg 9 2 77 []]"
  "wire_spec 8000 (packet_bytes [demo_seg 9 2 77 []]) Map.empty = [demo_client \<mapsto> (TCP_STATE_SYN_SENT, 78)]"
proof -
  let ?bs = "packet_bytes [demo_seg 9 2 77 []]"
  show "frame_ok [demo_seg 9 2 77 []]" by code_simp
  have b: "take 4 (drop 26 ?bs) = [10, 0, 0, 9]" "take 2 (tcp_part ?bs) = [0, 9]"
    "take 4 (drop 4 (tcp_part ?bs)) = [0, 0, 0, 77]" "frame_for 8000 ?bs" "frame_SYN ?bs"
    by code_simp+
  have "frame_client ?bs = demo_client" unfolding demo_client_def
    by (rule frame_client_id [symmetric]) (simp_all add: b be_val_def demo_header_def)
  moreover have "frame_seqno ?bs = 77" unfolding frame_seqno_def b by (simp add: be_val_def)
  ultimately show "wire_spec 8000 ?bs Map.empty = [demo_client \<mapsto> (TCP_STATE_SYN_SENT, 78)]"
    using b(4,5) by (simp add: wire_spec_def)
qed

lemma demo_clients: "clients_at 2 demo_world = Map.empty"
  by (simp add: clients_at_def)

theorem processRx_refines_wire_witness:
  "\<exists>w'. processRx demo_env 2 (7, [demo_seg 9 2 77 []]) 0 demo_world = Inr w' \<and>
     clients_at 2 w' = [demo_client \<mapsto> (TCP_STATE_SYN_SENT, 78)]"
proof -
  obtain w' where w': "processRx demo_env 2 (7, [demo_seg 9 2 77 []]) 0 demo_world = Inr w'"
    using demo_processRx by blast
  with processRx_refines_wire [of demo_env 8000 1 2 demo_world "[demo_seg 9 2 77 []]" 7 0] demo_net_documented
    demo_timer_documented demo_serving demo_frame demo_clients
  show ?thesis by simp
qed

end
