(* ===== verification/WireApp.thy ===== *)
theory WireApp
  imports Workers WireSpec
begin

text \<open>
  The whole application against the specification of the wire: under every schedule of the workers,
  the clients of each are those that \<open>wire_run\<close> computes from the frames its own ports delivered.
\<close>

section \<open>A worker\<close>

text \<open>The frames a worker with \<open>n\<close> ports takes from its steps.\<close>

fun worker_frames :: "nat \<Rightarrow> worker_pc \<Rightarrow> step_input list \<Rightarrow> packet list" where
  "worker_frames n pc [] = []"
| "worker_frames n Launched (inp # inps) = worker_frames n (if n = 0 then Ended else Looping) inps"
| "worker_frames n Looping ((quit, tn) # inps) =
     (if quit then [] else turn_frames n tn @ worker_frames n Looping inps)"
| "worker_frames n Ended (inp # inps) = []"

lemma worker_frames_ended [simp]: "worker_frames n Ended inps = []"
  by (cases inps) auto

definition world_of :: "fault + (worker_pc \<times> 't world) \<Rightarrow> fault + 't world" where
  "world_of r = bindR r (\<lambda>s. Inr (snd s))"

lemma run_enter_wire:
  assumes "serving port n i w"
  shows "\<exists>v. run_enter hz i w = Inr (if n = 0 then Ended else Looping, v) \<and> serving port n i v \<and>
    clients_at i v = clients_at i w"
proof -
  let ?t = "(g_threads w ! i)\<lparr>drain_tsc := (hz + 1000000 - 1) div 1000000 * BURST_TX_DRAIN_US\<rparr>"
  have W: "world_ok w" "i < MAX_THREADS" "arr_cnt (portList (g_threads w ! i)) = n" using assms by (simp_all add: serving_def)
  note D = world_okD [OF W(1,2)]
  have "serving port n i (set_thread i ?t w)"
    using assms D(3) W(3) by (intro serving_set_thread) (simp_all add: thread_ok_def)
  with D(1) W(3) show ?thesis by (simp add: run_enter_def Let_def arr_empty_def)
qed

lemma worker_wire:
  assumes net: "net_documented (e_net env)" "timer_documented (e_tmr env)"
    and sv: "serving port n i w" and inps: "list_all (\<lambda>inp. turn_ok n (snd inp)) inps"
  shows "refines_wire port n i (worker_frames n pc inps) w (world_of (run_all (worker_step env hz i) (pc, w) inps))"
  using sv inps
proof (induction n pc inps arbitrary: w rule: worker_frames.induct)
  case (1 n pc)
  then show ?case by (simp add: world_of_def)
next
  case (2 n inp inps)
  obtain v where v: "run_enter hz i w = Inr (if n = 0 then Ended else Looping, v)" "serving port n i v"
    "clients_at i v = clients_at i w"
    using run_enter_wire [OF "2.prems"(1)] by blast
  from "2.IH" [OF v(2)] "2.prems"(2) v(1) show ?case
    using refines_wire_cong [OF v(3)] by simp
next
  case (3 n quit tn inps)
  show ?case
  proof (cases quit)
    case True
    with 3 show ?thesis by (simp add: world_of_def worker_ended)
  next
    case False
    have "world_of (run_all (worker_step env hz i) (Looping, w) ((quit, tn) # inps)) =
        bindR (txrxBurst env i tn w) (\<lambda>w1. world_of (run_all (worker_step env hz i) (Looping, w1) inps))"
      using False by (cases "txrxBurst env i tn w") (simp_all add: world_of_def)
    moreover have "refines_wire port n i (turn_frames n tn @ worker_frames n Looping inps) w
        (bindR (txrxBurst env i tn w) (\<lambda>w1. world_of (run_all (worker_step env hz i) (Looping, w1) inps)))"
      by (rule refines_wire_bind [OF txrxBurst_wire [OF net "3.prems"(1)]])
        (use 3 False in auto)
    ultimately show ?thesis using False by simp
  qed
next
  case (4 n inp inps)
  then show ?case by (simp add: world_of_def worker_ended)
qed

section \<open>Properties\<close>

text \<open>
  Property (C1). From the frames to the clients, for the whole application. When every worker serves
  a port, then under every schedule, whatever frames arrive in which turns, each worker ends with
  exactly the clients that the specification computes from the frames of its own ports, in their
  order; the other workers, the segmentation of the frames behind their headers, the turns and the
  clock do not matter. A run fails only by the abort of a client table on the SYN of a new client.
\<close>

theorem app_refines_wire:
  assumes "app_ok a" and "net_documented (e_net env)" and "timer_documented (e_tmr env)"
    and "\<And>i pc. pcs a i = Some pc \<Longrightarrow> serving (port i) (n i) i (app_world a)"
    and "\<And>i. list_all (\<lambda>inp. turn_ok (n i) (snd inp)) (own i sched)"
  shows "case run_all (app_step env hz) a sched of
      Inr a' \<Rightarrow> \<forall>i pc. pcs a i = Some pc \<longrightarrow>
        clients_at i (app_world a') = wire_run (port i) (worker_frames (n i) pc (own i sched)) (clients_at i (app_world a))
    | Inl f \<Rightarrow> f \<in> {AssertFailed, OutOfBounds} \<and>
        (\<exists>i pc. pcs a i = Some pc \<and>
           meets_new_client (port i) (worker_frames (n i) pc (own i sched)) (clients_at i (app_world a)))"
proof -
  have f: "follows i (pc, app_world a) a" if "pcs a i = Some pc" for i pc
    using assms(1) that world_okD(1,2) [of "app_world a" i] by (auto simp: follows_def same_at_def app_ok_def)
  have W: "refines_wire (port i) (n i) i (worker_frames (n i) pc (own i sched)) (app_world a)
      (world_of (run_all (worker_step env hz i) (pc, app_world a) (own i sched)))" if "pcs a i = Some pc" for i pc
    by (rule worker_wire [OF assms(2,3) assms(4) [OF that] assms(5)])
  show ?thesis
  proof (cases "run_all (app_step env hz) a sched")
    case (Inl g)
    from app_run_fault [OF assms(1) Inl] obtain i pc where i: "pcs a i = Some pc"
      "run_all (worker_step env hz i) (pc, app_world a) (own i sched) = Inl g"
      using f by fastforce
    from W [OF i(1)] i Inl show ?thesis by (auto simp: world_of_def refines_wire_def)
  next
    case (Inr a')
    have "clients_at i (app_world a') = wire_run (port i) (worker_frames (n i) pc (own i sched)) (clients_at i (app_world a))"
      if pc: "pcs a i = Some pc" for i pc
    proof -
      obtain pc' w' where s: "run_all (worker_step env hz i) (pc, app_world a) (own i sched) = Inr (pc', w')"
        "same_at i w' (app_world a')"
        using app_run_own [OF assms(1) f [OF pc] Inr] by (auto simp: follows_def)
      from W [OF pc] s show ?thesis by (simp add: world_of_def refines_wire_def clients_at_def same_at_def)
    qed
    with Inr show ?thesis by simp
  qed
qed

text \<open>A worker in its loop whose port delivers a SYN; on core 1 there is no worker.\<close>

definition demo_turn :: turn where
  "demo_turn = (0, (\<lambda>i. 0), (\<lambda>i. [(7, [demo_seg 9 2 77 []])]))"

definition demo_app :: "(u64 \<times> u64) option app" where
  "demo_app = \<lparr>app_world = demo_world, pcs = [2 \<mapsto> Looping]\<rparr>"

lemma demo_txrxBurst: "\<exists>w. txrxBurst demo_env 2 demo_turn demo_world = Inr w"
proof -
  have two: "2 < MAX_THREADS" by (simp add: MAX_THREADS_def)
  note D = world_okD [OF demo_world_simps(1) two]
  let ?m = "[demo_seg 9 2 77 []]"
  have rx: "\<exists>w'. processRx demo_env 2 (7, ?m) pt v = Inr w'" if "world_ok v" "gl_tcpCtxt v ! 2 = demo_server"
    "srv (g_threads v ! 2) ! SERVICE_PROTO_TCP = TcpReactor" for v pt
  proof -
    obtain s where "handleTcpRx demo_net rd_pool demo_timer 2 (7, ?m) (mb_log v, demo_server) =
        Inr (hand_over rd_pool \<lparr>ab_data = Some 7\<rparr> (mb_log v), s)" using demo_wire_syn by blast
    with processRx_deliver [of demo_env v 2 ?m 7 pt] demo_net_documented that two demo_frame(1) show ?thesis
      by (auto split: if_splits)
  qed
  have n: "arr_cnt (portList demo_thread) = 1" "length (arr_data (pkts_burst demo_thread)) = MAX_PKT_BURST"
    "prev_tsc demo_thread = 0" by (simp_all add: demo_thread_def thread_new_def arr_new_def)
  let ?t = "demo_thread\<lparr>portList := arr_update (portList demo_thread) 0 (\<lambda>p. p\<lparr>port_rx := port_rx p + 1\<rparr>),
    pkts_burst := \<lparr>arr_data = Some (7, ?m) # drop 1 (arr_data (pkts_burst demo_thread)), arr_cnt = 1\<rparr>\<rparr>"
  have fl: "flushed 0 (\<lambda>i. 0) demo_thread = demo_thread" using n(3) by (simp add: flushed_def)
  have same: "set_thread 2 demo_thread demo_world = demo_world"
    using demo_world_simps(2) by (metis list_update_id set_thread_def world.surjective world.update_convs(1))
  have "thread_ok ?t"
    by (rule thread_ok_counted) (use demo_thread_ok n(2) in \<open>simp_all add: MAX_PKT_BURST_def\<close>)
  then obtain w' where w': "processRx demo_env 2 (7, ?m) (portId (arr_data (portList demo_thread) ! 0))
      (set_thread 2 ?t demo_world) = Inr w'"
    using rx [of "set_thread 2 ?t demo_world"] D(1) set_thread_ok [OF demo_world_simps(1)] by force
  have "txrxBurst demo_env 2 demo_turn demo_world = rx_ports demo_env 2 (\<lambda>i. [(7, ?m)]) 0 1 demo_world"
    using txrxBurst_flushed [OF D(3,1), of demo_env 0 "\<lambda>i. 0" "\<lambda>i. [(7, ?m)]"] n(1) fl same
    by (simp add: demo_turn_def)
  with w' D(1) n(2) show ?thesis
    by (simp add: store_burst_def MAX_PKT_BURST_def arr_list_def Let_def)
qed

theorem app_refines_wire_witness:
  "\<exists>a. run_all (app_step demo_env 1) demo_app [(1, True, idle), (2, False, demo_turn), (2, True, idle)] = Inr a \<and>
     clients_at 2 (app_world a) = [demo_client \<mapsto> (TCP_STATE_SYN_SENT, 78)]"
proof -
  let ?sched = "[(1, True, idle), (2, False, demo_turn), (2, True, idle)]"
  obtain w where "txrxBurst demo_env 2 demo_turn demo_world = Inr w" using demo_txrxBurst by blast
  then obtain a where a: "run_all (app_step demo_env 1) demo_app ?sched = Inr a"
    by (simp add: app_step_def demo_app_def)
  have ok: "app_ok demo_app" by (simp add: app_ok_def demo_app_def MAX_THREADS_def)
  have sv: "serving 8000 1 i (app_world demo_app)" if "pcs demo_app i = Some pc" for i pc
    using that demo_serving by (simp add: demo_app_def split: if_splits)
  have tn: "list_all (\<lambda>inp. turn_ok 1 (snd inp)) (own i ?sched)" for i
    using demo_frame(1) by (simp add: turn_ok_def demo_turn_def idle_def MAX_PKT_BURST_def)
  from app_refines_wire [where n = "\<lambda>i. 1" and port = "\<lambda>i. 8000" and env = demo_env and hz = 1, OF ok _ _ sv tn] a demo_net_documented demo_timer_documented
  have "clients_at 2 (app_world a) = wire_run 8000 (worker_frames 1 Looping (own 2 ?sched)) (clients_at 2 demo_world)"
    by (simp add: demo_app_def)
  also have "\<dots> = [demo_client \<mapsto> (TCP_STATE_SYN_SENT, 78)]"
    using demo_frame(2) by (simp add: turn_frames_def demo_turn_def demo_clients)
  finally show ?thesis using a by blast
qed

end
