(* ===== verification/DevSetup.thy ===== *)
theory DevSetup
  imports Boot
begin

text \<open>
  The device calls of the start: \<^verbatim>\<open>port_init\<close> and the loop and the buffer pool of \<^verbatim>\<open>pm::init\<close>
  with the arguments they pass to DPDK, where the theory \<^verbatim>\<open>Boot\<close> keeps the return codes only. The
  state adds the two global descriptor counts, which every port adjusts for the ports after it, and the
  log of the calls. DPDK's answers are the record \<open>dev_api\<close>. The properties are about the protocol
  that DPDK asks for (configure, set up the queues, start) and about the size of the pool.
\<close>

section \<open>Devices\<close>

record dev_info =
  flow_type_rss_offloads :: u64
  tx_offload_capa :: u64

text \<open>
  The members of \<^verbatim>\<open>struct rte_eth_conf\<close> that the code computes with. \<^verbatim>\<open>mq_mode\<close> and
  \<^verbatim>\<open>rss_key\<close>, which it sets to the constants \<^verbatim>\<open>ETH_MQ_RX_RSS\<close> and \<^verbatim>\<open>NULL\<close>, are left out.
\<close>

record eth_conf =
  max_rx_pkt_len :: u32
  rx_offloads :: u64
  rss_hf :: u64
  tx_offloads :: u64

datatype dev_call =
    PoolCreate u32
  | DevInfoGet nat
  | DevConfigure nat nat nat eth_conf          \<comment> \<open>port, receive queues, transmit queues\<close>
  | AdjustDesc nat
  | MacaddrGet nat
  | RxQueueSetup nat nat u16 u64               \<comment> \<open>port, queue, descriptors, offloads\<close>
  | TxQueueSetup nat nat u16 u64
  | DevStart nat
  | PromiscuousEnable nat

record dev_api =
  RTE_ETHER_MAX_LEN :: u32
  ETH_RSS_PROTO_MASK :: u64
  DEV_TX_OFFLOAD_MBUF_FAST_FREE :: u64
  rte_lcore_count :: u32
  rte_pktmbuf_pool_create :: "u32 \<Rightarrow> bool"
  rte_eth_dev_info_get :: "nat \<Rightarrow> int \<times> dev_info"
  rte_eth_dev_configure :: "nat \<Rightarrow> nat \<Rightarrow> nat \<Rightarrow> eth_conf \<Rightarrow> int"
  rte_eth_dev_adjust_nb_rx_tx_desc :: "nat \<Rightarrow> u16 \<times> u16 \<Rightarrow> int \<times> u16 \<times> u16"
  rte_eth_rx_queue_setup :: "nat \<Rightarrow> nat \<Rightarrow> u16 \<Rightarrow> u64 \<Rightarrow> int"
  rte_eth_tx_queue_setup :: "nat \<Rightarrow> nat \<Rightarrow> u16 \<Rightarrow> u64 \<Rightarrow> int"

definition MEMPOOL_CACHE_SIZE :: u32 where "MEMPOOL_CACHE_SIZE = 32"
definition RTE_TEST_TX_DESC_DEFAULT :: u32 where "RTE_TEST_TX_DESC_DEFAULT = 64"
definition RTE_TEST_RX_DESC_DEFAULT :: u32 where "RTE_TEST_RX_DESC_DEFAULT = 64"
definition RX_DEFAULT_RINGSIZE :: u16 where "RX_DEFAULT_RINGSIZE = 1024"
definition TX_DEFAULT_RINGSIZE :: u16 where "TX_DEFAULT_RINGSIZE = 1024"

text \<open>The globals \<^verbatim>\<open>gl_nb_rxd\<close> and \<^verbatim>\<open>gl_nb_txd\<close>, the calls so far (oldest first) and the threads.\<close>

record 't dev_state =
  gl_nb_rxd :: u16
  gl_nb_txd :: u16
  calls :: "dev_call list"
  d_world :: "'t world"

definition dev_new :: "'t world \<Rightarrow> 't dev_state" where
  "dev_new w = \<lparr>gl_nb_rxd = RX_DEFAULT_RINGSIZE, gl_nb_txd = TX_DEFAULT_RINGSIZE, calls = [], d_world = w\<rparr>"

definition log_call :: "dev_call \<Rightarrow> 't dev_state \<Rightarrow> 't dev_state" where
  "log_call c d = d\<lparr>calls := calls d @ [c]\<rparr>"

text \<open>\<^verbatim>\<open>if (ret < 0) rte_exit(...)\<close>\<close>

definition checked :: "int \<Rightarrow> fault + unit" where
  "checked ret = (if ret < 0 then Inl Panic else Inr ())"

section \<open>One port\<close>

definition port_conf :: "dev_api \<Rightarrow> eth_conf" where
  "port_conf api = \<lparr>max_rx_pkt_len = RTE_ETHER_MAX_LEN api, rx_offloads = 0,
     rss_hf = ETH_RSS_PROTO_MASK api, tx_offloads = 0\<rparr>"

text \<open>The copy of the configuration that is restricted to what the device offers.\<close>

definition local_port_conf :: "dev_api \<Rightarrow> dev_info \<Rightarrow> eth_conf" where
  "local_port_conf api info =
     (let c = (port_conf api)\<lparr>rss_hf := rss_hf (port_conf api) AND flow_type_rss_offloads info\<rparr> in
      if tx_offload_capa info AND DEV_TX_OFFLOAD_MBUF_FAST_FREE api \<noteq> 0
      then c\<lparr>tx_offloads := tx_offloads c OR DEV_TX_OFFLOAD_MBUF_FAST_FREE api\<rparr> else c)"

text \<open>The loop over the receive queues; the list has the queue ids that are left.\<close>

fun rx_queues :: "dev_api \<Rightarrow> nat \<Rightarrow> u64 \<Rightarrow> nat list \<Rightarrow> 't dev_state \<Rightarrow> fault + 't dev_state" where
  "rx_queues api portid offloads [] d = Inr d"
| "rx_queues api portid offloads (i # is) d =
     bindR (checked (rte_eth_rx_queue_setup api portid i (gl_nb_rxd d) offloads)) (\<lambda>_.
       rx_queues api portid offloads is (log_call (RxQueueSetup portid i (gl_nb_rxd d) offloads) d))"

definition port_setup ::
  "dev_api \<Rightarrow> boot_env \<Rightarrow> nat \<Rightarrow> nat \<Rightarrow> nat \<Rightarrow> 't dev_state \<Rightarrow> fault + 't dev_state" where
  "port_setup api be portid nb_queues lcoreId d =
     (if \<not> port_enabled portid then Inr d
      else
        let (ret, info) = rte_eth_dev_info_get api portid in
        bindR (checked ret) (\<lambda>_.
        let conf = local_port_conf api info;
            d1 = log_call (DevConfigure portid nb_queues 1 conf) (log_call (DevInfoGet portid) d) in
        bindR (checked (rte_eth_dev_configure api portid nb_queues 1 conf)) (\<lambda>_.
        let (ret, rxd, txd) = rte_eth_dev_adjust_nb_rx_tx_desc api portid (gl_nb_rxd d1, gl_nb_txd d1);
            d2 = (log_call (AdjustDesc portid) d1)\<lparr>gl_nb_rxd := rxd, gl_nb_txd := txd\<rparr> in
        bindR (checked ret) (\<lambda>_.
        bindR (rx_queues api portid (rx_offloads conf) [0..<nb_queues] (log_call (MacaddrGet portid) d2)) (\<lambda>d3.
        bindR (checked (rte_eth_tx_queue_setup api portid 0 (gl_nb_txd d3) (tx_offloads conf))) (\<lambda>_.
        let d4 = log_call (TxQueueSetup portid 0 (gl_nb_txd d3) (tx_offloads conf)) d3 in
        bindR (thread_at lcoreId (d_world d4)) (\<lambda>t.
        bindR (addPort (be_zmalloc be portid) (be_set_cb be portid) (of_nat portid) t) (\<lambda>t1.
        let d5 = log_call (DevStart portid) (d4\<lparr>d_world := set_thread lcoreId t1 (d_world d4)\<rparr>) in
        bindR (checked (dev_start be portid)) (\<lambda>_.
          Inr (log_call (PromiscuousEnable portid) d5))))))))))"

section \<open>All ports\<close>

fun setup_ports ::
  "dev_api \<Rightarrow> boot_env \<Rightarrow> nat \<Rightarrow> nat list \<Rightarrow> 't dev_state \<Rightarrow> fault + (bool \<times> 't dev_state)" where
  "setup_ports api be rx_lcore_id [] d = Inr (True, d)"
| "setup_ports api be rx_lcore_id (port # ports) d =
     (if \<not> port_enabled port then setup_ports api be rx_lcore_id ports d
      else if \<not> rte_eth_dev_is_valid_port be port then Inr (False, d)
      else bindR (next_lcore be rx_lcore_id (d_world d)) (\<lambda>i. bindR (assertR (i < MAX_THREADS)) (\<lambda>_.
        bindR (port_setup api be port 1 i d) (\<lambda>d1. setup_ports api be i ports d1))))"

text \<open>\<^verbatim>\<open>nb_mbufs\<close>: a product of 32-bit unsigned operands.\<close>

definition nb_mbufs :: "dev_api \<Rightarrow> nat \<Rightarrow> u32" where
  "nb_mbufs api nb_ports =
     of_nat nb_ports * (RTE_TEST_RX_DESC_DEFAULT + RTE_TEST_TX_DESC_DEFAULT + of_nat MAX_PKT_BURST +
       rte_lcore_count api * MEMPOOL_CACHE_SIZE)"

definition pm_setup :: "dev_api \<Rightarrow> boot_env \<Rightarrow> 't dev_state \<Rightarrow> fault + (int \<times> 't dev_state)" where
  "pm_setup api be d =
     (let w = d_world d; d1 = d\<lparr>d_world := w\<lparr>g_threads := map (\<lambda>t. snd (thread_init t)) (g_threads w)\<rparr>\<rparr> in
      bindR (assertR (\<forall>t \<in> set (g_threads w). fst (thread_init t) = 0)) (\<lambda>_.
      let nb_ports = rte_eth_dev_count_avail be in
      if nb_ports = 0 then Inl Panic
      else
        let n = nb_mbufs api nb_ports in
        if \<not> rte_pktmbuf_pool_create api n then Inl Panic
        else bindR (setup_ports api be 0 (dev_ids be) (log_call (PoolCreate n) d1)) (\<lambda>(ok, d2).
          Inr (if ok then 0 else -1, d2))))"

section \<open>The calls of one port\<close>

lemma checked_simps [simp]:
  "checked ret = Inr u \<longleftrightarrow> 0 \<le> ret" "checked ret = Inl f \<longleftrightarrow> ret < 0 \<and> f = Panic"
  by (auto simp: checked_def)

lemma log_call_simps [simp]:
  "d_world (log_call c d) = d_world d" "calls (log_call c d) = calls d @ [c]"
  "gl_nb_rxd (log_call c d) = gl_nb_rxd d" "gl_nb_txd (log_call c d) = gl_nb_txd d"
  by (simp_all add: log_call_def)

lemma rx_queues_calls:
  "rx_queues api portid offloads is d =
     (if \<exists>i \<in> set is. rte_eth_rx_queue_setup api portid i (gl_nb_rxd d) offloads < 0 then Inl Panic
      else Inr (d\<lparr>calls := calls d @ map (\<lambda>i. RxQueueSetup portid i (gl_nb_rxd d) offloads) is\<rparr>))"
  by (induction "is" arbitrary: d) (auto simp: checked_def log_call_def)

text \<open>The return codes and the calls of a port, from the descriptor counts before it.\<close>

definition setup_codes :: "dev_api \<Rightarrow> nat \<Rightarrow> nat \<Rightarrow> u16 \<times> u16 \<Rightarrow> int list" where
  "setup_codes api portid nb_queues descs =
     (let (ret, info) = rte_eth_dev_info_get api portid; conf = local_port_conf api info;
          (ret1, rxd, txd) = rte_eth_dev_adjust_nb_rx_tx_desc api portid descs in
      [ret, rte_eth_dev_configure api portid nb_queues 1 conf, ret1] @
      map (\<lambda>i. rte_eth_rx_queue_setup api portid i rxd (rx_offloads conf)) [0..<nb_queues] @
      [rte_eth_tx_queue_setup api portid 0 txd (tx_offloads conf)])"

definition setup_calls :: "dev_api \<Rightarrow> nat \<Rightarrow> nat \<Rightarrow> u16 \<times> u16 \<Rightarrow> dev_call list" where
  "setup_calls api portid nb_queues descs =
     (let (ret, info) = rte_eth_dev_info_get api portid; conf = local_port_conf api info;
          (ret1, rxd, txd) = rte_eth_dev_adjust_nb_rx_tx_desc api portid descs in
      [DevInfoGet portid, DevConfigure portid nb_queues 1 conf, AdjustDesc portid, MacaddrGet portid] @
      map (\<lambda>i. RxQueueSetup portid i rxd (rx_offloads conf)) [0..<nb_queues] @
      [TxQueueSetup portid 0 txd (tx_offloads conf), DevStart portid, PromiscuousEnable portid])"

definition descs :: "'t dev_state \<Rightarrow> u16 \<times> u16" where
  "descs d = (gl_nb_rxd d, gl_nb_txd d)"

lemma port_setup_init:
  assumes "port_enabled portid \<Longrightarrow> dev_before be portid = setup_codes api portid nb_queues (descs d)"
  shows "port_init be portid lcoreId (d_world d) =
    bindR (port_setup api be portid nb_queues lcoreId d) (\<lambda>d'. Inr (d_world d'))"
proof (cases "port_enabled portid")
  case True
  obtain ret info where i: "rte_eth_dev_info_get api portid = (ret, info)" by (cases "rte_eth_dev_info_get api portid")
  obtain ret1 rxd txd where a: "rte_eth_dev_adjust_nb_rx_tx_desc api portid (descs d) = (ret1, rxd, txd)"
    by (cases "rte_eth_dev_adjust_nb_rx_tx_desc api portid (descs d)")
  have a': "rte_eth_dev_adjust_nb_rx_tx_desc api portid (gl_nb_rxd d, gl_nb_txd d) = (ret1, rxd, txd)"
    using a by (simp add: descs_def)
  show ?thesis
    using True assms i a a'
    by (auto simp: port_init_def port_setup_def setup_codes_def rx_queues_calls checked_def Let_def bindR_assoc)
qed (simp add: port_init_def port_setup_def)

lemma port_setup_calls:
  assumes "port_setup api be portid nb_queues lcoreId d = Inr d'" and "port_enabled portid"
  shows "calls d' = calls d @ setup_calls api portid nb_queues (descs d) \<and>
    descs d' = snd (rte_eth_dev_adjust_nb_rx_tx_desc api portid (descs d))"
proof -
  obtain ret info where i: "rte_eth_dev_info_get api portid = (ret, info)" by (cases "rte_eth_dev_info_get api portid")
  obtain ret1 rxd txd where a: "rte_eth_dev_adjust_nb_rx_tx_desc api portid (descs d) = (ret1, rxd, txd)"
    by (cases "rte_eth_dev_adjust_nb_rx_tx_desc api portid (descs d)")
  have a': "rte_eth_dev_adjust_nb_rx_tx_desc api portid (gl_nb_rxd d, gl_nb_txd d) = (ret1, rxd, txd)"
    using a by (simp add: descs_def)
  show ?thesis
    using assms i a a'
    by (auto simp: port_setup_def setup_calls_def rx_queues_calls Let_def fault_simps descs_def split: if_splits)
qed

section \<open>The loop over the ports\<close>

text \<open>The ports that are set up, and the calls for them; the descriptor counts go from port to port.\<close>

definition ports_started :: "boot_env \<Rightarrow> nat list \<Rightarrow> nat list" where
  "ports_started be ports = takeWhile (rte_eth_dev_is_valid_port be) (filter port_enabled ports)"

fun ports_calls :: "dev_api \<Rightarrow> nat list \<Rightarrow> u16 \<times> u16 \<Rightarrow> dev_call list" where
  "ports_calls api [] ds = []"
| "ports_calls api (p # ps) ds =
     setup_calls api p 1 ds @ ports_calls api ps (snd (rte_eth_dev_adjust_nb_rx_tx_desc api p ds))"

lemma setup_ports_calls:
  assumes "setup_ports api be i ports d = Inr (ok, d')"
  shows "calls d' = calls d @ ports_calls api (ports_started be ports) (descs d)"
  using assms
proof (induction ports arbitrary: i d)
  case (Cons port ports)
  show ?case
  proof (cases "port_enabled port \<and> rte_eth_dev_is_valid_port be port")
    case False
    with Cons show ?thesis by (auto simp: ports_started_def split: if_splits)
  next
    case True
    with Cons.prems obtain j d1 where d1: "port_setup api be port 1 j d = Inr d1" "setup_ports api be j ports d1 = Inr (ok, d')"
      by (auto simp: fault_simps)
    from Cons.IH [OF d1(2)] port_setup_calls [OF d1(1)] True show ?thesis by (simp add: ports_started_def)
  qed
qed (simp add: ports_started_def)

text \<open>What \<^verbatim>\<open>Boot\<close> does depends on the return codes of its ports only.\<close>

lemma next_lcore_same:
  "rte_lcore_is_enabled b = rte_lcore_is_enabled be \<Longrightarrow> rte_get_main_lcore b = rte_get_main_lcore be \<Longrightarrow>
     next_lcore b i w = next_lcore be i w"
proof (induction be i w rule: next_lcore.induct)
  case (1 be i w)
  let ?X = "if \<not> rte_lcore_is_enabled be i \<or> i = rte_get_main_lcore be then Inr True
      else bindR (thread_at i w) (\<lambda>t. Inr (arr_size (portList t) = MAX_RX_QUEUE_PER_LCORE))"
  have s: "next_lcore c i w = bindR ?X (\<lambda>skip. if skip then
      if i + 1 < MAX_THREADS then next_lcore c (i + 1) w else Inl AssertFailed else Inr i)"
    if "c = be \<or> c = b" for c
    using that "1.prems" by (subst next_lcore.simps) auto
  note s = s [OF disjI1 [OF refl]] s [OF disjI2 [OF refl]]
  show ?case
  proof (cases ?X)
    case (Inl f)
    then show ?thesis unfolding s by (simp only: bindR_simps)
  next
    case (Inr skip)
    with "1.IH" [OF Inr _ _ "1.prems"] show ?thesis unfolding s
      by (cases skip; cases "i + 1 < MAX_THREADS") (simp_all only: bindR_simps if_True if_False simp_thms)
  qed
qed

lemma next_lcore_codes [simp]:
  "next_lcore (be\<lparr>dev_before := codes\<rparr>) i w = next_lcore be i w"
  "next_lcore (be\<lparr>pool_created := b\<rparr>) i w = next_lcore be i w"
  by (rule next_lcore_same; simp)+

lemma port_setup_codes [simp]:
  "port_setup api (be\<lparr>dev_before := codes\<rparr>) portid nb_queues i d = port_setup api be portid nb_queues i d"
  "port_setup api (be\<lparr>pool_created := b\<rparr>) portid nb_queues i d = port_setup api be portid nb_queues i d"
  by (simp_all add: port_setup_def)

lemma setup_ports_pool [simp]:
  fixes d :: "'t dev_state"
  shows "setup_ports api (be\<lparr>pool_created := b\<rparr>) i ports d = setup_ports api be i ports d"
proof (induction ports arbitrary: i d)
  case (Cons p ports)
  then have "setup_ports api (be\<lparr>pool_created := b\<rparr>) j ports = (setup_ports api be j ports :: 't dev_state \<Rightarrow> _)" for j
    by (intro ext)
  then show ?case by simp
qed simp

lemma init_ports_codes:
  fixes w :: "'t world"
  assumes "\<And>p. p \<in> set ports \<Longrightarrow> port_enabled p \<Longrightarrow> codes p = codes' p"
  shows "init_ports (be\<lparr>dev_before := codes\<rparr>) i ports w = init_ports (be\<lparr>dev_before := codes'\<rparr>) i ports w"
  using assms
proof (induction ports arbitrary: i w)
  case (Cons p ports)
  have "port_init (be\<lparr>dev_before := codes\<rparr>) p j w = port_init (be\<lparr>dev_before := codes'\<rparr>) p j w" for j
    using Cons.prems [of p] by (simp add: port_init_def)
  moreover have "init_ports (be\<lparr>dev_before := codes\<rparr>) j ports =
      (init_ports (be\<lparr>dev_before := codes'\<rparr>) j ports :: 't world \<Rightarrow> _)" for j
    by (rule ext, rule Cons.IH) (use Cons.prems in auto)
  ultimately show ?case by simp
qed simp

text \<open>The return codes of the ports, each with the descriptor counts that the ports before it left.\<close>

fun codes_from :: "dev_api \<Rightarrow> nat list \<Rightarrow> u16 \<times> u16 \<Rightarrow> nat \<Rightarrow> int list" where
  "codes_from api [] ds = (\<lambda>p. [])"
| "codes_from api (p # ps) ds =
     (codes_from api ps (snd (rte_eth_dev_adjust_nb_rx_tx_desc api p ds)))(p := setup_codes api p 1 ds)"

lemma setup_ports_init:
  assumes "distinct ports"
  shows "init_ports (be\<lparr>dev_before := codes_from api (filter port_enabled ports) (descs d)\<rparr>) i ports (d_world d) =
    bindR (setup_ports api be i ports d) (\<lambda>(ok, d'). Inr (ok, d_world d'))"
  using assms
proof (induction ports arbitrary: i d)
  case (Cons port ports)
  show ?case
  proof (cases "port_enabled port")
    case False
    with Cons show ?thesis by simp
  next
    case True
    define codes where "codes = codes_from api (filter port_enabled (port # ports)) (descs d)"
    have p: "port_init (be\<lparr>dev_before := codes\<rparr>) port j (d_world d) =
        bindR (port_setup api be port 1 j d) (\<lambda>d'. Inr (d_world d'))" for j
      using port_setup_init [of port "be\<lparr>dev_before := codes\<rparr>" api 1 d j] True by (simp add: codes_def)
    have n: "init_ports (be\<lparr>dev_before := codes\<rparr>) j ports (d_world d1) =
        bindR (setup_ports api be j ports d1) (\<lambda>(ok, d'). Inr (ok, d_world d'))"
      if "port_setup api be port 1 j d = Inr d1" for j d1
    proof -
      have "init_ports (be\<lparr>dev_before := codes\<rparr>) j ports (d_world d1) =
          init_ports (be\<lparr>dev_before := codes_from api (filter port_enabled ports) (descs d1)\<rparr>) j ports (d_world d1)"
        by (rule init_ports_codes)
          (use Cons.prems True port_setup_calls [OF that True] in \<open>auto simp: codes_def\<close>)
      with Cons show ?thesis by simp
    qed
    show ?thesis unfolding codes_def [symmetric]
      using True by (auto simp: p n bindR_def assertR_def split: sum.split)
  qed
qed simp

section \<open>The protocol of a device\<close>

text \<open>
  What DPDK's documentation asks of the calls for a port: the queues are set up after it was configured
  and within the numbers of queues given there, it is started when all of them are, and it is not
  configured again while it runs. \<open>None\<close> is a call out of order.
\<close>

datatype port_pc = Fresh | Configured nat nat "nat list" "nat list" | Started

fun dev_next :: "nat \<Rightarrow> dev_call \<Rightarrow> port_pc \<Rightarrow> port_pc option" where
  "dev_next p (DevConfigure q nr nt conf) s =
     (if q \<noteq> p then Some s else if s = Started then None else Some (Configured nr nt [] []))"
| "dev_next p (RxQueueSetup q i n off) s =
     (if q \<noteq> p then Some s
      else case s of
        Configured nr nt R T \<Rightarrow> if i < nr then Some (Configured nr nt (i # R) T) else None
      | _ \<Rightarrow> None)"
| "dev_next p (TxQueueSetup q i n off) s =
     (if q \<noteq> p then Some s
      else case s of
        Configured nr nt R T \<Rightarrow> if i < nt then Some (Configured nr nt R (i # T)) else None
      | _ \<Rightarrow> None)"
| "dev_next p (DevStart q) s =
     (if q \<noteq> p then Some s
      else case s of
        Configured nr nt R T \<Rightarrow>
          if list_all (\<lambda>i. i \<in> set R) [0..<nr] \<and> list_all (\<lambda>i. i \<in> set T) [0..<nt] then Some Started else None
      | _ \<Rightarrow> None)"
| "dev_next p _ s = Some s"

fun dev_run :: "nat \<Rightarrow> dev_call list \<Rightarrow> port_pc \<Rightarrow> port_pc option" where
  "dev_run p [] s = Some s"
| "dev_run p (c # cs) s = (case dev_next p c s of None \<Rightarrow> None | Some s1 \<Rightarrow> dev_run p cs s1)"

lemma dev_run_append: "dev_run p (cs @ cs') s = (case dev_run p cs s of None \<Rightarrow> None | Some s1 \<Rightarrow> dev_run p cs' s1)"
  by (induction cs arbitrary: s) (auto split: option.split)

lemma dev_run_rx:
  "\<forall>i \<in> set is. i < nr \<Longrightarrow>
     dev_run p (map (\<lambda>i. RxQueueSetup p i n off) is) (Configured nr nt R T) = Some (Configured nr nt (rev is @ R) T)"
  by (induction "is" arbitrary: R) auto

lemma dev_run_other:
  "q \<noteq> p \<Longrightarrow> dev_run p (map (\<lambda>i. RxQueueSetup q i n off) is) s = Some s"
  by (induction "is") auto

lemma setup_calls_run:
  "dev_run p (setup_calls api q nb_queues ds) s =
     (if q \<noteq> p then Some s else if s = Started then None else Some Started)"
  by (auto simp: setup_calls_def Let_def split_beta dev_run_append dev_run_rx dev_run_other list_all_iff)

lemma ports_calls_other: "p \<notin> set ps \<Longrightarrow> dev_run p (ports_calls api ps ds) s = Some s"
proof (induction ps arbitrary: ds)
  case (Cons q ps)
  from Cons.IH [of "snd (rte_eth_dev_adjust_nb_rx_tx_desc api q ds)"] Cons.prems show ?case
    by (simp add: dev_run_append setup_calls_run [unfolded One_nat_def])
qed simp

lemma ports_calls_run:
  "distinct ps \<Longrightarrow> dev_run p (ports_calls api ps ds) Fresh = Some (if p \<in> set ps then Started else Fresh)"
proof (induction ps arbitrary: ds)
  case (Cons q ps)
  note IH = Cons.IH [of "snd (rte_eth_dev_adjust_nb_rx_tx_desc api q ds)"]
  from Cons.prems show ?case
    by (cases "q = p") (simp_all add: dev_run_append setup_calls_run ports_calls_other IH)
qed simp

lemma pm_setup_calls:
  assumes "pm_setup api be (dev_new w) = Inr (ret, d')"
  shows "calls d' = PoolCreate (nb_mbufs api (rte_eth_dev_count_avail be)) #
    ports_calls api (ports_started be (dev_ids be)) (RX_DEFAULT_RINGSIZE, TX_DEFAULT_RINGSIZE)"
  using assms
  by (auto simp: pm_setup_def Let_def fault_simps dev_new_def descs_def log_call_def dest!: setup_ports_calls split: if_splits)

lemma setup_calls_confs:
  "DevConfigure p nr nt conf \<in> set (setup_calls api q nb_queues ds) \<Longrightarrow>
     p = q \<and> nr = nb_queues \<and> nt = 1 \<and> conf = local_port_conf api (snd (rte_eth_dev_info_get api p))"
  by (auto simp: setup_calls_def Let_def split_beta)

lemma ports_calls_confs:
  "DevConfigure p nr nt conf \<in> set (ports_calls api ps ds) \<Longrightarrow>
     p \<in> set ps \<and> nr = 1 \<and> nt = 1 \<and> conf = local_port_conf api (snd (rte_eth_dev_info_get api p))"
proof (induction ps arbitrary: ds)
  case (Cons q ps)
  then have "DevConfigure p nr nt conf \<in> set (setup_calls api q 1 ds) \<or>
      DevConfigure p nr nt conf \<in> set (ports_calls api ps (snd (rte_eth_dev_adjust_nb_rx_tx_desc api q ds)))"
    by simp
  then show ?case
  proof
    assume "DevConfigure p nr nt conf \<in> set (setup_calls api q 1 ds)"
    from setup_calls_confs [OF this] show ?thesis by simp
  next
    assume "DevConfigure p nr nt conf \<in> set (ports_calls api ps (snd (rte_eth_dev_adjust_nb_rx_tx_desc api q ds)))"
    from Cons.IH [OF this] show ?thesis by simp
  qed
qed simp

section \<open>Properties\<close>

text \<open>
  Property (C27). The start with the device calls and their arguments implements the start of the theory
  \<^verbatim>\<open>Boot\<close>, whose parameters are the return codes: with the codes that DPDK gives to the calls
  which the code makes, each port with the descriptor counts that the ports before it left behind, both
  end in the same fault, or with the same result and the same threads. What the application properties
  say of a start is thus true of the start with its device calls.
\<close>

theorem pm_setup_refines_init:
  assumes "distinct (dev_ids be)"
  shows "pm_init (be\<lparr>pool_created := rte_pktmbuf_pool_create api (nb_mbufs api (rte_eth_dev_count_avail be)),
      dev_before := codes_from api (filter port_enabled (dev_ids be)) (gl_nb_rxd d, gl_nb_txd d)\<rparr>) (d_world d) =
    bindR (pm_setup api be d) (\<lambda>(ret, d'). Inr (ret, d_world d'))"
proof -
  let ?codes = "codes_from api (filter port_enabled (dev_ids be)) (gl_nb_rxd d, gl_nb_txd d)"
  let ?n = "nb_mbufs api (rte_eth_dev_count_avail be)"
  let ?w = "(d_world d)\<lparr>g_threads := map (\<lambda>t. snd (thread_init t)) (g_threads (d_world d))\<rparr>"
  let ?d = "log_call (PoolCreate ?n) (d\<lparr>d_world := ?w\<rparr>)"
  have "init_ports (be\<lparr>pool_created := b, dev_before := ?codes\<rparr>) 0 (dev_ids be) ?w =
      bindR (setup_ports api be 0 (dev_ids be) ?d) (\<lambda>(ok, d'). Inr (ok, d_world d'))" for b
    using setup_ports_init [of "dev_ids be" api ?d "be\<lparr>pool_created := b\<rparr>" 0] assms by (simp add: descs_def log_call_def)
  then show ?thesis
    by (simp add: pm_init_def pm_setup_def Let_def bindR_assoc) (simp add: bindR_def assertR_def split: sum.split prod.split)
qed

lemma local_port_conf_offered:
  fixes api :: dev_api
  shows "rss_hf (local_port_conf api info) AND NOT (flow_type_rss_offloads info) = 0"
    "rx_offloads (local_port_conf api info) = 0"
    "tx_offloads (local_port_conf api info) =
       (if tx_offload_capa info AND DEV_TX_OFFLOAD_MBUF_FAST_FREE api \<noteq> 0
        then DEV_TX_OFFLOAD_MBUF_FAST_FREE api else 0)"
proof -
  show "rss_hf (local_port_conf api info) AND NOT (flow_type_rss_offloads info) = 0"
    by (rule bit_word_eqI) (auto simp: local_port_conf_def Let_def bit_simps)
qed (simp_all add: local_port_conf_def port_conf_def Let_def)

lemma pm_setup_ports:
  assumes "distinct (dev_ids be)" and "pm_setup api be (dev_new (world_new tapi)) = Inr (ret, d')"
  shows "all_ports (d_world d') = map of_nat (ports_started be (dev_ids be))"
proof -
  let ?d = "log_call (PoolCreate (nb_mbufs api (rte_eth_dev_count_avail be))) (dev_new (init_world tapi))"
  from assms(2) obtain okf where s: "setup_ports api be 0 (dev_ids be) ?d = Inr (okf, d')"
    by (auto simp: pm_setup_def Let_def fault_simps dev_new_def init_world_def split: if_splits)
  have w: "d_world ?d = init_world tapi" by (simp add: dev_new_def)
  have "init_ports (be\<lparr>dev_before := codes_from api (filter port_enabled (dev_ids be)) (descs ?d)\<rparr>) 0 (dev_ids be)
      (init_world tapi) = Inr (okf, d_world d')"
    using setup_ports_init [OF assms(1), of api ?d be 0] s unfolding w by simp
  from init_ports_spec [OF init_world_boot this] show ?thesis
    by (simp add: init_world_simps ports_started_def)
qed

text \<open>
  Property (C26). The calls of a successful start follow DPDK's protocol for every port. The pool is
  created first. A port that is enabled and valid is configured with one receive and one transmit queue,
  both queues are set up while it is configured and stopped, then it is started, once; for any other port
  no such call is made. The ports that the cores poll are the started ones. The
  configuration asks for no hash type and for no offload that the device does not report.
\<close>

theorem pm_setup_protocol:
  assumes "distinct (dev_ids be)" and "pm_setup api be (dev_new (world_new tapi)) = Inr (ret, d')"
  shows "hd (calls d') = PoolCreate (nb_mbufs api (rte_eth_dev_count_avail be)) \<and>
    (\<forall>p. dev_run p (calls d') Fresh = Some (if p \<in> set (ports_started be (dev_ids be)) then Started else Fresh)) \<and>
    all_ports (d_world d') = map of_nat (ports_started be (dev_ids be)) \<and>
    (\<forall>p nr nt c. DevConfigure p nr nt c \<in> set (calls d') \<longrightarrow>
       (let info = snd (rte_eth_dev_info_get api p) in
        nr = 1 \<and> nt = 1 \<and> rss_hf c AND NOT (flow_type_rss_offloads info) = 0 \<and>
        (tx_offloads c = 0 \<or>
         tx_offloads c = DEV_TX_OFFLOAD_MBUF_FAST_FREE api \<and> tx_offload_capa info AND tx_offloads c \<noteq> 0)))"
proof -
  have dist: "distinct (ports_started be (dev_ids be))"
    using assms(1) unfolding ports_started_def by (intro distinct_takeWhile distinct_filter)
  note c = pm_setup_calls [OF assms(2)]
  show ?thesis
    using pm_setup_ports [OF assms] ports_calls_run [OF dist]
    by (auto simp: c Let_def local_port_conf_offered dest!: ports_calls_confs split: if_splits)
qed

text \<open>The descriptors of the receive rings; a started port holds a buffer of the pool in each.\<close>

definition rx_descriptors :: "dev_call list \<Rightarrow> nat" where
  "rx_descriptors cs = sum_list (map (\<lambda>c. case c of RxQueueSetup p i n off \<Rightarrow> unat n | _ \<Rightarrow> 0) cs)"

lemma rx_descriptors_simps:
  "rx_descriptors [] = 0" "rx_descriptors (cs @ cs') = rx_descriptors cs + rx_descriptors cs'"
  "rx_descriptors (PoolCreate n # cs) = rx_descriptors cs"
  by (simp_all add: rx_descriptors_def)

lemma setup_calls_descriptors:
  "rx_descriptors (setup_calls api p 1 ds) = unat (fst (snd (rte_eth_dev_adjust_nb_rx_tx_desc api p ds)))"
  by (simp add: setup_calls_def Let_def split_beta rx_descriptors_def)

lemma ports_calls_descriptors:
  assumes "\<forall>p \<in> set ps. snd (rte_eth_dev_adjust_nb_rx_tx_desc api p ds) = ds"
  shows "rx_descriptors (ports_calls api ps ds) = unat (fst ds) * length ps"
  using assms
proof (induction ps)
  case (Cons p ps)
  then have "snd (rte_eth_dev_adjust_nb_rx_tx_desc api p ds) = ds" by simp
  with Cons show ?case
    unfolding ports_calls.simps rx_descriptors_simps setup_calls_descriptors by simp
qed (simp add: rx_descriptors_simps)

lemma nb_mbufs_value:
  assumes "nb_ports < 2 ^ 16" and "unat (rte_lcore_count api) < 2040"
  shows "unat (nb_mbufs api nb_ports) = nb_ports * (256 + 32 * unat (rte_lcore_count api))"
proof -
  let ?L = "unat (rte_lcore_count api)"
  have e: "nb_mbufs api nb_ports = of_nat (nb_ports * (256 + 32 * ?L))"
    by (simp add: nb_mbufs_def RTE_TEST_RX_DESC_DEFAULT_def RTE_TEST_TX_DESC_DEFAULT_def MAX_PKT_BURST_def
        MEMPOOL_CACHE_SIZE_def algebra_simps)
  have "nb_ports * (256 + 32 * ?L) \<le> 65535 * 65504"
    using assms by (intro mult_le_mono) auto
  then have "nb_ports * (256 + 32 * ?L) < 2 ^ 32" by simp
  then show ?thesis by (intro of_nat_inverse) (simp_all only: e len_of_numeral_defs, simp)
qed

text \<open>
  Property (C28). The pool against the rings it has to fill, for a machine whose devices take the
  requested ring sizes: the product for the size of the pool, of at most 65535 ports and fewer than 2040
  cores, does not overflow; the receive rings have 1024 descriptors for each started port. For \<open>P\<close>
  available ports and \<open>L\<close> cores the pool is too small for the receive rings alone if and only if
  \<open>P (8 + L)\<close> is below 32 times the number of started ports: when all ports are started, with any
  number of cores below 24. The program has places for 8.
\<close>

theorem pool_smaller_than_rings:
  assumes "pm_setup api be (dev_new w) = Inr (ret, d')"
    and "\<forall>p. snd (rte_eth_dev_adjust_nb_rx_tx_desc api p (RX_DEFAULT_RINGSIZE, TX_DEFAULT_RINGSIZE)) =
      (RX_DEFAULT_RINGSIZE, TX_DEFAULT_RINGSIZE)"
    and "rte_eth_dev_count_avail be < 2 ^ 16" and "unat (rte_lcore_count api) < 2040"
  shows "(let P = rte_eth_dev_count_avail be; started = length (ports_started be (dev_ids be));
      pool = unat (nb_mbufs api P) in
    pool = P * (256 + 32 * unat (rte_lcore_count api)) \<and>
    rx_descriptors (calls d') = 1024 * started \<and>
    (pool < rx_descriptors (calls d') \<longleftrightarrow> P * (8 + unat (rte_lcore_count api)) < 32 * started))"
proof -
  let ?P = "rte_eth_dev_count_avail be" and ?L = "unat (rte_lcore_count api)"
  have "rx_descriptors (calls d') = 1024 * length (ports_started be (dev_ids be))"
    using ports_calls_descriptors [of "ports_started be (dev_ids be)" api "(RX_DEFAULT_RINGSIZE, TX_DEFAULT_RINGSIZE)"] assms(2)
    unfolding pm_setup_calls [OF assms(1)] rx_descriptors_simps by (simp add: RX_DEFAULT_RINGSIZE_def)
  moreover have "?P * (256 + 32 * ?L) = 32 * (?P * (8 + ?L))" by (simp add: algebra_simps)
  ultimately show ?thesis unfolding Let_def nb_mbufs_value [OF assms(3,4)] by linarith
qed

section \<open>The machine of the start's witness with its devices\<close>

definition demo_dev :: dev_api where
  "demo_dev = \<lparr>RTE_ETHER_MAX_LEN = 1518, ETH_RSS_PROTO_MASK = 252, DEV_TX_OFFLOAD_MBUF_FAST_FREE = 65536,
     rte_lcore_count = 3, rte_pktmbuf_pool_create = (\<lambda>n. True),
     rte_eth_dev_info_get = (\<lambda>p. (0, \<lparr>flow_type_rss_offloads = 12, tx_offload_capa = 65537\<rparr>)),
     rte_eth_dev_configure = (\<lambda>p nr nt c. 0), rte_eth_dev_adjust_nb_rx_tx_desc = (\<lambda>p ds. (0, ds)),
     rte_eth_rx_queue_setup = (\<lambda>p i n off. 0), rte_eth_tx_queue_setup = (\<lambda>p i n off. 0)\<rparr>"

lemma demo_codes: "p \<in> set ps \<Longrightarrow> codes_from demo_dev ps ds p = dev_before demo_boot p"
proof (induction ps)
  case (Cons q ps)
  have "setup_codes demo_dev p 1 ds = [0, 0, 0, 0, 0]" by (simp add: setup_codes_def demo_dev_def Let_def)
  moreover have "snd (rte_eth_dev_adjust_nb_rx_tx_desc demo_dev q ds) = ds" by (simp add: demo_dev_def)
  ultimately show ?case using Cons by (auto simp: demo_boot_def)
qed simp

lemma demo_setup: "\<exists>ret d'. pm_setup demo_dev demo_boot (dev_new (world_new demo_timer)) = Inr (ret, d')"
proof -
  let ?d = "log_call (PoolCreate (nb_mbufs demo_dev 4)) (dev_new (init_world demo_timer))"
  have ids: "dev_ids demo_boot = [0, 1, 2, 3]" "rte_eth_dev_count_avail demo_boot = 4" by (simp_all add: demo_boot_def)
  have w: "d_world ?d = init_world demo_timer" by (simp add: dev_new_def)
  have e: "thread_ports (g_threads (init_world demo_timer) ! 1) = []"
    by (rule init_world_simps(5)) (simp add: MAX_THREADS_def)
  obtain r where "init_ports demo_boot 0 [0, 1, 2, 3] (init_world demo_timer) = Inr r"
    using demo_init_ports [OF init_world_simps(3) [of demo_timer], of 0 "[0, 1, 2, 3]"] e by auto
  moreover have "init_ports (demo_boot\<lparr>dev_before := dev_before demo_boot\<rparr>) 0 [0, 1, 2, 3] (init_world demo_timer) =
      init_ports (demo_boot\<lparr>dev_before := codes_from demo_dev (filter port_enabled [0, 1, 2, 3]) (descs ?d)\<rparr>) 0
        [0, 1, 2, 3] (init_world demo_timer)"
    by (rule init_ports_codes, rule demo_codes [symmetric]) (simp only: set_filter mem_Collect_eq simp_thms)
  ultimately have "bindR (setup_ports demo_dev demo_boot 0 [0, 1, 2, 3] ?d) (\<lambda>(ok, d'). Inr (ok, d_world d')) = Inr r"
    using setup_ports_init [of "[0, 1, 2, 3]" demo_dev ?d demo_boot 0] unfolding w by simp
  then obtain okf d' where s: "setup_ports demo_dev demo_boot 0 [0, 1, 2, 3] ?d = Inr (okf, d')"
    by (auto simp: fault_simps)
  have t: "\<forall>t \<in> set (g_threads (world_new demo_timer)). fst (thread_init t) = 0" by (simp add: thread_init_def)
  have n: "(dev_new (world_new demo_timer))\<lparr>d_world := init_world demo_timer\<rparr> = dev_new (init_world demo_timer)"
    by (simp add: dev_new_def)
  have p: "rte_pktmbuf_pool_create demo_dev m" for m by (simp add: demo_dev_def)
  have dw: "d_world (dev_new (world_new demo_timer)) = world_new demo_timer" by (simp add: dev_new_def)
  show ?thesis unfolding pm_setup_def Let_def ids dw init_world_def [symmetric] n s using t p by simp
qed

lemma demo_started: "ports_started demo_boot (dev_ids demo_boot) = [0, 1, 2]" "distinct (dev_ids demo_boot)"
proof -
  have "port_enabled 0" "port_enabled 1" "port_enabled 2" "\<not> port_enabled 3" by code_simp+
  then show "ports_started demo_boot (dev_ids demo_boot) = [0, 1, 2]"
    by (simp add: ports_started_def demo_boot_def)
qed (simp add: demo_boot_def)

theorem pm_setup_refines_init_witness:
  "\<exists>ret d'. pm_setup demo_dev demo_boot (dev_new (world_new demo_timer)) = Inr (ret, d') \<and>
     pm_init (demo_boot\<lparr>pool_created := True,
       dev_before := codes_from demo_dev [0, 1, 2] (RX_DEFAULT_RINGSIZE, TX_DEFAULT_RINGSIZE)\<rparr>)
       (world_new demo_timer) = Inr (ret, d_world d')"
proof -
  obtain ret d' where s: "pm_setup demo_dev demo_boot (dev_new (world_new demo_timer)) = Inr (ret, d')"
    using demo_setup by blast
  have e: "port_enabled 0" "port_enabled 1" "port_enabled 2" "\<not> port_enabled 3" by code_simp+
  have f: "filter port_enabled (dev_ids demo_boot) = [0, 1, 2]" using e by (simp add: demo_boot_def)
  have p: "rte_pktmbuf_pool_create demo_dev n" for n by (simp add: demo_dev_def)
  let ?d = "dev_new (world_new demo_timer)"
  have g: "gl_nb_rxd ?d = RX_DEFAULT_RINGSIZE" "gl_nb_txd ?d = TX_DEFAULT_RINGSIZE" "d_world ?d = world_new demo_timer"
    by (simp_all add: dev_new_def)
  from pm_setup_refines_init [OF demo_started(2), of demo_dev ?d] s
  show ?thesis unfolding f g by (simp add: p)
qed

theorem pm_setup_protocol_witness:
  "\<exists>ret d'. pm_setup demo_dev demo_boot (dev_new (world_new demo_timer)) = Inr (ret, d') \<and>
     dev_run 2 (calls d') Fresh = Some Started \<and> dev_run 3 (calls d') Fresh = Some Fresh \<and>
     all_ports (d_world d') = [0, 1, 2]"
proof -
  obtain ret d' where s: "pm_setup demo_dev demo_boot (dev_new (world_new demo_timer)) = Inr (ret, d')"
    using demo_setup by blast
  from pm_setup_protocol [OF demo_started(2) s] show ?thesis using s by (simp add: demo_started(1))
qed

theorem pool_smaller_than_rings_witness:
  "\<exists>ret d'. pm_setup demo_dev demo_boot (dev_new (world_new demo_timer)) = Inr (ret, d') \<and>
     unat (nb_mbufs demo_dev 4) = 1408 \<and> rx_descriptors (calls d') = 3072"
proof -
  obtain ret d' where s: "pm_setup demo_dev demo_boot (dev_new (world_new demo_timer)) = Inr (ret, d')"
    using demo_setup by blast
  have P: "rte_eth_dev_count_avail demo_boot = 4" "rte_lcore_count demo_dev = 3"
    "snd (rte_eth_dev_adjust_nb_rx_tx_desc demo_dev p ds) = ds" for p ds
    by (simp_all add: demo_boot_def demo_dev_def)
  from pool_smaller_than_rings [OF s] show ?thesis using s by (simp add: P demo_started(1) Let_def)
qed

end
