(* ===== verification/BusSteps.thy ===== *)
theory BusSteps
  imports Circular
begin

text \<open>
  The ring \<^verbatim>\<open>bus_mp_sc\<close> of \<^verbatim>\<open>core/circular.hxx\<close> under concurrency: producers and the consumer
  run in any interleaving of their accesses to \<^verbatim>\<open>readPos\<close>, \<^verbatim>\<open>writePos\<close> and the array, one access
  at a time, and every load sees the newest store (\<^verbatim>\<open>BusOrders\<close> has the memory orders of the code).
  Nothing in the program consumes a ring (the loop in \<^verbatim>\<open>core/plugin.cc\<close> is under \<^verbatim>\<open>#if 0\<close>), so
  the consumer here calls \<^verbatim>\<open>empty\<close>, \<^verbatim>\<open>front\<close> and \<^verbatim>\<open>pop_front\<close> in any order, but pops only after
  \<^verbatim>\<open>empty\<close> has told it that there is a message. With one producer, or with several whose calls of
  \<^verbatim>\<open>push\<close> do not overlap, no message is lost, changed or reordered, and it is exact which message a
  call of \<^verbatim>\<open>front\<close> returns: the one popped last, not the next one. When two calls of \<^verbatim>\<open>push\<close>
  overlap, the name \<^verbatim>\<open>mp\<close> promises more than the code does.
\<close>

section \<open>Accesses\<close>

text \<open>Where a producer is in \<^verbatim>\<open>push(x)\<close>, after which access.\<close>

datatype 'a push_pc =
    PIdle
  | PLoadedW 'a nat      \<comment> \<open>loaded \<^verbatim>\<open>writePos\<close>\<close>
  | PLoadedR 'a nat      \<comment> \<open>loaded \<^verbatim>\<open>readPos\<close>, the ring was not full\<close>
  | PWritten 'a nat      \<comment> \<open>wrote \<^verbatim>\<open>data[wp]\<close>\<close>

text \<open>
  Where the consumer is in its calls. Between two calls \<open>COut\<close> says whether \<^verbatim>\<open>empty\<close> has returned
  false since the last pop.
\<close>

datatype pop_pc =
    COut bool
  | CLoadedW nat         \<comment> \<open>\<^verbatim>\<open>empty\<close> loaded \<^verbatim>\<open>writePos\<close>\<close>
  | CLoadedR nat         \<comment> \<open>\<^verbatim>\<open>pop_front\<close> loaded \<^verbatim>\<open>readPos\<close>\<close>
  | CFront bool nat      \<comment> \<open>\<^verbatim>\<open>front\<close> loaded \<^verbatim>\<open>readPos\<close>\<close>

datatype cons_call = CallEmpty | CallFront | CallPop

text \<open>
  \<open>sent\<close> has the messages whose \<^verbatim>\<open>push\<close> returned 0, \<open>pops\<close> the number of pops so far, and \<open>got\<close>
  what each call of \<^verbatim>\<open>front\<close> returned, with the number of pops before it.
\<close>

record 'a bus_sys =
  ring :: "'a bus_mp_sc"
  producers :: "'a push_pc list"
  consumer :: pop_pc
  sent :: "'a list"
  pops :: nat
  got :: "(nat \<times> 'a) list"

definition sys_new :: "'a list \<Rightarrow> nat \<Rightarrow> 'a bus_sys" where
  "sys_new dat n = \<lparr>ring = bus_new dat, producers = replicate n PIdle, consumer = COut False, sent = [],
     pops = 0, got = []\<rparr>"

text \<open>The next access of a producer; an idle one starts to push \<open>x\<close>.\<close>

fun producer_step :: "nat \<Rightarrow> 'a \<Rightarrow> 'a push_pc \<Rightarrow> 'a bus_sys \<Rightarrow> fault + 'a bus_sys" where
  "producer_step i x PIdle s =
     Inr (s\<lparr>producers := (producers s)[i := PLoadedW x (writePos (ring s))]\<rparr>)"
| "producer_step i x (PLoadedW m wp) s =
     Inr (s\<lparr>producers := (producers s)[i := (if wp = readPos (ring s) then PIdle else PLoadedR m wp)]\<rparr>)"
| "producer_step i x (PLoadedR m wp) s =
     (if wp < CAPACITY (ring s)
      then Inr (s\<lparr>ring := (ring s)\<lparr>bus_data := (bus_data (ring s))[wp := m]\<rparr>,
                 producers := (producers s)[i := PWritten m wp]\<rparr>)
      else Inl OutOfBounds)"
| "producer_step i x (PWritten m wp) s =
     Inr (s\<lparr>ring := (ring s)\<lparr>writePos := (wp + 1) mod CAPACITY (ring s)\<rparr>,
            producers := (producers s)[i := PIdle], sent := sent s @ [m]\<rparr>)"

text \<open>The next access of the consumer; between two calls it starts the call \<open>c\<close>.\<close>

fun consumer_step :: "cons_call \<Rightarrow> pop_pc \<Rightarrow> 'a bus_sys \<Rightarrow> fault + 'a bus_sys" where
  "consumer_step c (COut ne) s =
     (case c of
        CallEmpty \<Rightarrow> Inr (s\<lparr>consumer := CLoadedW (writePos (ring s))\<rparr>)
      | CallFront \<Rightarrow> Inr (s\<lparr>consumer := CFront ne (readPos (ring s))\<rparr>)
      | CallPop \<Rightarrow> Inr (s\<lparr>consumer := CLoadedR (readPos (ring s))\<rparr>))"
| "consumer_step c (CLoadedW wp) s =
     Inr (s\<lparr>consumer := COut ((readPos (ring s) + 1) mod CAPACITY (ring s) \<noteq> wp)\<rparr>)"
| "consumer_step c (CLoadedR rp) s =
     Inr (s\<lparr>ring := (ring s)\<lparr>readPos := (rp + 1) mod CAPACITY (ring s)\<rparr>, consumer := COut False,
            pops := pops s + 1\<rparr>)"
| "consumer_step c (CFront ne rp) s =
     bindR (bus_read (ring s) rp) (\<lambda>x. Inr (s\<lparr>consumer := COut ne, got := got s @ [(pops s, x)]\<rparr>))"

text \<open>A consumer that was not told of a message calls \<^verbatim>\<open>empty\<close> instead of \<^verbatim>\<open>pop_front\<close>.\<close>

fun tested_call :: "pop_pc \<Rightarrow> cons_call \<Rightarrow> cons_call" where
  "tested_call (COut False) CallPop = CallEmpty"
| "tested_call pc c = c"

text \<open>Whose access is next; a producer that does not exist does nothing.\<close>

datatype 'a turn_of = Producer nat 'a | Consumer cons_call

fun sys_step :: "'a bus_sys \<Rightarrow> 'a turn_of \<Rightarrow> fault + 'a bus_sys" where
  "sys_step s (Producer i x) =
     (if i < length (producers s) then producer_step i x (producers s ! i) s else Inr s)"
| "sys_step s (Consumer c) = consumer_step (tested_call (consumer s) c) (consumer s) s"

section \<open>Calls of push that do not overlap\<close>

text \<open>
  The schedules in which a producer makes an access only while the others are not in \<^verbatim>\<open>push\<close>; the
  consumer is free.
\<close>

definition push_idle :: "'a push_pc \<Rightarrow> bool" where
  "push_idle pc = (case pc of PIdle \<Rightarrow> True | _ \<Rightarrow> False)"

definition others_idle :: "nat \<Rightarrow> 'a bus_sys \<Rightarrow> bool" where
  "others_idle i s \<longleftrightarrow>
     list_all (\<lambda>j. j = i \<or> push_idle (producers s ! j)) [0..<length (producers s)]"

fun serial_turn :: "'a bus_sys \<Rightarrow> 'a turn_of \<Rightarrow> bool" where
  "serial_turn s (Producer i x) \<longleftrightarrow> i < length (producers s) \<longrightarrow> others_idle i s"
| "serial_turn s (Consumer c) \<longleftrightarrow> True"

fun serial_run :: "'a bus_sys \<Rightarrow> 'a turn_of list \<Rightarrow> bool" where
  "serial_run s [] \<longleftrightarrow> True"
| "serial_run s (e # es) \<longleftrightarrow>
     serial_turn s e \<and> (case sys_step s e of Inl _ \<Rightarrow> True | Inr s1 \<Rightarrow> serial_run s1 es)"

definition producer_inv :: "'a push_pc \<Rightarrow> 'a bus_mp_sc \<Rightarrow> bool" where
  "producer_inv pc b =
     (case pc of
        PIdle \<Rightarrow> True
      | PLoadedW m wp \<Rightarrow> wp = writePos b
      | PLoadedR m wp \<Rightarrow> wp = writePos b \<and> wp \<noteq> readPos b
      | PWritten m wp \<Rightarrow> wp = writePos b \<and> wp \<noteq> readPos b \<and> bus_data b ! wp = m)"

lemma producer_inv_simps [simp]:
  "producer_inv PIdle b"
  "producer_inv (PLoadedW m wp) b \<longleftrightarrow> wp = writePos b"
  "producer_inv (PLoadedR m wp) b \<longleftrightarrow> wp = writePos b \<and> wp \<noteq> readPos b"
  "producer_inv (PWritten m wp) b \<longleftrightarrow> wp = writePos b \<and> wp \<noteq> readPos b \<and> bus_data b ! wp = m"
  by (simp_all add: producer_inv_def)

text \<open>An old value of \<^verbatim>\<open>writePos\<close> that differs from the next slot still shows a message.\<close>

definition consumer_inv :: "pop_pc \<Rightarrow> 'a bus_mp_sc \<Rightarrow> bool" where
  "consumer_inv pc b =
     (case pc of
        COut ne \<Rightarrow> ne \<longrightarrow> bus_list b \<noteq> []
      | CLoadedW wp \<Rightarrow> wp \<noteq> (readPos b + 1) mod CAPACITY b \<longrightarrow> bus_list b \<noteq> []
      | CLoadedR rp \<Rightarrow> rp = readPos b \<and> bus_list b \<noteq> []
      | CFront ne rp \<Rightarrow> rp = readPos b \<and> (ne \<longrightarrow> bus_list b \<noteq> []))"

text \<open>
  The ring holds the messages sent and not popped, and its read position the message popped last;
  before the first pop, what the array held at first (\<open>d0\<close>). What was read is the message that the
  number of pops says.
\<close>

definition messages_ok :: "'a \<Rightarrow> 'a list \<Rightarrow> nat \<Rightarrow> (nat \<times> 'a) list \<Rightarrow> bool" where
  "messages_ok d0 msgs p gs \<longleftrightarrow>
     p \<le> length msgs \<and> sorted (map fst gs) \<and> (\<forall>(k, m) \<in> set gs. k \<le> p \<and> m = (d0 # msgs) ! k)"

lemma messages_ok_send: "messages_ok d0 msgs p gs \<Longrightarrow> messages_ok d0 (msgs @ [m]) p gs"
proof -
  have "(d0 # msgs @ [m]) ! k = (d0 # msgs) ! k" if "k \<le> length msgs" for k
    using that by (cases k) (simp_all add: nth_append)
  moreover assume "messages_ok d0 msgs p gs"
  ultimately show ?thesis by (fastforce simp: messages_ok_def)
qed

lemma messages_ok_pop: "messages_ok d0 msgs p gs \<Longrightarrow> p < length msgs \<Longrightarrow> messages_ok d0 msgs (Suc p) gs"
  by (fastforce simp: messages_ok_def)

lemma messages_ok_read: "messages_ok d0 msgs p gs \<Longrightarrow> messages_ok d0 msgs p (gs @ [(p, (d0 # msgs) ! p)])"
  by (fastforce simp: messages_ok_def sorted_append)

definition bus_sys_inv :: "'a \<Rightarrow> 'a bus_sys \<Rightarrow> bool" where
  "bus_sys_inv d0 s \<longleftrightarrow>
     bus_inv (ring s) \<and> list_all (\<lambda>pc. producer_inv pc (ring s)) (producers s) \<and>
     consumer_inv (consumer s) (ring s) \<and> bus_list (ring s) = drop (pops s) (sent s) \<and>
     bus_data (ring s) ! readPos (ring s) = (d0 # sent s) ! pops s \<and> messages_ok d0 (sent s) (pops s) (got s)"

text \<open>What the other producers have loaded is nothing, so only the one that moved counts.\<close>

lemma others_idle_inv:
  assumes "others_idle i s" and "producer_inv q b"
  shows "list_all (\<lambda>pc. producer_inv pc b) ((producers s)[i := q])"
proof -
  have "producer_inv (producers s ! j) b" if j: "j < length (producers s)" "j \<noteq> i" for j
  proof -
    have "push_idle (producers s ! j)" using assms(1) j by (auto simp: others_idle_def list_all_iff)
    then show ?thesis by (cases "producers s ! j") (simp_all add: push_idle_def)
  qed
  then have "producer_inv ((producers s)[i := q] ! j) b" if "j < length (producers s)" for j
    using assms(2) that by (cases "j = i") simp_all
  then show ?thesis by (simp add: list_all_length)
qed

lemma sys_step_producers: "sys_step s e = Inr s' \<Longrightarrow> length (producers s') = length (producers s)"
proof (cases e)
  case (Producer i x)
  assume "sys_step s e = Inr s'"
  with Producer show ?thesis by (cases "producers s ! i") (auto split: if_splits)
next
  case (Consumer c)
  assume "sys_step s e = Inr s'"
  with Consumer show ?thesis
    by (cases "consumer s"; cases "tested_call (consumer s) c") (auto simp: fault_simps)
qed

lemma run_producers: "run_all sys_step s es = Inr s' \<Longrightarrow> length (producers s') = length (producers s)"
proof (induction es arbitrary: s)
  case (Cons e es)
  then obtain s1 where "sys_step s e = Inr s1" "run_all sys_step s1 es = Inr s'" by (auto simp: fault_simps)
  with Cons.IH [of s1] sys_step_producers [of s e s1] show ?case by simp
qed simp

text \<open>With one producer every schedule is such a schedule.\<close>

lemma one_producer_serial: "length (producers s) = 1 \<Longrightarrow> serial_run s es"
proof (induction es arbitrary: s)
  case (Cons e es)
  have "serial_turn s e" using Cons.prems by (cases e) (auto simp: others_idle_def)
  with Cons show ?case by (auto simp: sys_step_producers split: sum.split)
qed simp

text \<open>A write to the free slot, and the store of \<^verbatim>\<open>writePos\<close> that makes it a message.\<close>

lemma ring_write:
  fixes x
  assumes inv: "bus_inv b" and ne: "writePos b \<noteq> readPos b"
  defines "b1 \<equiv> b\<lparr>bus_data := (bus_data b)[writePos b := x]\<rparr>"
  shows "bus_inv b1" and "bus_list b1 = bus_list b" and "CAPACITY b1 = CAPACITY b"
    and "bus_data b1 ! readPos b = bus_data b ! readPos b" and "bus_data b1 ! writePos b = x"
proof -
  have f: "CAPACITY b1 = CAPACITY b" "readPos b1 = readPos b" "writePos b1 = writePos b"
    by (simp_all add: b1_def CAPACITY_def)
  show "bus_inv b1" using inv by (simp add: bus_inv_def f)
  show "CAPACITY b1 = CAPACITY b" by (rule f(1))
  show "bus_data b1 ! readPos b = bus_data b ! readPos b" using ne by (simp add: b1_def)
  show "bus_data b1 ! writePos b = x" using inv by (simp add: b1_def bus_inv_def CAPACITY_def)
  have len: "bus_len b1 = bus_len b" by (simp add: bus_len_def f)
  have slot: "bus_slot b1 i = bus_slot b i" for i by (simp add: bus_slot_def f)
  have "bus_slot b i \<noteq> writePos b" if "i < bus_len b" for i
  proof -
    have "i < CAPACITY b" using that bus_len_bound [OF inv] by (simp add: bus_room_def)
    then show ?thesis using bus_slot_write [OF inv] that by simp
  qed
  then have "bus_data b1 ! bus_slot b i = bus_data b ! bus_slot b i" if "i < bus_len b" for i
    using that by (metis b1_def bus_mp_sc.select_convs(2) bus_mp_sc.surjective bus_mp_sc.update_convs(2) nth_list_update_neq)
  then show "bus_list b1 = bus_list b" by (simp add: bus_list_def len slot)
qed

lemma ring_store:
  assumes inv: "bus_inv b" and ne: "writePos b \<noteq> readPos b"
  defines "b1 \<equiv> b\<lparr>writePos := (writePos b + 1) mod CAPACITY b\<rparr>"
  shows "bus_inv b1" and "bus_list b1 = bus_list b @ [bus_data b ! writePos b]" and "CAPACITY b1 = CAPACITY b"
proof -
  have room: "bus_len b < bus_room b"
    using ne bus_len_full [OF inv] bus_len_bound [OF inv] by simp
  obtain b' where b': "bus_push b (bus_data b ! writePos b) = Inr (0, b')" "bus_inv b'"
    "bus_list b' = bus_list b @ [bus_data b ! writePos b]" "CAPACITY b' = CAPACITY b"
    using bus_push_room [OF inv room] by blast
  have "b' = b1" using b'(1) ne inv by (simp add: bus_push_def Let_def b1_def bus_inv_def)
  with b' show "bus_inv b1" and "bus_list b1 = bus_list b @ [bus_data b ! writePos b]"
    and "CAPACITY b1 = CAPACITY b" by simp_all
qed

text \<open>The store of \<^verbatim>\<open>readPos\<close> by the consumer.\<close>

lemma ring_pop:
  assumes inv: "bus_inv b" and ne: "bus_list b \<noteq> []"
  defines "b1 \<equiv> b\<lparr>readPos := (readPos b + 1) mod CAPACITY b\<rparr>"
  shows "bus_inv b1" and "bus_list b = bus_data b1 ! readPos b1 # bus_list b1" and "CAPACITY b1 = CAPACITY b"
    and "writePos b1 \<noteq> readPos b1"
proof -
  have b1: "b1 = bus_pop_front b" by (simp add: b1_def bus_pop_front_def Let_def)
  show i1: "bus_inv b1" and "CAPACITY b1 = CAPACITY b" using bus_pop_tl [OF inv ne] b1 by simp_all
  have "bus_data b1 ! readPos b1 = hd (bus_list b)"
    using bus_front_pop [OF inv ne] i1 unfolding b1 by (simp add: bus_front_def bus_read_def bus_inv_def)
  then show "bus_list b = bus_data b1 ! readPos b1 # bus_list b1"
    using bus_pop_tl [OF inv ne] b1 ne by (simp add: hd_Cons_tl)
  have "(readPos b + 1) mod CAPACITY b \<noteq> writePos b"
    using bus_empty_iff [OF inv] ne by (simp add: bus_empty_def Let_def)
  then show "writePos b1 \<noteq> readPos b1" by (simp add: b1_def)
qed

lemma empty_load: "bus_inv b \<Longrightarrow> writePos b \<noteq> (readPos b + 1) mod CAPACITY b \<longleftrightarrow> bus_list b \<noteq> []"
  using bus_empty_iff [of b] by (auto simp: bus_empty_def Let_def)

lemma producer_step_inv:
  assumes inv: "bus_sys_inv d0 s" and i: "i < length (producers s)" "others_idle i s" and pc: "pc = producers s ! i"
  shows "\<exists>s'. producer_step i x pc s = Inr s' \<and> bus_sys_inv d0 s'"
proof -
  let ?b = "ring s"
  have bi: "bus_inv ?b" and pi: "producer_inv pc ?b" and ci: "consumer_inv (consumer s) ?b"
    and bl: "bus_list ?b = drop (pops s) (sent s)" and lst: "bus_data ?b ! readPos ?b = (d0 # sent s) ! pops s"
    and mo: "messages_ok d0 (sent s) (pops s) (got s)"
    using inv i(1) by (auto simp: bus_sys_inv_def pc list_all_length)
  note oth = others_idle_inv [OF i(2)]
  show ?thesis
  proof (cases pc)
    case PIdle
    with bi ci bl lst mo show ?thesis by (simp add: bus_sys_inv_def oth)
  next
    case (PLoadedW m wp)
    with bi ci bl lst mo pi show ?thesis by (simp add: bus_sys_inv_def oth)
  next
    case (PLoadedR m wp)
    with pi have wp: "wp = writePos ?b" and ne: "writePos ?b \<noteq> readPos ?b" by auto
    note R = ring_write [OF bi ne, of m]
    have c: "wp < CAPACITY ?b" using bi wp by (simp add: bus_inv_def)
    let ?s = "s\<lparr>ring := ?b\<lparr>bus_data := (bus_data ?b)[wp := m]\<rparr>, producers := (producers s)[i := PWritten m wp]\<rparr>"
    have "consumer_inv (consumer s) (?b\<lparr>bus_data := (bus_data ?b)[wp := m]\<rparr>)"
      using ci R(2,3) wp by (simp add: consumer_inv_def split: pop_pc.splits)
    then have "bus_sys_inv d0 ?s" using bl lst mo R wp ne by (simp add: bus_sys_inv_def oth)
    with PLoadedR c show ?thesis by simp
  next
    case (PWritten m wp)
    with pi have wp: "wp = writePos ?b" and ne: "writePos ?b \<noteq> readPos ?b" and m: "bus_data ?b ! writePos ?b = m"
      by auto
    note R = ring_store [OF bi ne]
    let ?s = "s\<lparr>ring := ?b\<lparr>writePos := (wp + 1) mod CAPACITY ?b\<rparr>, producers := (producers s)[i := PIdle], sent := sent s @ [m]\<rparr>"
    have "consumer_inv (consumer s) (?b\<lparr>writePos := (wp + 1) mod CAPACITY ?b\<rparr>)"
      using ci R(2,3) wp by (simp add: consumer_inv_def split: pop_pc.splits)
    moreover have p: "pops s \<le> length (sent s)" using mo by (simp add: messages_ok_def)
    moreover have "(d0 # sent s @ [m]) ! pops s = (d0 # sent s) ! pops s"
      using p by (cases "pops s") (simp_all add: nth_append)
    ultimately have "bus_sys_inv d0 ?s"
      using bl lst messages_ok_send [OF mo] R wp m by (simp add: bus_sys_inv_def oth)
    with PWritten show ?thesis by simp
  qed
qed

lemma consumer_step_inv:
  assumes inv: "bus_sys_inv d0 s"
  shows "\<exists>s'. consumer_step (tested_call (consumer s) c) (consumer s) s = Inr s' \<and> bus_sys_inv d0 s'"
proof -
  let ?b = "ring s"
  have bi: "bus_inv ?b" and pi: "list_all (\<lambda>pc. producer_inv pc ?b) (producers s)" and ci: "consumer_inv (consumer s) ?b"
    and bl: "bus_list ?b = drop (pops s) (sent s)" and lst: "bus_data ?b ! readPos ?b = (d0 # sent s) ! pops s"
    and mo: "messages_ok d0 (sent s) (pops s) (got s)"
    using inv by (auto simp: bus_sys_inv_def)
  show ?thesis
  proof (cases "consumer s")
    case (COut ne)
    with bi pi ci bl lst mo empty_load [OF bi] show ?thesis
      by (cases ne; cases c) (simp_all add: bus_sys_inv_def consumer_inv_def)
  next
    case (CLoadedW wp)
    with bi pi ci bl lst mo show ?thesis by (auto simp: bus_sys_inv_def consumer_inv_def)
  next
    case (CLoadedR rp)
    with ci have rp: "rp = readPos ?b" and ne: "bus_list ?b \<noteq> []" by (auto simp: consumer_inv_def)
    note R = ring_pop [OF bi ne]
    let ?b1 = "?b\<lparr>readPos := (rp + 1) mod CAPACITY ?b\<rparr>"
    have "list_all (\<lambda>pc. producer_inv pc ?b1) (producers s)"
      using pi R(4) rp by (elim list.pred_mono_strong) (auto simp: producer_inv_def split: push_pc.splits)
    moreover have p: "pops s < length (sent s)" using ne bl by simp
    moreover from this have "drop (pops s) (sent s) = sent s ! pops s # drop (Suc (pops s)) (sent s)"
      by (rule Cons_nth_drop_Suc [symmetric])
    ultimately have "bus_sys_inv d0 (s\<lparr>ring := ?b1, consumer := COut False, pops := pops s + 1\<rparr>)"
      using R(1,2) rp bl messages_ok_pop [OF mo] by (simp add: bus_sys_inv_def consumer_inv_def)
    with CLoadedR show ?thesis by simp
  next
    case (CFront ne rp)
    with ci have rp: "rp = readPos ?b" by (simp add: consumer_inv_def)
    have "bus_read ?b rp = Inr (bus_data ?b ! readPos ?b)" using bi rp by (simp add: bus_read_def bus_inv_def)
    with CFront bi pi ci bl lst messages_ok_read [OF mo] show ?thesis by (simp add: bus_sys_inv_def consumer_inv_def)
  qed
qed

lemma bus_sys_step:
  assumes "bus_sys_inv d0 s" and "serial_turn s e"
  shows "\<exists>s'. sys_step s e = Inr s' \<and> bus_sys_inv d0 s'"
proof (cases e)
  case (Producer i x)
  with producer_step_inv [OF assms(1) _ _ refl, of i x] assms show ?thesis by auto
next
  case (Consumer c)
  with consumer_step_inv [OF assms(1)] show ?thesis by simp
qed

lemma serial_run_inv:
  "bus_sys_inv d0 s \<Longrightarrow> serial_run s es \<Longrightarrow> \<exists>s'. run_all sys_step s es = Inr s' \<and> bus_sys_inv d0 s'"
proof (induction es arbitrary: s)
  case (Cons e es)
  then obtain s1 where "sys_step s e = Inr s1" "bus_sys_inv d0 s1" using bus_sys_step [of d0 s e] by auto
  with Cons show ?case by auto
qed simp

lemma sys_new_inv: "1 < length dat \<Longrightarrow> bus_sys_inv (hd dat) (sys_new dat n)"
  using bus_new_inv [of dat]
  by (cases dat) (simp_all add: bus_sys_inv_def sys_new_def consumer_inv_def messages_ok_def list_all_length bus_new_def)

section \<open>Properties\<close>

text \<open>
  Property (C17). One producer, or any number of producers whose calls of \<^verbatim>\<open>push\<close> do not overlap,
  and a consumer that calls \<^verbatim>\<open>empty\<close>, \<^verbatim>\<open>front\<close> and \<^verbatim>\<open>pop_front\<close> in any order, popping only
  after \<^verbatim>\<open>empty\<close> returned false, in any interleaving of their accesses, for any capacity from two on:
  no access is out of bounds; at every moment the ring holds exactly the messages whose \<^verbatim>\<open>push\<close>
  succeeded and that were not popped, each once and in order. A call of \<^verbatim>\<open>front\<close> after \<open>k\<close> pops
  returns the \<open>k\<close>th message sent, and what the array held at first when \<open>k\<close> is 0: a consumer that pops
  and then reads gets every message in order, one that reads and then pops, as the disabled
  loop in \<^verbatim>\<open>core/plugin.cc\<close> would, gets each one call late.
\<close>

theorem spsc_no_loss:
  assumes "1 < length dat" and "n = 1 \<or> serial_run (sys_new dat n) es"
  shows "\<exists>s. run_all sys_step (sys_new dat n) es = Inr s \<and>
    pops s \<le> length (sent s) \<and> bus_list (ring s) = drop (pops s) (sent s) \<and> bus_len (ring s) \<le> bus_room (ring s) \<and>
    sorted (map fst (got s)) \<and> (\<forall>(k, m) \<in> set (got s). k \<le> pops s \<and> m = (hd dat # sent s) ! k)"
proof -
  have "serial_run (sys_new dat n) es" using assms(2) one_producer_serial [of "sys_new dat n" es]
    by (auto simp: sys_new_def)
  from serial_run_inv [OF sys_new_inv [OF assms(1)] this]
  obtain s where "run_all sys_step (sys_new dat n) es = Inr s" "bus_sys_inv (hd dat) s" by blast
  then show ?thesis by (intro exI [of _ s]) (simp add: bus_sys_inv_def messages_ok_def bus_len_bound)
qed

text \<open>
  The consumer interleaved with one producer: it pops and then reads the message. With two producers
  that take turns, it does what the loop in \<^verbatim>\<open>core/plugin.cc\<close> would, twice: \<^verbatim>\<open>empty\<close>, \<^verbatim>\<open>front\<close>
  and \<^verbatim>\<open>pop_front\<close>.
\<close>

definition demo_schedule :: "nat turn_of list" where
  "demo_schedule = [Producer 0 5, Consumer CallEmpty, Producer 0 0, Producer 0 0, Consumer CallEmpty, Producer 0 0,
     Producer 0 6, Consumer CallEmpty, Consumer CallEmpty, Producer 0 0, Consumer CallPop, Consumer CallPop,
     Consumer CallFront, Consumer CallFront]"

definition demo_turns :: "nat turn_of list" where
  "demo_turns = [Producer 0 5, Producer 0 0, Producer 0 0, Producer 0 0, Consumer CallEmpty, Consumer CallEmpty,
     Producer 1 6, Consumer CallFront, Producer 1 0, Consumer CallFront, Consumer CallPop, Producer 1 0, Consumer CallPop,
     Producer 1 0, Consumer CallEmpty, Consumer CallEmpty, Consumer CallFront, Consumer CallFront]"

theorem spsc_no_loss_witness:
  "(\<exists>s. run_all sys_step (sys_new [0, 0, 0] 1) demo_schedule = Inr s \<and>
     sent s = [5 :: nat] \<and> got s = [(1, 5)] \<and> bus_list (ring s) = []) \<and>
   (\<exists>s. run_all sys_step (sys_new [0, 0, 0, 0] 2) demo_turns = Inr s \<and>
     sent s = [5 :: nat, 6] \<and> got s = [(0, 0), (1, 5)] \<and> bus_list (ring s) = [6])"
proof (intro conjI)
  obtain s where s: "run_all sys_step (sys_new [0, 0, 0] 1) demo_schedule = Inr s"
    "bus_list (ring s) = drop (pops s) (sent s)" "\<forall>(k, m) \<in> set (got s). m = (hd [0, 0, 0] # sent s) ! k"
    using spsc_no_loss [of "[0, 0, 0 :: nat]" 1 demo_schedule] by auto
  have "bindR (run_all sys_step (sys_new [0, 0, 0] 1) demo_schedule) (\<lambda>s. Inr (sent s, pops s, map fst (got s))) =
    Inr ([5], 1, [1])" by code_simp
  with s show "\<exists>s. run_all sys_step (sys_new [0, 0, 0] 1) demo_schedule = Inr s \<and>
     sent s = [5 :: nat] \<and> got s = [(1, 5)] \<and> bus_list (ring s) = []" by auto
  have "serial_run (sys_new [0, 0, 0, 0] 2) demo_turns" by code_simp
  then obtain s' where s': "run_all sys_step (sys_new [0, 0, 0, 0] 2) demo_turns = Inr s'"
    "bus_list (ring s') = drop (pops s') (sent s')" "\<forall>(k, m) \<in> set (got s'). m = (hd [0, 0, 0, 0] # sent s') ! k"
    using spsc_no_loss [of "[0, 0, 0, 0 :: nat]" 2 demo_turns] by auto
  have "bindR (run_all sys_step (sys_new [0, 0, 0, 0] 2) demo_turns) (\<lambda>s. Inr (sent s, pops s, map fst (got s))) =
    Inr ([5, 6], 1, [0, 1])" by code_simp
  with s' show "\<exists>s. run_all sys_step (sys_new [0, 0, 0, 0] 2) demo_turns = Inr s \<and>
     sent s = [5 :: nat, 6] \<and> got s = [(0, 0), (1, 5)] \<and> bus_list (ring s) = [6]" by auto
qed

text \<open>The accesses of two overlapping calls \<^verbatim>\<open>push(x)\<close> and \<^verbatim>\<open>push(y)\<close>, in turns.\<close>

definition overlapping :: "nat \<Rightarrow> 'a \<Rightarrow> nat \<Rightarrow> 'a \<Rightarrow> 'a turn_of list" where
  "overlapping i x j y = concat (replicate 4 [Producer i x, Producer j y])"

text \<open>
  Property (C40). Two producers lose a message whenever their calls overlap access by access, in any
  ring with a free slot, of any capacity and after any history of calls that did not overlap: both
  calls of \<^verbatim>\<open>push\<close> return 0, but both write the same slot, so the ring has gained the second message
  only, and the first one is gone. The name \<^verbatim>\<open>bus_mp_sc\<close> promises several producers.
\<close>

theorem two_producers_lose:
  assumes "1 < length dat" and "serial_run (sys_new dat n) es" and "run_all sys_step (sys_new dat n) es = Inr s"
    and "i < n" and "j < n" and "i \<noteq> j" and "producers s ! i = PIdle" and "producers s ! j = PIdle"
    and "bus_len (ring s) < bus_room (ring s)"
  shows "\<exists>s'. run_all sys_step s (overlapping i x j y) = Inr s' \<and>
    producers s' ! i = PIdle \<and> producers s' ! j = PIdle \<and>
    sent s' = sent s @ [x, y] \<and> bus_list (ring s') = bus_list (ring s) @ [y]"
proof -
  let ?b = "ring s" and ?C = "CAPACITY (ring s)"
  have inv: "bus_sys_inv (hd dat) s"
    using serial_run_inv [OF sys_new_inv [OF assms(1)] assms(2)] assms(3) by auto
  then have bi: "bus_inv ?b" by (simp add: bus_sys_inv_def)
  have len: "i < length (producers s)" "j < length (producers s)"
    using assms(4,5) run_producers [OF assms(3)] by (simp_all add: sys_new_def)
  have ne: "writePos ?b \<noteq> readPos ?b" using assms(9) bus_len_full [OF bi] by simp
  have c: "writePos ?b < ?C" using bi by (simp add: bus_inv_def)
  let ?b2 = "?b\<lparr>bus_data := ((bus_data ?b)[writePos ?b := x])[writePos ?b := y]\<rparr>"
  let ?b3 = "?b2\<lparr>writePos := (writePos ?b + 1) mod ?C\<rparr>"
  let ?s = "s\<lparr>ring := ?b3, producers := (producers s)[i := PIdle, j := PIdle], sent := sent s @ [x, y]\<rparr>"
  have "run_all sys_step s (overlapping i x j y) = Inr ?s"
    using assms(6-8) len ne c
    by (simp add: overlapping_def numeral_eq_Suc list_update_swap CAPACITY_def)
  moreover have "bus_list ?b3 = bus_list ?b @ [y]"
  proof -
    note W = ring_write [OF bi ne, of y]
    have "bus_inv (?b\<lparr>bus_data := (bus_data ?b)[writePos ?b := y]\<rparr>)" by (rule W(1))
    from ring_store [OF this] ne W show ?thesis by simp
  qed
  ultimately show ?thesis using assms(6) len by (intro exI [of _ ?s]) simp
qed

theorem two_producers_lose_witness:
  "\<exists>s s'. run_all sys_step (sys_new [0, 0, 0, 0] 2) [Producer 0 (4 :: nat), Producer 0 0, Producer 0 0, Producer 0 0] = Inr s \<and>
     run_all sys_step s (overlapping 0 5 1 6) = Inr s' \<and> sent s' = [4, 5, 6] \<and> bus_list (ring s') = [4, 6]"
proof -
  let ?es = "[Producer 0 (4 :: nat), Producer 0 0, Producer 0 0, Producer 0 0]"
  let ?s = "\<lparr>ring = \<lparr>readPos = 0, bus_data = [0, 4, 0, 0], writePos = 2\<rparr>, producers = [PIdle, PIdle],
      consumer = COut False, sent = [4], pops = 0, got = []\<rparr>"
  have s: "run_all sys_step (sys_new [0, 0, 0, 0] 2) ?es = Inr ?s"
    by (simp add: sys_new_def bus_new_def CAPACITY_def numeral_2_eq_2)
  have "serial_run (sys_new [0, 0, 0, 0] 2) ?es" by code_simp
  from two_producers_lose [OF _ this s, of 0 1 5 6] s
  show ?thesis by (auto simp: bus_len_def bus_room_def CAPACITY_def bus_list_def bus_slot_def)
qed

end
