(* ===== verification/BusOrders.thy ===== *)
theory BusOrders
  imports BusSteps
begin

text \<open>
  The ring \<^verbatim>\<open>bus_mp_sc\<close> of \<^verbatim>\<open>core/circular.hxx\<close> with the memory orders of its accesses: one
  producer thread, one consumer thread, and the release and acquire rules of the C++ memory model in
  place of the interleaving of the theory \<^verbatim>\<open>BusSteps\<close>.

  An atomic position is the list of the stores to it, in modification order. A load may take any of
  them that is not older than one its thread has seen, so a thread may work with outdated positions
  for as long as it likes. Every access of a thread has a number, its clock. A release store carries
  the clocks of the accesses of both threads that happened before it, and an acquire load that takes
  the store learns them. An access to a slot of the array is a data race unless the last conflicting
  access of the other thread happened before it; a race is the fault \<open>DataRace\<close>. (Each position is
  stored by one thread only, which has always seen its newest store, so a store need not carry what
  its thread has seen of the other position.)
\<close>

section \<open>Positions and views\<close>

datatype memory_order = Relaxed | Acquire | Release

text \<open>
  The value of a store, and the last accesses of the producer and of the consumer that an acquire load
  of it learns of; a relaxed store has none.
\<close>

record store =
  val :: nat
  of_producer :: nat
  of_consumer :: nat

record thread_view =
  clock :: nat      \<comment> \<open>its accesses so far\<close>
  knows :: nat      \<comment> \<open>the accesses of the other thread that happened before\<close>
  seen_w :: nat     \<comment> \<open>the newest store to \<^verbatim>\<open>writePos\<close> it has seen\<close>
  seen_r :: nat     \<comment> \<open>the newest store to \<^verbatim>\<open>readPos\<close> it has seen\<close>

definition view_new :: thread_view where
  "view_new = \<lparr>clock = 0, knows = 0, seen_w = 0, seen_r = 0\<rparr>"

definition tick :: "thread_view \<Rightarrow> thread_view" where
  "tick v = v\<lparr>clock := clock v + 1\<rparr>"

text \<open>The store a load takes: any one from \<open>seen\<close> on; \<open>k\<close> is the choice.\<close>

definition pick_store :: "nat \<Rightarrow> nat \<Rightarrow> store list \<Rightarrow> nat" where
  "pick_store k seen h = (if seen \<le> k \<and> k < length h then k else length h - 1)"

definition learn :: "memory_order \<Rightarrow> nat \<Rightarrow> thread_view \<Rightarrow> thread_view" where
  "learn ord c v = (if ord = Acquire then v\<lparr>knows := max (knows v) c\<rparr> else v)"

text \<open>Loads of the two positions; \<open>other\<close> is what a store tells of the other thread.\<close>

definition load_w ::
  "(store \<Rightarrow> nat) \<Rightarrow> memory_order \<Rightarrow> nat \<Rightarrow> store list \<Rightarrow> thread_view \<Rightarrow> nat \<times> thread_view" where
  "load_w other ord k h v =
     (let j = pick_store k (seen_w v) h in (val (h ! j), learn ord (other (h ! j)) ((tick v)\<lparr>seen_w := j\<rparr>)))"

definition load_r ::
  "(store \<Rightarrow> nat) \<Rightarrow> memory_order \<Rightarrow> nat \<Rightarrow> store list \<Rightarrow> thread_view \<Rightarrow> nat \<times> thread_view" where
  "load_r other ord k h v =
     (let j = pick_store k (seen_r v) h in (val (h ! j), learn ord (other (h ! j)) ((tick v)\<lparr>seen_r := j\<rparr>)))"

text \<open>A store after the accesses \<open>p\<close> of the producer and \<open>c\<close> of the consumer.\<close>

definition store_pos :: "memory_order \<Rightarrow> nat \<Rightarrow> nat \<Rightarrow> nat \<Rightarrow> store list \<Rightarrow> store list" where
  "store_pos ord x p c h =
     h @ [if ord = Release then \<lparr>val = x, of_producer = p, of_consumer = c\<rparr>
          else \<lparr>val = x, of_producer = 0, of_consumer = 0\<rparr>]"

section \<open>Accesses\<close>

record 'a ord_sys =
  slots :: "'a list"
  w_stores :: "store list"
  r_stores :: "store list"
  slot_written :: "nat list"    \<comment> \<open>clock of the last write to each slot\<close>
  slot_read :: "nat list"       \<comment> \<open>clock of the last read of each slot\<close>
  prod_view :: thread_view
  push_at :: "'a push_pc"
  cons_view :: thread_view
  pop_at :: pop_pc
  pushed :: "'a list"           \<comment> \<open>messages whose \<^verbatim>\<open>push\<close> returned 0\<close>
  taken :: "(nat \<times> 'a) list"    \<comment> \<open>what \<^verbatim>\<open>front\<close> returned, and the pops before\<close>

definition ord_new :: "'a list \<Rightarrow> 'a ord_sys" where
  "ord_new dat = \<lparr>slots = dat, w_stores = [\<lparr>val = 1, of_producer = 0, of_consumer = 0\<rparr>],
     r_stores = [\<lparr>val = 0, of_producer = 0, of_consumer = 0\<rparr>],
     slot_written = replicate (length dat) 0, slot_read = replicate (length dat) 0,
     prod_view = view_new, push_at = PIdle, cons_view = view_new, pop_at = COut False, pushed = [], taken = []\<rparr>"

fun push_access :: "nat \<Rightarrow> 'a \<Rightarrow> 'a push_pc \<Rightarrow> 'a ord_sys \<Rightarrow> fault + 'a ord_sys" where
  "push_access k x PIdle s =
     (let (wp, v) = load_w of_consumer Relaxed k (w_stores s) (prod_view s) in
      Inr (s\<lparr>prod_view := v, push_at := PLoadedW x wp\<rparr>))"
| "push_access k x (PLoadedW m wp) s =
     (let (rp, v) = load_r of_consumer Acquire k (r_stores s) (prod_view s) in
      Inr (s\<lparr>prod_view := v, push_at := (if wp = rp then PIdle else PLoadedR m wp)\<rparr>))"
| "push_access k x (PLoadedR m wp) s =
     (let v = tick (prod_view s) in
      if length (slots s) \<le> wp then Inl OutOfBounds
      else if knows v < slot_read s ! wp then Inl DataRace
      else Inr (s\<lparr>slots := (slots s)[wp := m], slot_written := (slot_written s)[wp := clock v],
                 prod_view := v, push_at := PWritten m wp\<rparr>))"
| "push_access k x (PWritten m wp) s =
     (let v = tick (prod_view s) in
      Inr (s\<lparr>w_stores := store_pos Release ((wp + 1) mod length (slots s)) (clock v) (knows v) (w_stores s),
             prod_view := v\<lparr>seen_w := length (w_stores s)\<rparr>, push_at := PIdle, pushed := pushed s @ [m]\<rparr>))"

text \<open>
  The number of pops so far: a store to \<^verbatim>\<open>readPos\<close> for each.
\<close>

definition n_popped :: "'a ord_sys \<Rightarrow> nat" where
  "n_popped s = length (r_stores s) - 1"

text \<open>
  The calls of the consumer. The load in \<^verbatim>\<open>pop_front\<close> is written with the order \<^verbatim>\<open>release\<close>, which
  C++ does not allow for a load; \<open>ord\<close> is the order it is given instead, any one.
\<close>

fun pop_access :: "memory_order \<Rightarrow> nat \<Rightarrow> cons_call \<Rightarrow> pop_pc \<Rightarrow> 'a ord_sys \<Rightarrow> fault + 'a ord_sys" where
  "pop_access ord k c (COut ne) s =
     (case c of
        CallEmpty \<Rightarrow>
          let (wp, v) = load_w of_producer Acquire k (w_stores s) (cons_view s) in
          Inr (s\<lparr>cons_view := v, pop_at := CLoadedW wp\<rparr>)
      | CallFront \<Rightarrow>
          let (rp, v) = load_r of_producer Acquire k (r_stores s) (cons_view s) in
          Inr (s\<lparr>cons_view := v, pop_at := CFront ne rp\<rparr>)
      | CallPop \<Rightarrow>
          let (rp, v) = load_r of_producer ord k (r_stores s) (cons_view s) in
          Inr (s\<lparr>cons_view := v, pop_at := CLoadedR rp\<rparr>))"
| "pop_access ord k c (CLoadedW wp) s =
     (let (rp, v) = load_r of_producer Relaxed k (r_stores s) (cons_view s) in
      Inr (s\<lparr>cons_view := v, pop_at := COut ((rp + 1) mod length (slots s) \<noteq> wp)\<rparr>))"
| "pop_access ord k c (CLoadedR rp) s =
     (let v = tick (cons_view s) in
      Inr (s\<lparr>r_stores := store_pos Release ((rp + 1) mod length (slots s)) (knows v) (clock v) (r_stores s),
             cons_view := v\<lparr>seen_r := length (r_stores s)\<rparr>, pop_at := COut False\<rparr>))"
| "pop_access ord k c (CFront ne rp) s =
     (let v = tick (cons_view s) in
      if length (slots s) \<le> rp then Inl OutOfBounds
      else if knows v < slot_written s ! rp then Inl DataRace
      else Inr (s\<lparr>slot_read := (slot_read s)[rp := clock v], cons_view := v, pop_at := COut ne,
                 taken := taken s @ [(n_popped s, slots s ! rp)]\<rparr>))"

text \<open>
  Whose access is next, and which store it takes if it is a load. The consumer pops only after
  \<^verbatim>\<open>empty\<close> returned false, as in the theory \<^verbatim>\<open>BusSteps\<close>.
\<close>

datatype 'a ord_turn = Push nat 'a | Pop nat cons_call

fun ord_step :: "memory_order \<Rightarrow> 'a ord_sys \<Rightarrow> 'a ord_turn \<Rightarrow> fault + 'a ord_sys" where
  "ord_step ord s (Push k x) = push_access k x (push_at s) s"
| "ord_step ord s (Pop k c) = pop_access ord k (tested_call (pop_at s) c) (pop_at s) s"

section \<open>The invariant\<close>

abbreviation "n_pushed s \<equiv> length (pushed s)"
abbreviation "capacity s \<equiv> length (slots s)"

lemma n_popped_simps [simp]:
  "n_popped (s\<lparr>prod_view := v\<rparr>) = n_popped s" "n_popped (s\<lparr>push_at := q\<rparr>) = n_popped s"
  "n_popped (s\<lparr>cons_view := v\<rparr>) = n_popped s" "n_popped (s\<lparr>pop_at := c\<rparr>) = n_popped s"
  "n_popped (s\<lparr>slots := d\<rparr>) = n_popped s" "n_popped (s\<lparr>slot_written := e\<rparr>) = n_popped s"
  "n_popped (s\<lparr>slot_read := e\<rparr>) = n_popped s" "n_popped (s\<lparr>w_stores := h\<rparr>) = n_popped s"
  "n_popped (s\<lparr>pushed := m\<rparr>) = n_popped s" "n_popped (s\<lparr>taken := gs\<rparr>) = n_popped s"
  "n_popped (s\<lparr>r_stores := h\<rparr>) = length h - 1"
  by (simp_all add: n_popped_def)

definition writing :: "'a push_pc \<Rightarrow> bool" where
  "writing pc = (case pc of PWritten m wp \<Rightarrow> True | _ \<Rightarrow> False)"

text \<open>
  The positions go up by one at each store, and a slot holds the message it was written for; \<open>d0\<close>
  is what the first slot held at first.
\<close>

definition stores_ok :: "'a \<Rightarrow> 'a ord_sys \<Rightarrow> bool" where
  "stores_ok d0 s \<longleftrightarrow>
     1 < capacity s \<and> length (slot_written s) = capacity s \<and> length (slot_read s) = capacity s \<and>
     length (w_stores s) = Suc (n_pushed s) \<and> r_stores s \<noteq> [] \<and>
     (\<forall>j\<le>n_pushed s. val (w_stores s ! j) = Suc j mod capacity s) \<and>
     (\<forall>j\<le>n_popped s. val (r_stores s ! j) = j mod capacity s) \<and>
     (\<forall>n\<le>n_pushed s. n_popped s \<le> n \<longrightarrow> slots s ! (n mod capacity s) = (d0 # pushed s) ! n) \<and>
     messages_ok d0 (pushed s) (n_popped s) (taken s)"

definition push_pc_ok :: "'a push_pc \<Rightarrow> nat \<Rightarrow> nat \<Rightarrow> 'a list \<Rightarrow> bool" where
  "push_pc_ok pc n r dat =
     (case pc of
        PIdle \<Rightarrow> True
      | PLoadedW m wp \<Rightarrow> wp = Suc n mod length dat
      | PLoadedR m wp \<Rightarrow> wp = Suc n mod length dat \<and> Suc n < r + length dat
      | PWritten m wp \<Rightarrow> wp = Suc n mod length dat \<and> Suc n < r + length dat \<and> dat ! wp = m)"

definition pop_pc_ok :: "pop_pc \<Rightarrow> nat \<Rightarrow> nat \<Rightarrow> nat \<Rightarrow> bool" where
  "pop_pc_ok pc r w C =
     (case pc of
        COut ne \<Rightarrow> ne \<longrightarrow> r < w
      | CLoadedW wp \<Rightarrow> wp = Suc w mod C
      | CLoadedR rp \<Rightarrow> r < w \<and> rp = r mod C
      | CFront ne rp \<Rightarrow> rp = r mod C \<and> (ne \<longrightarrow> r < w))"

lemma pc_ok_simps [simp]:
  "push_pc_ok PIdle n r dat"
  "push_pc_ok (PLoadedW m wp) n r dat \<longleftrightarrow> wp = Suc n mod length dat"
  "push_pc_ok (PLoadedR m wp) n r dat \<longleftrightarrow> wp = Suc n mod length dat \<and> Suc n < r + length dat"
  "push_pc_ok (PWritten m wp) n r dat \<longleftrightarrow>
     wp = Suc n mod length dat \<and> Suc n < r + length dat \<and> dat ! wp = m"
  "pop_pc_ok (COut ne) r w C \<longleftrightarrow> (ne \<longrightarrow> r < w)" "pop_pc_ok (CLoadedW wp) r w C \<longleftrightarrow> wp = Suc w mod C"
  "pop_pc_ok (CLoadedR rp) r w C \<longleftrightarrow> r < w \<and> rp = r mod C"
  "pop_pc_ok (CFront ne rp) r w C \<longleftrightarrow> rp = r mod C \<and> (ne \<longrightarrow> r < w)"
  "writing PIdle = False" "writing (PLoadedW m wp) = False" "writing (PLoadedR m wp) = False"
  "writing (PWritten m wp) = True"
  by (simp_all add: push_pc_ok_def pop_pc_ok_def writing_def)

definition prod_ok :: "'a ord_sys \<Rightarrow> bool" where
  "prod_ok s \<longleftrightarrow>
     seen_w (prod_view s) = n_pushed s \<and> seen_r (prod_view s) \<le> n_popped s \<and> n_pushed s < seen_r (prod_view s) + capacity s \<and>
     of_consumer (r_stores s ! seen_r (prod_view s)) \<le> knows (prod_view s) \<and>
     push_pc_ok (push_at s) (n_pushed s) (seen_r (prod_view s)) (slots s)"

definition cons_ok :: "'a ord_sys \<Rightarrow> bool" where
  "cons_ok s \<longleftrightarrow>
     seen_r (cons_view s) = n_popped s \<and> n_popped s \<le> seen_w (cons_view s) \<and> seen_w (cons_view s) \<le> n_pushed s \<and>
     of_producer (w_stores s ! seen_w (cons_view s)) \<le> knows (cons_view s) \<and>
     pop_pc_ok (pop_at s) (n_popped s) (seen_w (cons_view s)) (capacity s)"

text \<open>
  What the clock of a store to \<^verbatim>\<open>readPos\<close> says: slots read later than it belong to messages popped
  from then on. The same for \<^verbatim>\<open>writePos\<close> and the slots written.
\<close>

definition reads_ok :: "'a ord_sys \<Rightarrow> bool" where
  "reads_ok s \<longleftrightarrow>
     (\<forall>i<capacity s. slot_read s ! i \<le> clock (cons_view s)) \<and>
     (\<forall>j\<le>n_popped s. \<forall>i<capacity s. of_consumer (r_stores s ! j) < slot_read s ! i \<longrightarrow> (\<exists>n. j \<le> n \<and> n \<le> n_popped s \<and> i = n mod capacity s))"

definition writes_ok :: "'a ord_sys \<Rightarrow> bool" where
  "writes_ok s \<longleftrightarrow>
     (\<forall>i<capacity s. slot_written s ! i \<le> clock (prod_view s)) \<and>
     (\<forall>j\<le>n_pushed s. \<forall>i<capacity s. of_producer (w_stores s ! j) < slot_written s ! i \<longrightarrow>
        (\<exists>n. j \<le> n \<and> (n < n_pushed s \<or> n = n_pushed s \<and> writing (push_at s)) \<and> i = Suc n mod capacity s))"

definition ord_inv :: "'a \<Rightarrow> 'a ord_sys \<Rightarrow> bool" where
  "ord_inv d0 s \<longleftrightarrow> stores_ok d0 s \<and> prod_ok s \<and> cons_ok s \<and> reads_ok s \<and> writes_ok s"

lemma reads_okD:
  assumes "reads_ok s" and "j \<le> n_popped s" and "i < capacity s"
    and "of_consumer (r_stores s ! j) < slot_read s ! i"
  obtains n where "j \<le> n" "n \<le> n_popped s" "i = n mod capacity s"
  using assms unfolding reads_ok_def by blast

lemma writes_okD:
  assumes "writes_ok s" and "j \<le> n_pushed s" and "i < capacity s"
    and "of_producer (w_stores s ! j) < slot_written s ! i"
  obtains n where "j \<le> n" "n < n_pushed s \<or> n = n_pushed s \<and> writing (push_at s)" "i = Suc n mod capacity s"
  using assms unfolding writes_ok_def by blast

lemma mod_differ: "a < b \<Longrightarrow> b < a + n \<Longrightarrow> a mod n \<noteq> (b mod n :: nat)"
proof
  assume "a < b" "b < a + n" "a mod n = b mod n"
  then have "n dvd b - a" by (metis mod_eq_dvd_iff_nat less_imp_le)
  with \<open>a < b\<close> \<open>b < a + n\<close> show False by (auto dest!: dvd_imp_le)
qed

lemma pick_store_bounds: "seen < length h \<Longrightarrow> seen \<le> pick_store k seen h \<and> pick_store k seen h < length h"
  by (auto simp: pick_store_def)

lemma pick_store_own: "Suc seen = length h \<Longrightarrow> pick_store k seen h = seen"
  by (auto simp: pick_store_def)

lemma ord_new_inv: "1 < length dat \<Longrightarrow> ord_inv (hd dat) (ord_new dat)"
proof -
  assume "1 < length dat"
  moreover from this have "hd dat = dat ! 0" by (intro hd_conv_nth) auto
  ultimately show ?thesis
    by (auto simp: messages_ok_def ord_inv_def ord_new_def stores_ok_def prod_ok_def cons_ok_def reads_ok_def
        writes_ok_def view_new_def n_popped_def)
qed

section \<open>The producer\<close>

text \<open>Loads: the own position is known exactly, the other position may be old.\<close>

lemma load_own_w:
  assumes "Suc (seen_w v) = length h"
  shows "load_w other ord k h v = (val (h ! seen_w v), learn ord (other (h ! seen_w v)) (tick v))"
  using assms by (simp add: load_w_def Let_def pick_store_own tick_def)

lemma load_own_r:
  assumes "Suc (seen_r v) = length h"
  shows "load_r other ord k h v = (val (h ! seen_r v), learn ord (other (h ! seen_r v)) (tick v))"
  using assms by (simp add: load_r_def Let_def pick_store_own tick_def)

lemma view_simps [simp]:
  "clock (tick v) = Suc (clock v)" "knows (tick v) = knows v" "seen_w (tick v) = seen_w v" "seen_r (tick v) = seen_r v"
  "clock (learn ord m v) = clock v" "seen_w (learn ord m v) = seen_w v" "seen_r (learn ord m v) = seen_r v"
  "knows v \<le> knows (learn ord m v)" "m \<le> knows (learn Acquire m v)"
  by (simp_all add: tick_def learn_def)

lemma push_idle_inv:
  assumes inv: "ord_inv d0 s" and pc: "push_at s = PIdle"
  shows "\<exists>s'. push_access k x PIdle s = Inr s' \<and> ord_inv d0 s'"
proof -
  have l: "Suc (seen_w (prod_view s)) = length (w_stores s)" and
    v: "val (w_stores s ! seen_w (prod_view s)) = Suc (n_pushed s) mod capacity s"
    using inv by (simp_all add: ord_inv_def stores_ok_def prod_ok_def)
  let ?s = "s\<lparr>prod_view := tick (prod_view s), push_at := PLoadedW x (Suc (n_pushed s) mod capacity s)\<rparr>"
  have "push_access k x PIdle s = Inr ?s"
    using load_own_w [OF l] v by (simp add: learn_def)
  moreover have "ord_inv d0 ?s" using inv pc
    by (auto simp: ord_inv_def stores_ok_def prod_ok_def cons_ok_def reads_ok_def writes_ok_def intro: le_SucI)
  ultimately show ?thesis by blast
qed

lemma push_loaded_w_inv:
  assumes inv: "ord_inv d0 s" and pc: "push_at s = PLoadedW m wp"
  shows "\<exists>s'. push_access k x (PLoadedW m wp) s = Inr s' \<and> ord_inv d0 s'"
proof -
  let ?v = "prod_view s" and ?h = "r_stores s"
  define j where "j = pick_store k (seen_r ?v) ?h"
  have r: "seen_r ?v \<le> n_popped s" "n_pushed s < seen_r ?v + capacity s" and h: "length ?h = Suc (n_popped s)"
    and wp: "wp = Suc (n_pushed s) mod capacity s"
    using inv pc by (auto simp: ord_inv_def stores_ok_def prod_ok_def n_popped_def)
  have j: "seen_r ?v \<le> j" "j \<le> n_popped s"
    using pick_store_bounds [of "seen_r ?v" ?h k] r h by (simp_all add: j_def)
  have val: "val (?h ! j) = j mod capacity s" using inv j by (simp add: ord_inv_def stores_ok_def)
  let ?v1 = "learn Acquire (of_consumer (?h ! j)) ((tick ?v)\<lparr>seen_r := j\<rparr>)"
  let ?pc = "if wp = j mod capacity s then PIdle else PLoadedR m wp"
  let ?s = "s\<lparr>prod_view := ?v1, push_at := ?pc\<rparr>"
  have "push_access k x (PLoadedW m wp) s = Inr ?s"
    using val by (simp add: load_r_def Let_def j_def [symmetric])
  moreover have "Suc (n_pushed s) < j + capacity s" if "wp \<noteq> j mod capacity s"
  proof -
    have "Suc (n_pushed s) \<noteq> j + capacity s" using that wp by auto
    then show ?thesis using r(2) j(1) by linarith
  qed
  then have "push_pc_ok ?pc (n_pushed s) j (slots s)" using wp by simp
  then have "ord_inv d0 ?s" using inv pc j r
    by (auto simp: ord_inv_def stores_ok_def prod_ok_def cons_ok_def reads_ok_def writes_ok_def intro: le_SucI)
  ultimately show ?thesis by blast
qed

lemma push_loaded_r_inv:
  assumes inv: "ord_inv d0 s" and pc: "push_at s = PLoadedR m wp"
  shows "\<exists>s'. push_access k x (PLoadedR m wp) s = Inr s' \<and> ord_inv d0 s'"
proof -
  let ?v = "prod_view s" and ?C = "capacity s"
  have C: "1 < ?C" "length (slot_written s) = ?C" and r: "seen_r ?v \<le> n_popped s" "Suc (n_pushed s) < seen_r ?v + ?C"
    and wp: "wp = Suc (n_pushed s) mod ?C" and p: "n_popped s \<le> n_pushed s"
    and know: "of_consumer (r_stores s ! seen_r ?v) \<le> knows ?v"
    using inv pc by (auto simp: ord_inv_def stores_ok_def prod_ok_def cons_ok_def)
  have wpC: "wp < ?C" unfolding wp by (rule mod_less_divisor) (use C(1) in linarith)
  have "\<not> of_consumer (r_stores s ! seen_r ?v) < slot_read s ! wp"
  proof
    assume "of_consumer (r_stores s ! seen_r ?v) < slot_read s ! wp"
    then obtain n where n: "seen_r ?v \<le> n" "n \<le> n_popped s" "wp = n mod ?C"
      using reads_okD [OF _ r(1) wpC] inv unfolding ord_inv_def by blast
    then show False using mod_differ [of n "Suc (n_pushed s)" ?C] r(2) p wp by simp
  qed
  with know have free: "\<not> knows (tick ?v) < slot_read s ! wp" by simp
  let ?s = "s\<lparr>slots := (slots s)[wp := m], slot_written := (slot_written s)[wp := Suc (clock ?v)],
      prod_view := tick ?v, push_at := PWritten m wp\<rparr>"
  have step: "push_access k x (PLoadedR m wp) s = Inr ?s" using free wpC by (simp add: Let_def)
  have other: "wp \<noteq> n mod ?C" if "n \<le> n_pushed s" "n_popped s \<le> n" for n
    using mod_differ [of n "Suc (n_pushed s)" ?C] that r wp by auto
  have "stores_ok d0 ?s" using inv other by (simp add: ord_inv_def stores_ok_def)
  moreover have "prod_ok ?s" using inv pc wpC by (simp add: ord_inv_def prod_ok_def)
  moreover have "cons_ok ?s" using inv by (simp add: ord_inv_def cons_ok_def)
  moreover have "reads_ok ?s" using inv by (simp add: ord_inv_def reads_ok_def)
  moreover have "writes_ok ?s"
    unfolding writes_ok_def
  proof (intro conjI allI impI)
    have wr: "writes_ok s" using inv by (simp add: ord_inv_def)
    fix i assume i: "i < capacity ?s"
    with wr C(2) show "slot_written ?s ! i \<le> clock (prod_view ?s)"
      by (cases "i = wp") (auto simp: writes_ok_def intro: le_SucI)
    fix j assume j: "j \<le> n_pushed ?s" and late: "of_producer (w_stores ?s ! j) < slot_written ?s ! i"
    show "\<exists>n\<ge>j. (n < n_pushed ?s \<or> n = n_pushed ?s \<and> writing (push_at ?s)) \<and> i = Suc n mod capacity ?s"
    proof (cases "i = wp")
      case True
      with j wp show ?thesis by (intro exI [of _ "n_pushed s"]) simp
    next
      case False
      with late have "of_producer (w_stores s ! j) < slot_written s ! i" by simp
      with i j obtain n where "j \<le> n" "n < n_pushed s" "i = Suc n mod ?C"
        using writes_okD [OF wr, of j i] pc by auto
      then show ?thesis by (intro exI [of _ n]) auto
    qed
  qed
  ultimately show ?thesis using step by (simp add: ord_inv_def)
qed

lemma push_written_inv:
  assumes inv: "ord_inv d0 s" and pc: "push_at s = PWritten m wp"
  shows "\<exists>s'. push_access k x (PWritten m wp) s = Inr s' \<and> ord_inv d0 s'"
proof -
  let ?v = "prod_view s" and ?C = "capacity s" and ?n = "n_pushed s"
  have l: "length (w_stores s) = Suc ?n" and r: "n_popped s \<le> ?n" and wp: "wp = Suc ?n mod ?C" "slots s ! wp = m"
    and room: "Suc ?n < seen_r ?v + ?C" and cw: "seen_w (cons_view s) \<le> ?n"
    and mo: "messages_ok d0 (pushed s) (n_popped s) (taken s)"
    using inv pc by (auto simp: ord_inv_def stores_ok_def prod_ok_def cons_ok_def)
  let ?m = "\<lparr>val = Suc (Suc ?n) mod ?C, of_producer = Suc (clock ?v), of_consumer = knows ?v\<rparr>"
  let ?s = "s\<lparr>w_stores := w_stores s @ [?m], prod_view := (tick ?v)\<lparr>seen_w := Suc ?n\<rparr>, push_at := PIdle,
      pushed := pushed s @ [m]\<rparr>"
  have step: "push_access k x (PWritten m wp) s = Inr ?s"
    using wp l by (simp add: Let_def store_pos_def mod_Suc_eq)
  have st: "(w_stores s @ [?m]) ! j = w_stores s ! j" if "j \<le> ?n" for j using l that by (simp add: nth_append)
  have new: "(w_stores s @ [?m]) ! Suc ?n = ?m" using l by (simp add: nth_append)
  have old: "(d0 # pushed s @ [m]) ! n = (d0 # pushed s) ! n" if "n \<le> ?n" for n
    using that by (cases n) (simp_all add: nth_append)
  have "stores_ok d0 ?s" using inv pc l r st new wp old messages_ok_send [OF mo]
    by (auto simp: ord_inv_def stores_ok_def le_Suc_eq less_Suc_eq)
  moreover have "prod_ok ?s" using inv room by (simp add: ord_inv_def prod_ok_def)
  moreover have "cons_ok ?s" using inv st [OF cw] by (simp add: ord_inv_def cons_ok_def)
  moreover have "reads_ok ?s" using inv by (simp add: ord_inv_def reads_ok_def)
  moreover have "writes_ok ?s"
    unfolding writes_ok_def
  proof (intro conjI allI impI)
    have wr: "writes_ok s" using inv by (simp add: ord_inv_def)
    fix i assume i: "i < capacity ?s"
    with inv have c: "slot_written s ! i \<le> clock ?v" by (simp add: ord_inv_def writes_ok_def)
    then show "slot_written ?s ! i \<le> clock (prod_view ?s)" by simp
    fix j assume j: "j \<le> n_pushed ?s" and late: "of_producer (w_stores ?s ! j) < slot_written ?s ! i"
    have "j \<noteq> Suc ?n" using late c new by auto
    with j have "j \<le> ?n" by simp
    moreover from this have "of_producer (w_stores s ! j) < slot_written s ! i" using late st by simp
    ultimately obtain n where "j \<le> n" "n < ?n \<or> n = ?n \<and> writing (push_at s)" "i = Suc n mod ?C"
      using i writes_okD [OF wr, of j i] by auto
    then show "\<exists>n\<ge>j. (n < n_pushed ?s \<or> n = n_pushed ?s \<and> writing (push_at ?s)) \<and> i = Suc n mod capacity ?s"
      by (intro exI [of _ n]) auto
  qed
  ultimately show ?thesis using step by (simp add: ord_inv_def)
qed

lemma push_access_inv:
  assumes "ord_inv d0 s"
  shows "\<exists>s'. push_access k x (push_at s) s = Inr s' \<and> ord_inv d0 s'"
  using push_idle_inv [OF assms] push_loaded_w_inv [OF assms] push_loaded_r_inv [OF assms]
    push_written_inv [OF assms] by (cases "push_at s") simp_all

section \<open>The consumer\<close>

lemma pop_empty_inv:
  assumes inv: "ord_inv d0 s" and pc: "pop_at s = COut ne"
  shows "\<exists>s'. pop_access ord k CallEmpty (COut ne) s = Inr s' \<and> ord_inv d0 s'"
proof -
  let ?v = "cons_view s" and ?h = "w_stores s"
  define j where "j = pick_store k (seen_w ?v) ?h"
  have w: "n_popped s \<le> seen_w ?v" "seen_w ?v \<le> n_pushed s" and h: "length ?h = Suc (n_pushed s)"
    using inv by (auto simp: ord_inv_def stores_ok_def cons_ok_def)
  have j: "seen_w ?v \<le> j" "j \<le> n_pushed s"
    using pick_store_bounds [of "seen_w ?v" ?h k] w h by (simp_all add: j_def)
  have val: "val (?h ! j) = Suc j mod capacity s" using inv j by (simp add: ord_inv_def stores_ok_def)
  let ?v1 = "learn Acquire (of_producer (?h ! j)) ((tick ?v)\<lparr>seen_w := j\<rparr>)"
  let ?s = "s\<lparr>cons_view := ?v1, pop_at := CLoadedW (Suc j mod capacity s)\<rparr>"
  have "pop_access ord k CallEmpty (COut ne) s = Inr ?s" using val by (simp add: load_w_def Let_def j_def [symmetric])
  moreover have "ord_inv d0 ?s" using inv pc j w
    by (auto simp: ord_inv_def stores_ok_def prod_ok_def cons_ok_def reads_ok_def writes_ok_def intro: le_SucI)
  ultimately show ?thesis by blast
qed

text \<open>A load of its own position by the consumer, with any order.\<close>

lemma pop_own_inv:
  assumes inv: "ord_inv d0 s"
    and pc: "pop_pc_ok c (n_popped s) (seen_w (cons_view s)) (capacity s)"
  shows "ord_inv d0 (s\<lparr>cons_view := learn ord a (tick (cons_view s)), pop_at := c\<rparr>)"
proof -
  have "of_producer (w_stores s ! seen_w (cons_view s)) \<le> knows (cons_view s)"
    using inv by (simp add: ord_inv_def cons_ok_def)
  also have "\<dots> \<le> knows (learn ord a (tick (cons_view s)))" using view_simps(8) [of "tick (cons_view s)" ord a] by simp
  finally show ?thesis using inv pc
    by (auto simp: ord_inv_def stores_ok_def prod_ok_def cons_ok_def reads_ok_def writes_ok_def intro: le_SucI)
qed

lemma own_position:
  assumes "ord_inv d0 s"
  shows "load_r other ord k (r_stores s) (cons_view s) =
    (n_popped s mod capacity s, learn ord (other (r_stores s ! n_popped s)) (tick (cons_view s)))"
proof -
  have l: "Suc (seen_r (cons_view s)) = length (r_stores s)" and r: "seen_r (cons_view s) = n_popped s"
    and v: "val (r_stores s ! n_popped s) = n_popped s mod capacity s"
    using assms by (auto simp: ord_inv_def stores_ok_def cons_ok_def n_popped_def)
  show ?thesis using load_own_r [OF l] v r by simp
qed

lemma pop_out_inv:
  assumes inv: "ord_inv d0 s" and pc: "pop_at s = COut ne" and c: "c = CallPop \<Longrightarrow> ne"
  shows "\<exists>s'. pop_access ord k c (COut ne) s = Inr s' \<and> ord_inv d0 s'"
proof (cases c)
  case CallEmpty
  with pop_empty_inv [OF inv pc] show ?thesis by simp
next
  case CallFront
  then show ?thesis using pop_own_inv [OF inv, of "CFront ne (n_popped s mod capacity s)"] inv pc
    by (simp add: own_position [OF inv]) (simp add: ord_inv_def cons_ok_def)
next
  case CallPop
  with inv pc c have "n_popped s < seen_w (cons_view s)" by (simp add: ord_inv_def cons_ok_def)
  with CallPop show ?thesis using pop_own_inv [OF inv, of "CLoadedR (n_popped s mod capacity s)"]
    by (simp add: own_position [OF inv])
qed

lemma pop_loaded_w_inv:
  assumes inv: "ord_inv d0 s" and pc: "pop_at s = CLoadedW wp"
  shows "\<exists>s'. pop_access ord k c (CLoadedW wp) s = Inr s' \<and> ord_inv d0 s'"
proof -
  let ?C = "capacity s" and ?r = "n_popped s"
  have ok: "wp = Suc (seen_w (cons_view s)) mod ?C" "?r \<le> seen_w (cons_view s)"
    using inv pc by (auto simp: ord_inv_def cons_ok_def)
  have "?r < seen_w (cons_view s)" if "(?r mod ?C + 1) mod ?C \<noteq> wp"
  proof -
    have "?r \<noteq> seen_w (cons_view s)" using that ok(1) by (auto simp: mod_Suc_eq)
    with ok(2) show ?thesis by simp
  qed
  then have "pop_pc_ok (COut ((?r mod ?C + 1) mod ?C \<noteq> wp)) ?r (seen_w (cons_view s)) ?C" by simp
  from pop_own_inv [OF inv this] show ?thesis by (simp add: own_position [OF inv])
qed

lemma pop_loaded_r_inv:
  assumes inv: "ord_inv d0 s" and pc: "pop_at s = CLoadedR rp"
  shows "\<exists>s'. pop_access ord k c (CLoadedR rp) s = Inr s' \<and> ord_inv d0 s'"
proof -
  let ?v = "cons_view s" and ?C = "capacity s" and ?r = "n_popped s"
  have l: "length (r_stores s) = Suc ?r" and w: "?r < seen_w ?v" and rp: "rp = ?r mod ?C"
    and pr: "seen_r (prod_view s) \<le> ?r" and wn: "seen_w ?v \<le> n_pushed s" and mo: "messages_ok d0 (pushed s) ?r (taken s)"
    using inv pc by (auto simp: ord_inv_def stores_ok_def prod_ok_def cons_ok_def n_popped_def)
  let ?m = "\<lparr>val = Suc ?r mod ?C, of_producer = knows ?v, of_consumer = Suc (clock ?v)\<rparr>"
  let ?s = "s\<lparr>r_stores := r_stores s @ [?m], cons_view := (tick ?v)\<lparr>seen_r := Suc ?r\<rparr>, pop_at := COut False\<rparr>"
  have step: "pop_access ord k c (CLoadedR rp) s = Inr ?s"
    using rp l by (simp add: Let_def store_pos_def mod_Suc_eq)
  have n: "n_popped ?s = Suc ?r" using l by simp
  have st: "(r_stores s @ [?m]) ! j = r_stores s ! j" if "j \<le> ?r" for j using l that by (simp add: nth_append)
  have new: "(r_stores s @ [?m]) ! Suc ?r = ?m" using l by (simp add: nth_append)
  have "stores_ok d0 ?s" using inv pc l st new w wn messages_ok_pop [OF mo]
    by (auto simp: ord_inv_def stores_ok_def le_Suc_eq)
  moreover have "prod_ok ?s" using inv st [OF pr] l by (simp add: ord_inv_def prod_ok_def)
  moreover have "cons_ok ?s" using inv w l by (simp add: ord_inv_def cons_ok_def)
  moreover have "writes_ok ?s" using inv by (simp add: ord_inv_def writes_ok_def)
  moreover have "reads_ok ?s"
    unfolding reads_ok_def
  proof (intro conjI allI impI)
    have rd: "reads_ok s" using inv by (simp add: ord_inv_def)
    fix i assume i: "i < capacity ?s"
    with inv have c: "slot_read s ! i \<le> clock ?v" by (simp add: ord_inv_def reads_ok_def)
    then show "slot_read ?s ! i \<le> clock (cons_view ?s)" by simp
    fix j assume j: "j \<le> n_popped ?s" and late: "of_consumer (r_stores ?s ! j) < slot_read ?s ! i"
    have "j \<noteq> Suc ?r" using late c new by auto
    with j n have "j \<le> ?r" by simp
    moreover from this have "of_consumer (r_stores s ! j) < slot_read s ! i" using late st by simp
    ultimately obtain n' where "j \<le> n'" "n' \<le> ?r" "i = n' mod ?C"
      using i reads_okD [OF rd, of j i] by auto
    then show "\<exists>n'\<ge>j. n' \<le> n_popped ?s \<and> i = n' mod capacity ?s"
      using n by (intro exI [of _ n']) auto
  qed
  ultimately show ?thesis using step by (simp add: ord_inv_def)
qed

lemma pop_front_inv:
  assumes inv: "ord_inv d0 s" and pc: "pop_at s = CFront ne rp"
  shows "\<exists>s'. pop_access ord k c (CFront ne rp) s = Inr s' \<and> ord_inv d0 s'"
proof -
  let ?v = "cons_view s" and ?C = "capacity s" and ?r = "n_popped s"
  have C: "1 < ?C" "length (slot_read s) = ?C" and r: "rp = ?r mod ?C" "?r \<le> seen_w ?v" "seen_w ?v \<le> n_pushed s"
    and know: "of_producer (w_stores s ! seen_w ?v) \<le> knows ?v"
    and room: "n_pushed s < seen_r (prod_view s) + ?C" "seen_r (prod_view s) \<le> ?r"
    and mo: "messages_ok d0 (pushed s) ?r (taken s)"
    and slot: "\<forall>n\<le>n_pushed s. ?r \<le> n \<longrightarrow> slots s ! (n mod ?C) = (d0 # pushed s) ! n"
    using inv pc by (auto simp: ord_inv_def stores_ok_def prod_ok_def cons_ok_def)
  have rpC: "rp < ?C" unfolding r(1) by (rule mod_less_divisor) (use C(1) in linarith)
  have "\<not> of_producer (w_stores s ! seen_w ?v) < slot_written s ! rp"
  proof
    assume "of_producer (w_stores s ! seen_w ?v) < slot_written s ! rp"
    then obtain n where n: "seen_w ?v \<le> n" "n < n_pushed s \<or> n = n_pushed s \<and> writing (push_at s)" "rp = Suc n mod ?C"
      using writes_okD [OF _ r(3) rpC] inv unfolding ord_inv_def by blast
    have "Suc n < ?r + ?C"
    proof (cases "n = n_pushed s")
      case True
      with n(2) have "writing (push_at s)" by auto
      then have "Suc (n_pushed s) < seen_r (prod_view s) + ?C"
        using inv by (cases "push_at s") (auto simp: ord_inv_def prod_ok_def)
      with True room show ?thesis by linarith
    qed (use n(2) room in linarith)
    with mod_differ [of ?r "Suc n" ?C] n r show False by simp
  qed
  with know have free: "\<not> knows (tick ?v) < slot_written s ! rp" by simp
  have msg: "slots s ! rp = (d0 # pushed s) ! ?r" using slot r by simp
  let ?s = "s\<lparr>slot_read := (slot_read s)[rp := Suc (clock ?v)], cons_view := tick ?v, pop_at := COut ne,
      taken := taken s @ [(?r, slots s ! rp)]\<rparr>"
  have step: "pop_access ord k c (CFront ne rp) s = Inr ?s" using free rpC by (simp add: Let_def)
  have "stores_ok d0 ?s" using inv messages_ok_read [OF mo] msg by (simp add: ord_inv_def stores_ok_def)
  moreover have "prod_ok ?s" using inv by (simp add: ord_inv_def prod_ok_def)
  moreover have "cons_ok ?s" using inv pc by (simp add: ord_inv_def cons_ok_def)
  moreover have "writes_ok ?s" using inv by (simp add: ord_inv_def writes_ok_def)
  moreover have "reads_ok ?s"
    unfolding reads_ok_def
  proof (intro conjI allI impI)
    have rd: "reads_ok s" using inv by (simp add: ord_inv_def)
    fix i assume i: "i < capacity ?s"
    with rd C(2) show "slot_read ?s ! i \<le> clock (cons_view ?s)"
      by (cases "i = rp") (auto simp: reads_ok_def intro: le_SucI)
    fix j assume j: "j \<le> n_popped ?s" and late: "of_consumer (r_stores ?s ! j) < slot_read ?s ! i"
    show "\<exists>n\<ge>j. n \<le> n_popped ?s \<and> i = n mod capacity ?s"
    proof (cases "i = rp")
      case True
      with j r(1) show ?thesis by (intro exI [of _ ?r]) simp
    next
      case False
      with late i j obtain n where "j \<le> n" "n \<le> ?r" "i = n mod ?C"
        using reads_okD [OF rd, of j i] by auto
      then show ?thesis by (intro exI [of _ n]) auto
    qed
  qed
  ultimately show ?thesis using step by (simp add: ord_inv_def)
qed

lemma ord_step_inv: "ord_inv d0 s \<Longrightarrow> \<exists>s'. ord_step ord s e = Inr s' \<and> ord_inv d0 s'"
proof (cases e)
  case (Pop k c)
  assume inv: "ord_inv d0 s"
  have "\<exists>s'. pop_access ord k (tested_call (pop_at s) c) (pop_at s) s = Inr s' \<and> ord_inv d0 s'"
  proof (cases "pop_at s")
    case (COut ne)
    have "tested_call (COut ne) c = CallPop \<Longrightarrow> ne" by (cases ne; cases c) simp_all
    from pop_out_inv [OF inv COut this] COut show ?thesis by simp
  qed (use pop_loaded_w_inv [OF inv] pop_loaded_r_inv [OF inv] pop_front_inv [OF inv] in simp_all)
  with Pop show ?thesis by simp
qed (simp add: push_access_inv)

interpretation ord_run: kept_invariant "ord_step ord" "ord_inv d0" for ord d0
  by unfold_locales (metis ord_step_inv sum.inject(2))

lemma ord_run_total: "ord_inv d0 s \<Longrightarrow> \<exists>s'. run_all (ord_step ord) s es = Inr s'"
proof (induction es arbitrary: s)
  case (Cons e es)
  then show ?case using ord_step_inv [of d0 s ord e] by auto
qed simp

text \<open>No access changes the capacity.\<close>

lemma ord_step_slots: "ord_step ord s e = Inr s' \<Longrightarrow> capacity s' = capacity s"
proof (cases e)
  case (Push k x)
  assume "ord_step ord s e = Inr s'"
  with Push show ?thesis by (cases "push_at s") (auto simp: Let_def split_beta split: if_splits)
next
  case (Pop k c)
  assume "ord_step ord s e = Inr s'"
  with Pop show ?thesis
    by (cases "pop_at s"; cases "tested_call (pop_at s) c") (auto simp: Let_def split_beta split: if_splits)
qed

interpretation ord_capacity: kept_invariant "ord_step ord" "\<lambda>s. capacity s = n" for ord n
  by unfold_locales (simp add: ord_step_slots)

section \<open>The newest stores: interleaving\<close>

text \<open>What the interleaving of \<^verbatim>\<open>BusSteps\<close> sees of a state: the newest store to each position.\<close>

definition interleaved :: "'a ord_sys \<Rightarrow> 'a bus_sys" where
  "interleaved s = \<lparr>ring = \<lparr>readPos = val (last (r_stores s)), bus_data = slots s, writePos = val (last (w_stores s))\<rparr>,
     producers = [push_at s], consumer = pop_at s, sent = pushed s, pops = n_popped s, got = taken s\<rparr>"

text \<open>The turn whose load, if any, takes the newest store.\<close>

fun newest :: "'a ord_sys \<Rightarrow> 'a turn_of \<Rightarrow> 'a ord_turn" where
  "newest s (Producer i x) = Push (length (w_stores s) + length (r_stores s)) x"
| "newest s (Consumer c) = Pop (length (w_stores s) + length (r_stores s)) c"

lemma pick_newest: "pick_store (length h + n) seen h = length h - 1" "pick_store (n + length h) seen h = length h - 1"
  by (simp_all add: pick_store_def)

lemma newest_loads:
  assumes "h \<noteq> []"
  shows "fst (load_w other ord (length h + n) h v) = val (last h)" "fst (load_r other ord (n + length h) h v) = val (last h)"
  using assms by (simp_all add: load_w_def load_r_def Let_def pick_newest last_conv_nth)

lemma newest_step:
  assumes inv: "ord_inv d0 s" and e: "e = Consumer c \<or> (\<exists>x. e = Producer 0 x)"
    and step: "ord_step ord s (newest s e) = Inr s1"
  shows "sys_step (interleaved s) e = Inr (interleaved s1)"
proof -
  have ne: "w_stores s \<noteq> []" "r_stores s \<noteq> []" using inv by (auto simp: ord_inv_def stores_ok_def)
  note L = newest_loads [OF ne(1)] newest_loads [OF ne(2)]
  have own: "val (last (r_stores s)) = n_popped s mod capacity s" "val (last (w_stores s)) = Suc (n_pushed s) mod capacity s"
    and len: "length (r_stores s) = Suc (n_popped s)"
    using inv ne by (auto simp: ord_inv_def stores_ok_def last_conv_nth n_popped_def)
  from e show ?thesis
  proof
    assume e: "e = Consumer c"
    show ?thesis
    proof (cases "pop_at s")
      case (COut b)
      show ?thesis using e step L own COut
        by (cases "tested_call (COut b) c") (auto simp: interleaved_def Let_def split_beta)
    next
      case (CFront b rp)
      then show ?thesis using e step
        by (auto simp: interleaved_def Let_def bus_read_def CAPACITY_def split: if_splits)
    qed (use e step L own len in \<open>auto simp: interleaved_def Let_def CAPACITY_def store_pos_def split_beta\<close>)
  next
    assume "\<exists>x. e = Producer 0 x"
    then obtain x where e: "e = Producer 0 x" ..
    show ?thesis
      by (cases "push_at s")
        (use e step L own in \<open>auto simp: interleaved_def Let_def CAPACITY_def store_pos_def split_beta split: if_splits\<close>)
  qed
qed

section \<open>Properties\<close>

text \<open>
  Property (C18). One producer and one consumer under the memory orders of the code, with any order in
  the place of the one of \<^verbatim>\<open>pop_front\<close>'s load, which is \<^verbatim>\<open>release\<close> and so undefined as it stands
  (only the consumer stores \<^verbatim>\<open>readPos\<close>, so the order of its own load does not matter). The consumer
  calls \<^verbatim>\<open>empty\<close>, \<^verbatim>\<open>front\<close> and \<^verbatim>\<open>pop_front\<close> in any order and pops only after \<^verbatim>\<open>empty\<close>
  returned false. Whatever outdated positions the loads return and however the accesses interleave, no
  two accesses to a slot race, no access is out of bounds, at most as many messages as there are slots
  wait, and a \<^verbatim>\<open>front\<close> after \<open>k\<close> pops returns the \<open>k\<close>th message pushed, unchanged; before the first
  pop, what the array held at first.
\<close>

theorem ring_orders_suffice:
  assumes "1 < length dat"
  shows "\<exists>s. run_all (ord_step ord) (ord_new dat) es = Inr s \<and>
    n_popped s \<le> length (pushed s) \<and> length (pushed s) < n_popped s + length dat \<and>
    sorted (map fst (taken s)) \<and> (\<forall>(k, m) \<in> set (taken s). k \<le> n_popped s \<and> m = (hd dat # pushed s) ! k)"
proof -
  note inv0 = ord_new_inv [OF assms]
  obtain s where s: "run_all (ord_step ord) (ord_new dat) es = Inr s" using ord_run_total [OF inv0] by blast
  have inv: "ord_inv (hd dat) s" by (rule ord_run.run_inv [OF inv0 s])
  have "capacity s = length dat"
    using ord_capacity.run_inv [OF _ s, of "length dat"] by (simp add: ord_new_def)
  with s inv show ?thesis
    by (intro exI [of _ s]) (auto simp: ord_inv_def stores_ok_def prod_ok_def cons_ok_def messages_ok_def)
qed

text \<open>
  In a ring of two slots, which holds one message: the first \<^verbatim>\<open>push\<close>, the message is popped and
  read, a second \<^verbatim>\<open>push\<close> that takes the outdated \<^verbatim>\<open>readPos\<close> and gives up, a third that takes the
  new one, and a \<^verbatim>\<open>front\<close> before the next pop, which reads the first message again.
\<close>

definition demo_outdated :: "nat ord_turn list" where
  "demo_outdated = [Push 0 5, Push 0 0, Push 0 0, Push 0 0, Pop 1 CallEmpty, Pop 0 CallEmpty, Pop 0 CallPop, Pop 0 CallPop,
     Pop 1 CallFront, Pop 0 CallFront, Push 1 6, Push 0 0, Push 1 7, Push 1 0, Push 0 0, Push 0 0,
     Pop 2 CallEmpty, Pop 0 CallEmpty, Pop 0 CallFront, Pop 0 CallFront]"

theorem ring_orders_suffice_witness:
  "\<exists>s. run_all (ord_step Relaxed) (ord_new [0, 0]) demo_outdated = Inr s \<and>
     taken s = [(1, 5 :: nat), (1, 5)] \<and> pushed s = [5, 7]"
proof -
  obtain s where s: "run_all (ord_step Relaxed) (ord_new [0, 0]) demo_outdated = Inr s"
    "\<forall>(k, m) \<in> set (taken s). m = (hd [0, 0] # pushed s) ! k"
    using ring_orders_suffice [of "[0, 0 :: nat]" Relaxed demo_outdated] by auto
  have "bindR (run_all (ord_step Relaxed) (ord_new [0, 0]) demo_outdated) (\<lambda>s. Inr (map fst (taken s), pushed s)) =
    Inr ([1, 1], [5, 7])" by code_simp
  with s show ?thesis by auto
qed

text \<open>
  The interleaving of whole accesses (\<^verbatim>\<open>BusSteps\<close>) is the special case in which
  every load takes the newest store: with one producer, each of its turns is a turn of the weaker
  model from any state that model reaches, with the same effect on ring, threads and messages.
\<close>

theorem interleaving_is_newest:
  assumes "1 < length dat" and "run_all (ord_step ord) (ord_new dat) es = Inr s"
    and "e = Consumer c \<or> (\<exists>x. e = Producer 0 x)"
  shows "\<exists>s1. ord_step ord s (newest s e) = Inr s1 \<and> sys_step (interleaved s) e = Inr (interleaved s1) \<and>
    interleaved (ord_new dat) = sys_new dat 1"
proof -
  have inv: "ord_inv (hd dat) s" by (rule ord_run.run_inv [OF ord_new_inv [OF assms(1)] assms(2)])
  obtain s1 where "ord_step ord s (newest s e) = Inr s1" using ord_step_inv [OF inv] by blast
  with newest_step [OF inv assms(3)] show ?thesis
    by (auto simp: interleaved_def ord_new_def sys_new_def bus_new_def n_popped_def)
qed

end
