(* ===== verification/ProbeLoops.thy ===== *)
theory ProbeLoops
  imports FixedTable "HOL-Library.While_Combinator"
begin

text \<open>
  The loops of \<^verbatim>\<open>core/fixedtable.hxx\<close> as they are written, with their loop variables, as
  \<open>while_option\<close> loops that may run forever. It is shown after how many rounds they end and what
  they have found then, directly from their bodies, without the recursive functions \<open>fd_probe\<close> and
  \<open>fd_free\<close> of the model; the loops also agree with these.
\<close>

section \<open>The loops\<close>

text \<open>\<open>lret\<close> is the slot a \<^verbatim>\<open>return\<close> inside the loop points to.\<close>

record probe_vars =
  li :: nat
  lj :: nat
  lret :: "nat option"

definition probe_cond :: "'v TContent list \<Rightarrow> nat \<Rightarrow> probe_vars \<Rightarrow> bool" where
  "probe_cond dat num s = (lret s = None \<and> li s < length dat \<and> lj s < num)"

definition probe_body :: "'v TContent list \<Rightarrow> nat \<Rightarrow> u64 \<Rightarrow> probe_vars \<Rightarrow> probe_vars" where
  "probe_body dat pos key s =
     (let cur = (li s + pos) mod length dat in
      case content (dat ! cur) of
        None \<Rightarrow> s\<lparr>li := li s + 1\<rparr>
      | Some (key2, _) \<Rightarrow>
          if key2 = key then s\<lparr>lret := Some cur\<rparr>
          else
            let pos2 = calcPos (length dat) key2;
                s1 = (if pos2 = pos then s\<lparr>lj := lj s + 1\<rparr> else s) in
            s1\<lparr>li := li s1 + 1\<rparr>)"

definition loop_start :: probe_vars where
  "loop_start = \<lparr>li = 0, lj = 0, lret = None\<rparr>"

definition probe_loop :: "'v TContent list \<Rightarrow> nat \<Rightarrow> nat \<Rightarrow> u64 \<Rightarrow> probe_vars option" where
  "probe_loop dat pos num key =
     while_option (probe_cond dat num) (probe_body dat pos key) loop_start"

text \<open>The second loop of \<^verbatim>\<open>emplace\<close>, up to the free slot; \<open>lj\<close> is not used.\<close>

definition free_cond :: "'v TContent list \<Rightarrow> probe_vars \<Rightarrow> bool" where
  "free_cond dat s = (lret s = None \<and> li s < length dat)"

definition free_body :: "'v TContent list \<Rightarrow> nat \<Rightarrow> probe_vars \<Rightarrow> probe_vars" where
  "free_body dat pos s =
     (if content (dat ! ((li s + pos) mod length dat)) = None then s\<lparr>lret := Some (li s)\<rparr>
      else s\<lparr>li := li s + 1\<rparr>)"

definition free_loop :: "'v TContent list \<Rightarrow> nat \<Rightarrow> probe_vars option" where
  "free_loop dat pos = while_option (free_cond dat) (free_body dat pos) loop_start"

section \<open>Agreement with the recursive functions\<close>

lemma while_option_exit: "\<not> b s \<Longrightarrow> while_option b c s = Some s"
  by (subst while_option_unfold) simp

lemma while_option_next: "b s \<Longrightarrow> while_option b c s = while_option b c (c s)"
  by (subst while_option_unfold) simp

lemma probe_loop_from:
  "i \<le> length dat \<Longrightarrow>
   \<exists>s. while_option (probe_cond dat num) (probe_body dat pos key) \<lparr>li = i, lj = j, lret = None\<rparr> = Some s \<and>
     lret s = fd_probe dat pos num key i j \<and> li s \<le> length dat \<and> lj s \<le> max j num"
proof (induction dat pos num key i j rule: fd_probe.induct)
  case (1 dat pos num key i j)
  let ?s = "\<lparr>li = i, lj = j, lret = None\<rparr>" and ?c = "(i + pos) mod length dat"
  let ?w = "while_option (probe_cond dat num) (probe_body dat pos key)"
  show ?case
  proof (cases "i < length dat \<and> j < num")
    case False
    then have "\<not> probe_cond dat num ?s" by (auto simp: probe_cond_def)
    then show ?thesis using "1.prems" False
      by (intro exI [of _ ?s]) (auto simp: while_option_exit fd_probe.simps [of dat pos num key i j])
  next
    case True
    then have w: "?w ?s = ?w (probe_body dat pos key ?s)"
      by (intro while_option_next) (simp add: probe_cond_def)
    note p = fd_probe.simps [of dat pos num key i j]
    show ?thesis
    proof (cases "content (dat ! ?c)")
      case None
      with "1.IH"(1) [OF True None] True have ih: "\<exists>s. ?w (probe_body dat pos key ?s) = Some s \<and>
          lret s = fd_probe dat pos num key (Suc i) j \<and> li s \<le> length dat \<and> lj s \<le> max j num"
        by (simp add: probe_body_def [of dat pos key ?s] Let_def)
      then show ?thesis using True None unfolding w p by simp
    next
      case (Some kv)
      obtain key2 v where kv: "kv = (key2, v)" by (cases kv)
      consider "key2 = key" | "key2 \<noteq> key" "calcPos (length dat) key2 = pos"
        | "key2 \<noteq> key" "calcPos (length dat) key2 \<noteq> pos" by blast
      then show ?thesis
      proof cases
        case 1
        have "?w \<lparr>li = i, lj = j, lret = Some ?c\<rparr> = Some \<lparr>li = i, lj = j, lret = Some ?c\<rparr>"
          by (rule while_option_exit) (simp add: probe_cond_def)
        moreover have "probe_body dat pos key ?s = \<lparr>li = i, lj = j, lret = Some ?c\<rparr>"
          using 1 Some kv by (simp add: probe_body_def Let_def)
        ultimately show ?thesis using 1 True Some kv unfolding w p by simp
      next
        case 2
        with "1.IH"(2) [OF True Some kv [symmetric] 2] True Some kv have "\<exists>s. ?w (probe_body dat pos key ?s) = Some s \<and>
            lret s = fd_probe dat pos num key (Suc i) (Suc j) \<and> li s \<le> length dat \<and> lj s \<le> max (Suc j) num"
          by (simp add: probe_body_def [of dat pos key ?s] Let_def)
        then show ?thesis using True Some kv 2 unfolding w p by auto
      next
        case 3
        with "1.IH"(3) [OF True Some kv [symmetric] 3] True Some kv have "\<exists>s. ?w (probe_body dat pos key ?s) = Some s \<and>
            lret s = fd_probe dat pos num key (Suc i) j \<and> li s \<le> length dat \<and> lj s \<le> max j num"
          by (simp add: probe_body_def [of dat pos key ?s] Let_def)
        then show ?thesis using True Some kv 3 unfolding w p by auto
      qed
    qed
  qed
qed

lemma free_loop_from:
  "i \<le> length dat \<Longrightarrow>
   \<exists>s. while_option (free_cond dat) (free_body dat pos) \<lparr>li = i, lj = j, lret = None\<rparr> = Some s \<and>
     lret s = fd_free dat pos i \<and> li s \<le> length dat"
proof (induction dat pos i rule: fd_free.induct)
  case (1 dat pos i)
  let ?s = "\<lparr>li = i, lj = j, lret = None\<rparr>" and ?c = "(i + pos) mod length dat"
  let ?w = "while_option (free_cond dat) (free_body dat pos)"
  note p = fd_free.simps [of dat pos i]
  show ?case
  proof (cases "i < length dat")
    case False
    then have "\<not> free_cond dat ?s" by (simp add: free_cond_def)
    moreover have "fd_free dat pos i = None" using False by (simp add: p)
    ultimately show ?thesis using "1.prems" by (intro exI [of _ ?s]) (simp add: while_option_exit)
  next
    case True
    then have w: "?w ?s = ?w (free_body dat pos ?s)"
      by (intro while_option_next) (simp add: free_cond_def)
    show ?thesis
    proof (cases "content (dat ! ?c) = None")
      case free: True
      have "?w \<lparr>li = i, lj = j, lret = Some i\<rparr> = Some \<lparr>li = i, lj = j, lret = Some i\<rparr>"
        by (rule while_option_exit) (simp add: free_cond_def)
      moreover have "free_body dat pos ?s = \<lparr>li = i, lj = j, lret = Some i\<rparr>"
        using free by (simp add: free_body_def)
      ultimately show ?thesis using free True unfolding w p by simp
    next
      case False
      then have "free_body dat pos ?s = \<lparr>li = Suc i, lj = j, lret = None\<rparr>" by (simp add: free_body_def)
      with "1.IH" [OF True False] True False show ?thesis unfolding w p by auto
    qed
  qed
qed

lemma loops_agree:
  "\<exists>s. probe_loop dat pos num key = Some s \<and> lret s = fd_probe dat pos num key 0 0"
  "\<exists>s. free_loop dat pos = Some s \<and> lret s = fd_free dat pos 0"
  using probe_loop_from [of 0 dat num pos key 0] free_loop_from [of 0 dat pos 0]
  by (auto simp: probe_loop_def free_loop_def loop_start_def)

section \<open>Rounds\<close>

text \<open>A loop from \<open>s\<close> does exactly \<open>n\<close> rounds.\<close>

definition rounds :: "('s \<Rightarrow> bool) \<Rightarrow> ('s \<Rightarrow> 's) \<Rightarrow> 's \<Rightarrow> nat \<Rightarrow> bool" where
  "rounds b c s n \<longleftrightarrow> (\<forall>m<n. b ((c ^^ m) s)) \<and> \<not> b ((c ^^ n) s)"

lemma rounds_while: "rounds b c s n \<Longrightarrow> while_option b c s = Some ((c ^^ n) s)"
proof (induction n arbitrary: s)
  case 0
  then show ?case by (simp add: rounds_def while_option_exit)
next
  case (Suc n)
  have pow: "(c ^^ m) (c s) = (c ^^ Suc m) s" for m by (simp add: funpow_swap1)
  have "b s" using Suc.prems unfolding rounds_def by (metis funpow_0 zero_less_Suc)
  moreover have "rounds b c (c s) n" using Suc.prems unfolding rounds_def pow by (metis Suc_mono)
  ultimately show ?case using Suc.IH [of "c s"] unfolding pow by (simp add: while_option_next)
qed

text \<open>The elements of home position \<open>pos\<close> among the first \<open>m\<close> slots from it.\<close>

definition homed_before :: "'v TContent list \<Rightarrow> nat \<Rightarrow> nat \<Rightarrow> nat" where
  "homed_before dat pos m = length (filter (\<lambda>i. homed (length dat) pos (dat ! ((i + pos) mod length dat))) [0..<m])"

lemma homed_before_Suc:
  "homed_before dat pos (Suc m) =
     homed_before dat pos m + (if homed (length dat) pos (dat ! ((m + pos) mod length dat)) then 1 else 0)"
  by (simp add: homed_before_def)

lemma homed_before_mono: "m \<le> n \<Longrightarrow> homed_before dat pos m \<le> homed_before dat pos n"
  by (induction n) (auto simp: homed_before_Suc le_Suc_eq)

lemma homed_before_all: "homed_before dat pos (length dat) = length (filter (homed (length dat) pos) dat)"
proof -
  have "rotate pos dat = map (\<lambda>i. dat ! ((i + pos) mod length dat)) [0..<length dat]"
    by (rule nth_equalityI) (simp_all add: nth_rotate add.commute)
  then have "homed_before dat pos (length dat) = length (filter (homed (length dat) pos) (rotate pos dat))"
    by (simp add: homed_before_def filter_map comp_def)
  then show ?thesis by (simp add: length_filter_rotate)
qed

text \<open>The loop variables after \<open>m\<close> rounds.\<close>

definition probe_after :: "'v TContent list \<Rightarrow> nat \<Rightarrow> u64 \<Rightarrow> nat \<Rightarrow> probe_vars" where
  "probe_after dat pos key m = (probe_body dat pos key ^^ m) loop_start"

definition free_after :: "'v TContent list \<Rightarrow> nat \<Rightarrow> nat \<Rightarrow> probe_vars" where
  "free_after dat pos m = (free_body dat pos ^^ m) loop_start"

lemma probe_after_vars:
  assumes "\<forall>i<m. probe_cond dat num (probe_after dat pos key i)"
  shows "(probe_after dat pos key m = \<lparr>li = m, lj = homed_before dat pos m, lret = None\<rparr> \<and>
      (\<forall>i<m. \<forall>v. content (dat ! ((i + pos) mod length dat)) \<noteq> Some (key, v))) \<or>
    (\<exists>i v. m = Suc i \<and> lret (probe_after dat pos key m) = Some ((i + pos) mod length dat) \<and>
      content (dat ! ((i + pos) mod length dat)) = Some (key, v))"
  using assms
proof (induction m)
  case (Suc m)
  have "lret (probe_after dat pos key m) = None" using Suc.prems by (auto simp: probe_cond_def)
  with Suc have s: "probe_after dat pos key m = \<lparr>li = m, lj = homed_before dat pos m, lret = None\<rparr>"
    and old: "\<forall>i<m. \<forall>v. content (dat ! ((i + pos) mod length dat)) \<noteq> Some (key, v)" by auto
  have n: "probe_after dat pos key (Suc m) = probe_body dat pos key \<lparr>li = m, lj = homed_before dat pos m, lret = None\<rparr>"
    using s by (simp add: probe_after_def)
  show ?case
  proof (cases "\<exists>v. content (dat ! ((m + pos) mod length dat)) = Some (key, v)")
    case True
    then show ?thesis unfolding n by (auto simp: probe_body_def Let_def)
  next
    case False
    with old have "\<forall>i<Suc m. \<forall>v. content (dat ! ((i + pos) mod length dat)) \<noteq> Some (key, v)"
      by (auto simp: less_Suc_eq)
    moreover have "probe_body dat pos key \<lparr>li = m, lj = homed_before dat pos m, lret = None\<rparr> =
        \<lparr>li = Suc m, lj = homed_before dat pos (Suc m), lret = None\<rparr>"
      using False by (auto simp: probe_body_def homed_before_Suc homed_def Let_def split: option.split)
    ultimately show ?thesis unfolding n by blast
  qed
qed (simp add: probe_after_def loop_start_def homed_before_def)

lemma free_after_vars:
  assumes "\<forall>i<m. free_cond dat (free_after dat pos i)"
  shows "(free_after dat pos m = \<lparr>li = m, lj = 0, lret = None\<rparr> \<and>
      (\<forall>i<m. content (dat ! ((i + pos) mod length dat)) \<noteq> None)) \<or>
    (\<exists>i. m = Suc i \<and> lret (free_after dat pos m) = Some i \<and> content (dat ! ((i + pos) mod length dat)) = None \<and>
      (\<forall>i'<i. content (dat ! ((i' + pos) mod length dat)) \<noteq> None))"
  using assms
proof (induction m)
  case (Suc m)
  have "lret (free_after dat pos m) = None" using Suc.prems by (auto simp: free_cond_def)
  with Suc have s: "free_after dat pos m = \<lparr>li = m, lj = 0, lret = None\<rparr>"
    and old: "\<forall>i<m. content (dat ! ((i + pos) mod length dat)) \<noteq> None" by auto
  have n: "free_after dat pos (Suc m) = free_body dat pos \<lparr>li = m, lj = 0, lret = None\<rparr>"
    using s by (simp add: free_after_def)
  show ?case using old unfolding n by (auto simp: free_body_def less_Suc_eq)
qed (simp add: free_after_def loop_start_def)

lemma slot_offset: "s < length dat \<Longrightarrow> pos < length dat \<Longrightarrow> \<exists>i<length dat. dat ! s = dat ! ((i + pos) mod length dat)"
  using offset_exists [of s "length dat" pos] by metis

lemma probe_rounds:
  assumes inv: "fd_inv d" and dat: "dat = fd_data d" and pos: "pos < length dat"
    and num: "num = homed_before dat pos (length dat)" and home: "pos = calcPos (length dat) key"
  shows "\<exists>n\<le>length dat. rounds (probe_cond dat num) (probe_body dat pos key) loop_start n \<and>
      probe_loop dat pos num key = Some (probe_after dat pos key n) \<and> (\<forall>m<n. homed_before dat pos m < num) \<and>
      (case lret (probe_after dat pos key n) of
         None \<Rightarrow> homed_before dat pos n = num \<and> fd_lookup d key = None
       | Some s \<Rightarrow> s = (n - 1 + pos) mod length dat \<and> (\<exists>v. content (dat ! s) = Some (key, v)))"
proof -
  let ?C = "length dat" and ?s = "probe_after dat pos key"
  note vars = probe_after_vars [of _ dat num pos key]
  obtain n where n: "n \<le> ?C" "\<forall>m<n. probe_cond dat num (?s m)" "\<not> probe_cond dat num (?s n)"
  proof (cases "\<forall>m<?C. probe_cond dat num (?s m)")
    case True
    from vars [OF this] have "\<not> probe_cond dat num (?s ?C)" by (auto simp: probe_cond_def)
    with True that [of ?C] show ?thesis by simp
  next
    case False
    then obtain m where "m < ?C" "\<not> probe_cond dat num (?s m)" by blast
    with ex_least_nat_le [of "\<lambda>m. \<not> probe_cond dat num (?s m)" m] that show ?thesis
      by (metis less_imp_le order_trans)
  qed
  have r: "rounds (probe_cond dat num) (probe_body dat pos key) loop_start n"
    using n(2,3) by (simp add: rounds_def probe_after_def)
  have few: "homed_before dat pos m < num" if "m < n" for m
  proof -
    have "\<forall>i<m. probe_cond dat num (?s i)" using n(2) that by simp
    from vars [OF this] n(2) [rule_format, OF that] show ?thesis by (auto simp: probe_cond_def)
  qed
  show ?thesis
  proof (cases "lret (?s n)")
    case (Some s)
    with vars [OF n(2)] have "s = (n - 1 + pos) mod ?C \<and> (\<exists>v. content (dat ! s) = Some (key, v))" by auto
    moreover have "probe_loop dat pos num key = Some (?s n)"
      using rounds_while [OF r] by (simp add: probe_loop_def probe_after_def)
    ultimately show ?thesis using Some n(1) r few by (intro exI [of _ n]) auto
  next
    case None
    with vars [OF n(2)] have v: "?s n = \<lparr>li = n, lj = homed_before dat pos n, lret = None\<rparr>"
      "\<forall>i<n. \<forall>v. content (dat ! ((i + pos) mod ?C)) \<noteq> Some (key, v)" by auto
    have all: "homed_before dat pos n = num"
      using n(1,3) homed_before_mono [OF n(1), of dat pos] num by (auto simp: probe_cond_def v)
    have "content (dat ! ((i + pos) mod ?C)) \<noteq> Some (key, v)" if "i < ?C" for i v
    proof
      assume k: "content (dat ! ((i + pos) mod ?C)) = Some (key, v)"
      with v(2) have "n \<le> i" by (metis not_le)
      moreover have "homed ?C pos (dat ! ((i + pos) mod ?C))" using k home by (simp add: homed_def)
      ultimately have "Suc (homed_before dat pos n) \<le> homed_before dat pos (Suc i)"
        using homed_before_mono [of n i dat pos] by (simp add: homed_before_Suc)
      with homed_before_mono [of "Suc i" ?C dat pos] that all num show False by simp
    qed
    then have "fd_lookup d key = None"
      using fd_lookup_slot [OF inv, of key] slot_offset [OF _ pos] dat by (metis not_Some_eq)
    with None n(1) r few all rounds_while [OF r] show ?thesis
      by (intro exI [of _ n]) (simp add: probe_loop_def probe_after_def)
  qed
qed

lemma free_rounds:
  assumes inv: "fd_inv d" and dat: "dat = fd_data d" and pos: "pos < length dat"
  shows "\<exists>i<length dat. rounds (free_cond dat) (free_body dat pos) loop_start (Suc i) \<and>
      free_loop dat pos = Some (free_after dat pos (Suc i)) \<and> lret (free_after dat pos (Suc i)) = Some i \<and>
      content (dat ! ((i + pos) mod length dat)) = None \<and>
      (\<forall>i'<i. content (dat ! ((i' + pos) mod length dat)) \<noteq> None)"
proof -
  let ?C = "length dat" and ?s = "free_after dat pos"
  obtain s where "s < ?C" "content (dat ! s) = None"
  proof -
    have "fd_free dat pos 0 \<noteq> None" using fd_free_total [of dat pos] fd_invD(1,3) [OF inv] dat pos by simp
    then obtain k where "fd_free dat pos 0 = Some k" by blast
    moreover have "0 < ?C" using pos by linarith
    ultimately show ?thesis using fd_free_Some [of dat pos 0 k] that [of "(k + pos) mod ?C"] by auto
  qed
  then obtain i0 where i0: "i0 < ?C" "content (dat ! ((i0 + pos) mod ?C)) = None" using slot_offset [OF _ pos] by metis
  have "\<exists>m\<le>?C. \<not> free_cond dat (?s m)"
  proof (rule ccontr)
    assume "\<not> ?thesis"
    then have "\<forall>m\<le>?C. free_cond dat (?s m)" by blast
    then show False using free_after_vars [of ?C dat pos] by (auto simp: free_cond_def)
  qed
  then obtain m where "m \<le> ?C" "\<not> free_cond dat (?s m)" by blast
  with ex_least_nat_le [of "\<lambda>m. \<not> free_cond dat (?s m)" m]
  obtain n where n: "n \<le> ?C" "\<forall>m<n. free_cond dat (?s m)" "\<not> free_cond dat (?s n)" by (metis order_trans)
  have r: "rounds (free_cond dat) (free_body dat pos) loop_start n"
    using n(2,3) by (simp add: rounds_def free_after_def)
  from free_after_vars [OF n(2)] show ?thesis
  proof
    assume v: "?s n = \<lparr>li = n, lj = 0, lret = None\<rparr> \<and> (\<forall>i<n. content (dat ! ((i + pos) mod ?C)) \<noteq> None)"
    with n(1,3) have "n = ?C" by (simp add: free_cond_def)
    with v i0 show ?thesis by blast
  next
    assume "\<exists>i. n = Suc i \<and> lret (?s n) = Some i \<and> content (dat ! ((i + pos) mod ?C)) = None \<and>
      (\<forall>i'<i. content (dat ! ((i' + pos) mod ?C)) \<noteq> None)"
    then obtain i where i: "n = Suc i" "lret (?s n) = Some i" "content (dat ! ((i + pos) mod ?C)) = None"
      "\<forall>i'<i. content (dat ! ((i' + pos) mod ?C)) \<noteq> None" by blast
    with n(1) r rounds_while [OF r] show ?thesis
      by (intro exI [of _ i]) (simp add: free_loop_def free_after_def)
  qed
qed

section \<open>Properties\<close>

text \<open>
  Property (C24). The loops of a well-formed table end, after at most \<^verbatim>\<open>CAPACITY\<close> rounds. The
  probe loop of \<^verbatim>\<open>find\<close>, \<^verbatim>\<open>emplace\<close> and \<^verbatim>\<open>erase\<close> goes on only while fewer elements of the key's
  home position were passed than the counter says; it stops in the round that finds the key, or when
  all of them were passed, and then the key is not in the table. The search of \<^verbatim>\<open>emplace\<close> stops in the
  round that finds the first free slot from the home position on, and there is one.
\<close>

theorem fd_loops_terminate:
  assumes "fd_inv d" and "dat = fd_data d" and "pos = calcPos (length dat) key" and "num = numInserted (dat ! pos)"
  shows "(\<exists>n\<le>length dat. rounds (probe_cond dat num) (probe_body dat pos key) loop_start n \<and>
      probe_loop dat pos num key = Some (probe_after dat pos key n) \<and> (\<forall>m<n. homed_before dat pos m < num) \<and>
      (case lret (probe_after dat pos key n) of
         None \<Rightarrow> homed_before dat pos n = num \<and> fd_lookup d key = None
       | Some s \<Rightarrow> s = (n - 1 + pos) mod length dat \<and> (\<exists>v. content (dat ! s) = Some (key, v)))) \<and>
    (\<exists>i<length dat. rounds (free_cond dat) (free_body dat pos) loop_start (Suc i) \<and>
      free_loop dat pos = Some (free_after dat pos (Suc i)) \<and> lret (free_after dat pos (Suc i)) = Some i \<and>
      content (dat ! ((i + pos) mod length dat)) = None \<and>
      (\<forall>i'<i. content (dat ! ((i' + pos) mod length dat)) \<noteq> None))"
proof
  let ?C = "length dat"
  have C: "0 < ?C" using fd_invD(2) [OF assms(1)] assms(2) by simp
  have pos: "pos < ?C" using calcPos_less [OF C] assms(3) by simp
  have num: "num = homed_before dat pos ?C"
    using fd_invD(5) [OF assms(1), of pos] pos assms(2,4) by (simp add: homed_before_all)
  show "\<exists>n\<le>?C. rounds (probe_cond dat num) (probe_body dat pos key) loop_start n \<and>
      probe_loop dat pos num key = Some (probe_after dat pos key n) \<and> (\<forall>m<n. homed_before dat pos m < num) \<and>
      (case lret (probe_after dat pos key n) of
         None \<Rightarrow> homed_before dat pos n = num \<and> fd_lookup d key = None
       | Some s \<Rightarrow> s = (n - 1 + pos) mod ?C \<and> (\<exists>v. content (dat ! s) = Some (key, v)))"
    by (rule probe_rounds [OF assms(1,2) pos num assms(3)])
  show "\<exists>i<?C. rounds (free_cond dat) (free_body dat pos) loop_start (Suc i) \<and>
      free_loop dat pos = Some (free_after dat pos (Suc i)) \<and> lret (free_after dat pos (Suc i)) = Some i \<and>
      content (dat ! ((i + pos) mod ?C)) = None \<and>
      (\<forall>i'<i. content (dat ! ((i' + pos) mod ?C)) \<noteq> None)"
    by (rule free_rounds [OF assms(1,2) pos])
qed

text \<open>
  In the table \<open>fd_demo\<close> the search for 6 ends with slot 3.
\<close>

theorem fd_loops_terminate_witness:
  "(\<exists>n\<le>4. rounds (probe_cond (fd_data fd_demo) 1) (probe_body (fd_data fd_demo) (calcPos 4 6) 6) loop_start n \<and>
     lret (probe_after (fd_data fd_demo) (calcPos 4 6) 6 n) = Some 3)"
proof -
  have d: "length (fd_data fd_demo) = 4" "numInserted (fd_data fd_demo ! calcPos 4 6) = 1" "fd_lookup fd_demo 6 = Some 60"
    by code_simp+
  have slot: "s < 4 \<Longrightarrow> content (fd_data fd_demo ! s) = Some (6, v) \<Longrightarrow> s = 3" for s v
  proof -
    have "list_all (\<lambda>s. s = 3 \<or> map_option fst (content (fd_data fd_demo ! s)) \<noteq> Some 6) [0..<4]" by code_simp
    then show "s < 4 \<Longrightarrow> content (fd_data fd_demo ! s) = Some (6, v) \<Longrightarrow> s = 3" by (auto simp: list_all_iff)
  qed
  from conjunct1 [OF fd_loops_terminate [OF fd_demo_inv refl refl refl, of 6]]
  obtain n where n: "n \<le> 4" "rounds (probe_cond (fd_data fd_demo) 1) (probe_body (fd_data fd_demo) (calcPos 4 6) 6) loop_start n"
    "case lret (probe_after (fd_data fd_demo) (calcPos 4 6) 6 n) of
       None \<Rightarrow> homed_before (fd_data fd_demo) (calcPos 4 6) n = 1 \<and> fd_lookup fd_demo 6 = None
     | Some s \<Rightarrow> s = (n - 1 + calcPos 4 6) mod 4 \<and> (\<exists>v. content (fd_data fd_demo ! s) = Some (6, v))"
    unfolding d(1,2) by blast
  then obtain s v where s: "lret (probe_after (fd_data fd_demo) (calcPos 4 6) 6 n) = Some s" "s < 4"
    "content (fd_data fd_demo ! s) = Some (6, v)"
    using d(3) by (auto split: option.splits)
  with slot [OF s(2,3)] n show ?thesis by auto
qed

end
