(* ===== verification/TcpLive.thy ===== *)
theory TcpLive
  imports TcpSpec
begin

text \<open>
  Whether the TCP server gets on. A step on a well-formed context can fail in two places only, both
  while a client is accepted. And a client can get stuck: which timers run in which state is an
  invariant (\<open>conn_timers\<close>), and it shows that a client that reaches LAST\_ACK by a timer has no timer
  left that could remove it.
\<close>

section \<open>Faults of a step\<close>

lemma conn_rx_total:
  assumes "conn_ok k tcb" and "seqno h = Some sq"
  shows "\<exists>t. conn_rx api thr h tcb = Inr t"
proof -
  obtain e where e: "expseq tcb = Some e" using assms(1) by (auto simp: conn_ok_def)
  from assms(1) consider "tcb_state tcb = TCP_STATE_SYN_SENT" | "tcb_state tcb = TCP_STATE_ESTABLISHED"
    | "tcb_state tcb = TCP_STATE_CLOSE_WAIT" | "tcb_state tcb = TCP_STATE_LAST_ACK"
    by (auto simp: conn_ok_def)
  then show ?thesis
    by cases (use e assms(2) ack_expected_known [OF assms(2) e] in
      \<open>auto simp: conn_rx_def split_beta Let_def\<close>)
qed

lemma fd_emplace_fault: "fd_emplace d k v = Inl f \<Longrightarrow> f = AssertFailed \<or> f = OutOfBounds"
  by (auto simp: fd_emplace_def Let_def split: option.splits if_splits)

text \<open>The faults of accepting a client: the listening block is not in LISTEN, or the table aborts.\<close>

lemma accept_result_cases:
  assumes "seqno h = Some sq"
  shows "(\<exists>t. accept_result api thr h k self = Inr t) \<or>
    \<not> listening self \<and> accept_result api thr h k self = Inl AssertFailed \<or>
    listening self \<and> has_flag h tcp_SYN \<and>
      (\<exists>f. fd_emplace (tcbTable self) k (tcb_new api k) = Inl f \<and> accept_result api thr h k self = Inl f)"
  using assms
  by (cases "fd_emplace (tcbTable self) k (tcb_new api k)")
    (auto simp: accept_result_def listening_def tcp_emplace_def)

lemma conn_step_known_total:
  assumes "tcp_inv self" and "clients self k = Some tcb" and "\<And>h. ev = EvRx h \<Longrightarrow> seqno h \<noteq> None"
  shows "\<exists>t. conn_step api thr self k ev = Inr t"
proof -
  have ok: "conn_ok k tcb" using assms(1,2) by (simp add: tcp_inv_clients)
  show ?thesis
    using assms(2,3) conn_rx_total [OF ok] conn_tmr_spec [OF ok] by (cases ev) (auto, blast)
qed

text \<open>A step that the operation on its client allows.\<close>

lemma tcp_step_Inr:
  assumes "tcp_inv self" and "event_key ev = Some k" and "conn_step api thr self k ev = Inr t"
  shows "\<exists>self'. tcp_step api thr self ev = Inr self' \<and> tcp_inv self'"
  using assms(3) tcp_step_refines [OF assms(1,2), of api thr] tcp_step_inv [OF assms(1)]
  by (fastforce simp: refines_at_def)

lemma tcp_step_timer_total:
  assumes "tcp_inv self" and "event_key (EvTimer a) = Some k"
  shows "\<exists>self'. tcp_step api thr self (EvTimer a) = Inr self' \<and> tcp_inv self'"
proof (cases "clients self k")
  case None
  then show ?thesis by (intro tcp_step_Inr [OF assms]) simp
next
  case (Some tcb)
  from conn_step_known_total [OF assms(1) this, of "EvTimer a"] tcp_step_Inr [OF assms] show ?thesis by blast
qed

section \<open>Running timers\<close>

definition running :: "'t timer_api \<Rightarrow> 't TcpControlBlock \<Rightarrow> nat \<Rightarrow> bool" where
  "running api tcb i = mtimer_isRunning api (tmrs (tmr tcb) ! i)"

text \<open>
  Which timers of a client can be running: the inactivity timer never, a final timer only from the
  state on whose entry it is started.
\<close>

definition conn_timers :: "'t timer_api \<Rightarrow> 't TcpControlBlock \<Rightarrow> bool" where
  "conn_timers api tcb \<longleftrightarrow>
     (running api tcb TCP_FINAL_TMR_2 \<longrightarrow> tcb_state tcb = TCP_STATE_LAST_ACK) \<and>
     (running api tcb TCP_FINAL_TMR_1 \<longrightarrow> tcb_state tcb \<in> {TCP_STATE_CLOSE_WAIT, TCP_STATE_LAST_ACK}) \<and>
     \<not> running api tcb TCP_INACTIVITY_TMR"

definition tcp_timers :: "'t timer_api \<Rightarrow> 't tcpImpl \<Rightarrow> bool" where
  "tcp_timers api self \<longleftrightarrow> (\<forall>k tcb. clients self k = Some tcb \<longrightarrow> conn_timers api tcb)"

lemma running_start_other [simp]:
  "j \<noteq> i \<Longrightarrow> running api (snd (tcb_start api thr i ms tcb)) j = running api tcb j"
  by (simp add: running_def tcb_start_def multi_timer_start_def split_beta)

lemma running_changeState [simp]:
  "s \<noteq> TCP_STATE_EXCEPTION_HANG \<Longrightarrow> running api (changeState api thr s tcb) j = running api tcb j"
  by (simp add: running_def changeState_tmr)

lemma running_expseq [simp]: "running api (tcb\<lparr>expseq := e\<rparr>) j = running api tcb j"
  by (simp add: running_def)

lemma running_new:
  "timer_documented api \<Longrightarrow> j < TCP_MAX_TMR \<Longrightarrow> \<not> running api (tcb_new api k) j"
  by (simp add: running_def tcb_new_def multi_timer_new_def multi_timer_setSrcAddr_def mtimer_new_def
      mtimer_isRunning_def timer_documentedD)

lemma conn_rx_timers:
  assumes "conn_ok k tcb" and "timer_documented api" and "conn_timers api tcb"
    and "conn_rx api thr h tcb = Inr (Some t)"
  shows "conn_timers api t"
proof -
  have s: "fst (tcb_start api thr i TCP_CONTROL_BLOCK_DEFAULT_MS tcb')" for i tcb'
    by (rule tcb_start_ok [OF assms(2)]) simp
  from assms(1) consider "tcb_state tcb = TCP_STATE_SYN_SENT" | "tcb_state tcb = TCP_STATE_ESTABLISHED"
    | "tcb_state tcb = TCP_STATE_CLOSE_WAIT" | "tcb_state tcb = TCP_STATE_LAST_ACK"
    by (auto simp: conn_ok_def)
  then show ?thesis
    by cases (use s assms(3,4) in \<open>auto simp: conn_rx_def conn_timers_def fault_simps split_beta Let_def
      tmr_id_defs split: if_splits\<close>)
qed

lemma conn_tmr_timers:
  assumes "conn_ok k tcb" and "conn_timers api tcb" and "conn_tmr api thr i tcb = Inr (Some t)"
  shows "conn_timers api t"
  using assms by (auto simp: conn_tmr_def conn_ok_def conn_timers_def fault_simps split: if_splits)

lemma conn_accept_timers:
  assumes "timer_documented api" and "conn_accept api thr k sq = Some t"
  shows "conn_timers api t"
  using assms running_new [OF assms(1), of _ k]
  by (auto simp: conn_accept_def conn_timers_def split_beta tmr_id_defs split: if_splits)

lemma tcp_step_timers:
  assumes inv: "tcp_inv self" and api: "timer_documented api" and tm: "tcp_timers api self"
    and step: "tcp_step api thr self ev = Inr self'"
  shows "tcp_timers api self'"
proof -
  obtain k t where t: "event_key ev = Some k" "conn_step api thr self k ev = Inr t"
    "clients self' = (clients self)(k := t)"
    using tcp_step_inv [OF inv step] by blast
  have "conn_timers api tcb" if "t = Some tcb" for tcb
  proof (cases "clients self k")
    case None
    with t(2) that show ?thesis
      by (cases ev) (auto simp: accept_result_def fault_simps intro: conn_accept_timers [OF api] split: if_splits)
  next
    case (Some tcb0)
    then have "conn_ok k tcb0" "conn_timers api tcb0" using inv tm by (auto simp: tcp_inv_clients tcp_timers_def)
    with Some t(2) that show ?thesis
      using conn_rx_timers [OF _ api] conn_tmr_timers by (cases ev) auto
  qed
  then show ?thesis using tm t(3) by (auto simp: tcp_timers_def)
qed

interpretation timed_run: kept_invariant "tcp_step api thr"
    "\<lambda>self. tcp_inv self \<and> (timer_documented api \<longrightarrow> tcp_timers api self)"
  for api :: "'t timer_api" and thr
  using tcp_step_timers tcp_step_inv by unfold_locales blast

section \<open>Expiring timers\<close>

text \<open>A timer expires only while it runs.\<close>

inductive expires :: "'t timer_api \<Rightarrow> int \<Rightarrow> 't tcpImpl \<Rightarrow> 't tcpImpl \<Rightarrow> bool" for api thr where
  expire: "clients self k = Some tcb \<Longrightarrow> i < TCP_MAX_TMR \<Longrightarrow> running api tcb i \<Longrightarrow>
    tcp_step api thr self (EvTimer (mtimer_tag (of_nat i) k)) = Inr self' \<Longrightarrow> expires api thr self self'"

text \<open>Client \<open>k\<close> waits for the last acknowledgement without a timer.\<close>

definition stuck :: "'t timer_api \<Rightarrow> u64 \<Rightarrow> u32 \<Rightarrow> 't tcpImpl \<Rightarrow> bool" where
  "stuck api k e self \<longleftrightarrow> tcp_inv self \<and>
     (\<exists>tcb. clients self k = Some tcb \<and> conn_of tcb = (TCP_STATE_LAST_ACK, e) \<and>
        \<not> running api tcb TCP_FINAL_TMR_2)"

lemma expires_stuck:
  assumes "expires api thr self self'" and "stuck api k e self"
  shows "stuck api k e self'"
  using assms(1)
proof cases
  case (expire j tcb i)
  have inv: "tcp_inv self" using assms(2) by (simp add: stuck_def)
  then have "unat j < 2 ^ 48" using expire(1) by (auto simp: tcp_inv_clients conn_ok_def)
  moreover have i: "unat (of_nat i :: u32) = i" using expire(2) by (simp add: TCP_MAX_TMR_def unat_of_nat)
  ultimately have ev: "event_key (EvTimer (mtimer_tag (of_nat i) j)) = Some j"
    "unat (ucast (drop_bit 56 (mtimer_tag (of_nat i) j) AND 0xFF :: u64) :: u8) = i"
    using timer_event [of j "of_nat i"] expire(2) by (simp_all add: TCP_MAX_TMR_def)
  obtain t where t: "conn_step api thr self j (EvTimer (mtimer_tag (of_nat i) j)) = Inr t" "tcp_inv self'"
    "clients self' = (clients self)(j := t)"
    using tcp_step_inv [OF inv expire(4)] ev(1) by auto
  show ?thesis
  proof (cases "j = k")
    case False
    with t(2,3) assms(2) show ?thesis by (simp add: stuck_def)
  next
    case True
    then have "tcb_state tcb = TCP_STATE_LAST_ACK" "i \<noteq> TCP_FINAL_TMR_2"
      using assms(2) expire(1,3) by (auto simp: stuck_def conn_of_def)
    then have "t = Some tcb" using t(1) expire(1) ev(2) by (simp add: conn_tmr_def)
    then show ?thesis using assms(2) t(2,3) True expire(1) by (simp add: stuck_def)
  qed
qed

section \<open>Properties\<close>

text \<open>A segment of a client that is not in the table.\<close>

lemma tcp_step_accept:
  assumes "tcp_inv self" and "event_key (EvRx h) = Some k" and "clients self k = None" and "seqno h \<noteq> None"
  shows "(\<exists>self'. tcp_step api thr self (EvRx h) = Inr self' \<and> tcp_inv self') \<or>
    \<not> listening self \<and> tcp_step api thr self (EvRx h) = Inl AssertFailed \<or>
    listening self \<and> has_flag h tcp_SYN \<and>
      (\<exists>f. f \<in> {AssertFailed, OutOfBounds} \<and> fd_emplace (tcbTable self) k (tcb_new api k) = Inl f \<and>
         tcp_step api thr self (EvRx h) = Inl f)"
proof -
  have c: "conn_step api thr self k (EvRx h) = accept_result api thr h k self" using assms(3) by simp
  have fault: "tcp_step api thr self (EvRx h) = Inl f" if "accept_result api thr h k self = Inl f" for f
    using that tcp_step_refines [OF assms(1,2), of api thr] unfolding c refines_at_def by simp
  obtain sq where "seqno h = Some sq" using assms(4) by blast
  from accept_result_cases [OF this, of api thr k self] show ?thesis
    using fault tcp_step_Inr [OF assms(1,2), of api thr] fd_emplace_fault [of "tcbTable self" k "tcb_new api k"]
    unfolding c by blast
qed

text \<open>
  Property (C11). No step gets stuck unexpectedly: on every well-formed context, whatever the timer
  service does, a segment with a sequence number and any timer expiry step to a well-formed context.
  The only faults are those of accepting a new client: the assertion of a listening block that is not
  in LISTEN, and the table's abort on a SYN. In particular no handler is called in a state it is not
  for, none reads an unset field, and no dispatch leaves its table.
\<close>

theorem tcp_step_progress:
  assumes "tcp_inv self" and "event_key ev = Some k" and "\<And>h. ev = EvRx h \<Longrightarrow> seqno h \<noteq> None"
  shows "(\<exists>self'. tcp_step api thr self ev = Inr self' \<and> tcp_inv self') \<or>
    clients self k = None \<and> (\<exists>h. ev = EvRx h \<and>
      (\<not> listening self \<and> tcp_step api thr self ev = Inl AssertFailed \<or>
       listening self \<and> has_flag h tcp_SYN \<and>
         (\<exists>f. f \<in> {AssertFailed, OutOfBounds} \<and> fd_emplace (tcbTable self) k (tcb_new api k) = Inl f \<and>
            tcp_step api thr self ev = Inl f)))"
proof (cases "clients self k")
  case (Some tcb)
  have "\<exists>t. conn_step api thr self k ev = Inr t"
    by (rule conn_step_known_total [OF assms(1) Some]) (rule assms(3))
  then obtain t where "conn_step api thr self k ev = Inr t" ..
  from tcp_step_Inr [OF assms(1,2) this] show ?thesis ..
next
  case None
  show ?thesis
  proof (cases ev)
    case (EvTimer a)
    from tcp_step_timer_total [OF assms(1) assms(2) [unfolded EvTimer]] show ?thesis unfolding EvTimer ..
  next
    case (EvRx h)
    from tcp_step_accept [OF assms(1) assms(2) [unfolded EvRx] None assms(3) [OF EvRx]] None EvRx
    show ?thesis by blast
  qed
qed

theorem tcp_step_progress_witness:
  "\<exists>self'. tcp_step broken_timer 1 demo_server (EvRx (demo_fsm_header tcp_SYN 77)) = Inr self' \<and> tcp_inv self'"
proof -
  have "segment_of demo_client 77 (demo_fsm_header tcp_SYN 77)" by (rule demo_fsm_header_simps)
  then have h: "event_key (EvRx (demo_fsm_header tcp_SYN 77)) = Some demo_client"
    "seqno (demo_fsm_header tcp_SYN 77) \<noteq> None" by (auto simp only: segment_of_def)
  from tcp_step_progress [OF demo_server_simps(2) h(1), of broken_timer 1] h(2)
  show ?thesis using demo_emplace [of "tcb_new broken_timer demo_client"] by auto
qed

text \<open>
  Property (C12). A client that loses its last acknowledgement stays for ever. On every context that
  is reached from one without clients, with timers that work as documented: when the first final timer
  takes a client from CLOSE\_WAIT to LAST\_ACK, the second final timer is not running and nobody starts
  it, so whatever timers expire afterwards, in any order, the client stays in the table.
\<close>

theorem tcp_last_ack_leak:
  assumes "tcp_inv start" and "clients start = Map.empty" and "timer_documented api"
    and "run_all (tcp_step api thr) start evs = Inr self" and "conns self k = Some (TCP_STATE_CLOSE_WAIT, e)"
    and "tcp_step api thr self (EvTimer (mtimer_tag (of_nat TCP_FINAL_TMR_1) k)) = Inr self1"
    and "(expires api thr)\<^sup>*\<^sup>* self1 self2"
  shows "conns self2 k = Some (TCP_STATE_LAST_ACK, e + 1)"
proof -
  have inv: "tcp_inv self" "tcp_timers api self"
    using timed_run.run_inv [of start api thr evs self] assms(1-4) by (auto simp: tcp_timers_def)
  obtain tcb where tcb: "clients self k = Some tcb" "conn_of tcb = (TCP_STATE_CLOSE_WAIT, e)"
    using assms(5) by (auto simp: conns_def)
  then have c: "conn_ok k tcb" "conn_timers api tcb"
    using inv by (auto simp: tcp_inv_clients tcp_timers_def)
  have st: "tcb_state tcb = TCP_STATE_CLOSE_WAIT" "expseq tcb = Some e"
    using tcb(2) c(1) by (auto simp: conn_of_def conn_ok_def)
  have ev: "event_key (EvTimer (mtimer_tag (of_nat TCP_FINAL_TMR_1) k)) = Some k"
    "unat (ucast (drop_bit 56 (mtimer_tag (of_nat TCP_FINAL_TMR_1) k) AND 0xFF :: u64) :: u8) = TCP_FINAL_TMR_1"
    using timer_event [of k "of_nat TCP_FINAL_TMR_1"] c(1) by (simp_all add: conn_ok_def TCP_FINAL_TMR_1_def)
  obtain t where t: "conn_step api thr self k (EvTimer (mtimer_tag (of_nat TCP_FINAL_TMR_1) k)) = Inr t"
    "tcp_inv self1" "clients self1 = (clients self)(k := t)"
    using tcp_step_inv [OF inv(1) assms(6)] ev(1) by auto
  have "t = Some (changeState api thr TCP_STATE_LAST_ACK (tcb\<lparr>expseq := Some (e + 1)\<rparr>))"
    using t(1) tcb(1) st ev(2) by (simp add: conn_tmr_def)
  then have "stuck api k (e + 1) self1"
    using t(2,3) c(2) st(1) by (simp add: stuck_def conn_of_def conn_timers_def)
  with assms(7) have "stuck api k (e + 1) self2"
    by (induction rule: rtranclp_induct) (auto intro: expires_stuck)
  then show ?thesis by (auto simp: stuck_def conns_def)
qed

theorem tcp_last_ack_leak_witness:
  "\<exists>s s1. conns s = [demo_client \<mapsto> (TCP_STATE_CLOSE_WAIT, 5)] \<and>
     tcp_step demo_timer 1 s (EvTimer (mtimer_tag 3 demo_client)) = Inr s1 \<and>
     (\<forall>s2. (expires demo_timer 1)\<^sup>*\<^sup>* s1 s2 \<longrightarrow> conns s2 demo_client = Some (TCP_STATE_LAST_ACK, 6))"
proof -
  obtain s :: "(u64 \<times> u64) option tcpImpl" where s: "run_all (tcp_step demo_timer 1) demo_server
       [EvRx (demo_fsm_header tcp_SYN 77), EvRx (demo_fsm_header tcp_ACK 78), EvRx (demo_fsm_header tcp_FIN 5)] = Inr s"
    "tcp_inv s" "conns s = [demo_client \<mapsto> (TCP_STATE_CLOSE_WAIT, 5)]"
    using demo_close_wait by blast
  have k: "event_key (EvTimer (mtimer_tag 3 demo_client)) = Some demo_client"
    using timer_event(1) [of demo_client 3] client_id_bound by (simp add: demo_client_def)
  obtain s1 where s1: "tcp_step demo_timer 1 s (EvTimer (mtimer_tag 3 demo_client)) = Inr s1"
    using tcp_step_timer_total [OF s(2) k] by blast
  have c: "conns s demo_client = Some (TCP_STATE_CLOSE_WAIT, 5)" using s(3) by simp
  have "conns s2 demo_client = Some (TCP_STATE_LAST_ACK, 6)" if "(expires demo_timer 1)\<^sup>*\<^sup>* s1 s2" for s2
    using tcp_last_ack_leak [OF demo_server_simps(2,4) demo_timer_documented s(1) c _ that] s1
    by (simp add: TCP_FINAL_TMR_1_def)
  with s(3) s1 show ?thesis by blast
qed

end
