(* ===== verification/TcpNoTimers.thy ===== *)
theory TcpNoTimers
  imports TcpLive
begin

text \<open>
  The TCP server on a timer service that refuses every start. DPDK asks for
  \<^verbatim>\<open>rte_timer_subsystem_init\<close> before any timer is set, and runs expired timers in
  \<^verbatim>\<open>rte_timer_manage\<close>; no file under \<^verbatim>\<open>src/\<close> calls either. \<open>refused_packet\<close> is the
  state machine that is left then, and the server implements it as it implements \<open>spec_packet\<close> with
  working timers.
\<close>

section \<open>Specification\<close>

definition timer_refuses :: "'t timer_api \<Rightarrow> bool" where
  "timer_refuses api \<longleftrightarrow> (\<forall>t n c a. fst (rte_timer_reset api t n c a) \<noteq> 0)"

fun refused_packet :: "bool \<Rightarrow> u32 \<Rightarrow> conn option \<Rightarrow> conn option" where
  "refused_packet ack sq None = None"
| "refused_packet ack sq (Some (st, e)) =
     (if st = TCP_STATE_SYN_SENT \<and> ack \<and> sq = e then Some (TCP_STATE_ESTABLISHED, e)
      else if st \<in> {TCP_STATE_CLOSE_WAIT, TCP_STATE_LAST_ACK} \<and> ack \<and> sq = e then None
      else Some (st, e))"

lemma broken_timer_refuses: "timer_refuses broken_timer"
  by (simp add: timer_refuses_def broken_timer_def)

section \<open>Refused starts\<close>

lemma mtimer_start_refused: "timer_refuses api \<Longrightarrow> \<not> fst (mtimer_start api thr u ev ms src)"
  by (simp add: timer_refuses_def mtimer_start_def split_beta Let_def)

lemma tcb_start_refused: "timer_refuses api \<Longrightarrow> \<not> fst (tcb_start api thr i ms tcb)"
  by (simp add: tcb_start_def multi_timer_start_def split_beta mtimer_start_refused)

lemma conn_accept_refused: "timer_refuses api \<Longrightarrow> conn_accept api thr k sq = None"
  by (simp add: conn_accept_def split_beta tcb_start_refused)

lemma conn_rx_refused:
  assumes "conn_ok k tcb" and "timer_refuses api" and "seqno h = Some sq"
  shows "\<exists>t. conn_rx api thr h tcb = Inr t \<and>
    map_option conn_of t = refused_packet (has_flag h tcp_ACK) sq (Some (conn_of tcb))"
proof -
  obtain e where e: "expseq tcb = Some e" using assms(1) by (auto simp: conn_ok_def)
  note a = ack_expected_known [OF assms(3) e]
  note s = tcb_start_refused [OF assms(2)]
  from assms(1) consider "tcb_state tcb = TCP_STATE_SYN_SENT" | "tcb_state tcb = TCP_STATE_ESTABLISHED"
    | "tcb_state tcb = TCP_STATE_CLOSE_WAIT" | "tcb_state tcb = TCP_STATE_LAST_ACK"
    by (auto simp: conn_ok_def)
  then show ?thesis
    by cases (use a e s assms(3) in \<open>auto simp: conn_rx_def conn_of_def split_beta Let_def\<close>)
qed

section \<open>A server without clients\<close>

text \<open>A table without clients takes any key at its home slot.\<close>

lemma empty_table_emplace:
  assumes "fd_inv d" and "fd_lookup d = Map.empty" and "1 < length (fd_data d)"
  shows "\<exists>s d'. fd_emplace d k v = Inr (Some s, d') \<and> length (fd_data d') = length (fd_data d)"
proof -
  let ?p = "calcPos (length (fd_data d)) k"
  have free: "content (fd_data d ! s) = None" if "s < length (fd_data d)" for s
    using that assms(2) fd_lookup_slot [OF assms(1)] by (cases "content (fd_data d ! s)") force+
  then have "fd_cnt d = 0"
    using assms(1) by (auto simp: fd_inv_def occupied_def filter_empty_conv in_set_conv_nth)
  have find: "fd_find d k = None" using fd_find_None [OF assms(1), of k] assms(2) by simp
  obtain i where i: "fd_free (fd_data d) ?p 0 = Some i"
    and e: "fd_emplace d k v =
      (if Suc (fd_cnt d) = length (fd_data d) then Inl AssertFailed
       else if length (fd_data d) \<le> i + ?p then Inl OutOfBounds
       else Inr (Some (i + ?p), \<lparr>fd_data = fd_add_inserted Suc ?p
          (fd_set_content (i + ?p) (Some (k, v)) (fd_data d)), fd_cnt = Suc (fd_cnt d)\<rparr>))"
    by (rule fd_emplace_absent [OF assms(1) find])
  have p: "?p < length (fd_data d)" using assms(3) by (intro calcPos_less) auto
  have "i = 0" using fd_free_Some [OF i] free p by (metis le0 gr0I mod_less_divisor not_less_zero gr_implies_not_zero)
  with e \<open>fd_cnt d = 0\<close> assms(3) p show ?thesis by simp
qed

text \<open>The clients' invariant, a listening block in LISTEN, no client, and room for one.\<close>

definition idle :: "'t tcpImpl \<Rightarrow> bool" where
  "idle self \<longleftrightarrow> tcp_inv self \<and> listening self \<and> clients self = Map.empty \<and> 1 < length (fd_data (tcbTable self))"

lemma idle_demo: "idle demo_server"
  by (simp add: idle_def fd_new_def MAX_TCP_CLIENT_def)

lemma idle_find: "idle self \<Longrightarrow> fd_find (tcbTable self) k = None"
  using fd.find_None [of "tcbTable self" k] by (simp add: idle_def tcp_inv_def clients_def)

lemma idle_emplace: "idle self \<Longrightarrow>
    \<exists>s d'. fd_emplace (tcbTable self) k v = Inr (Some s, d') \<and> length (fd_data d') = length (fd_data (tcbTable self))"
  by (rule empty_table_emplace) (simp_all add: idle_def tcp_inv_def clients_def)

lemma set_erase_capacity:
  assumes "fd_inv (tcbTable self)" and "fd_find (tcbTable self) k = Some s"
  shows "length (fd_data (tcbTable (tcp_erase api k' (tcb_set (SlotRef s) t self)))) = length (fd_data (tcbTable self))"
proof -
  have "fd_inv (tcbTable (tcb_set (SlotRef s) t self))" using tcb_set_slot [OF assms] by blast
  from fd_erase_spec(4) [OF this] show ?thesis
    by (simp add: tcp_erase_def tcb_set_def fd_put_def Let_def)
qed

text \<open>A SYN of a new client is accepted, its timer is refused, and it is removed again.\<close>

lemma idle_step:
  assumes id: "idle self" and api: "timer_refuses api" and ok: "\<And>h. ev = EvRx h \<Longrightarrow> sport h \<noteq> None \<and> seqno h \<noteq> None"
  shows "\<exists>self'. tcp_step api thr self ev = Inr self' \<and> idle self'"
proof (cases ev)
  case (EvTimer a)
  with id idle_find [OF id] show ?thesis by (simp add: onTcpCbTimerExpire_def Let_def)
next
  case (EvRx h)
  with ok obtain sp sq where sp: "sport h = Some sp" and sq: "seqno h = Some sq" by blast
  define k where "k = makeClientId (saddr4 (ipHeader h)) sp"
  have fi: "fd_inv (tcbTable self)" and cl: "clients self k = None"
    using id by (simp_all add: idle_def tcp_inv_def)
  have lis: "tcb_state (listen self) = TCP_STATE_LISTEN" using id by (simp add: idle_def listening_def)
  have step: "tcp_step api thr self ev = fsm_listen api thr ListenRef h self"
    using EvRx sp idle_find [OF id] by (simp add: tcp_deliver_def Let_def fsm_rx_state bindR_def split: sum.split)
  show ?thesis
  proof (cases "has_flag h tcp_SYN")
    case False
    with id step lis show ?thesis by (simp add: fsm_listen_def in_state_def tcb_get_def)
  next
    case True
    obtain s0 d where e: "fd_emplace (tcbTable self) k (tcb_new api k) = Inr (Some s0, d)"
      and d: "length (fd_data d) = length (fd_data (tcbTable self))"
      using idle_emplace [OF id] by blast
    define self1 where "self1 = self\<lparr>tcbTable := d\<rparr>"
    have em: "tcp_emplace api k self = Inr (Some s0, self1)"
      using e idle_find [OF id] by (simp add: tcp_emplace_def tcb_retire_def self1_def)
    from tcp_emplace_spec [OF fi cl em]
    have s1: "fd_inv (tcbTable self1)" "fd_find (tcbTable self1) k = Some s0"
      "tcb_get (SlotRef s0) self1 = Inr (tcb_new api k)" by auto
    obtain t where r: "tcp_step api thr self ev = Inr (tcp_erase api k (tcb_set (SlotRef s0) t self1))"
      using step lis True sp sq em s1(3) tcb_start_refused [OF api]
      by (auto simp: fsm_listen_def in_state_def tcb_get_def [of ListenRef] send_defs k_def split_beta Let_def)
    have "conn_step api thr self k ev = Inr None"
      using EvRx cl lis True em sq conn_accept_refused [OF api] by (simp add: accept_result_def)
    with tcp_step_inv [OF _ r] id EvRx sp k_def set_erase_capacity [OF s1(1,2), of api k t] d r show ?thesis
      by (auto simp: idle_def listening_def self1_def)
  qed
qed

text \<open>The demo run that ends in CLOSE\_WAIT leaves the listening block alone.\<close>

lemma run_listening:
  assumes "tcp_inv self" and "run_all (tcp_step api thr) self evs = Inr self'"
  shows "listening self' = listening self"
  using assms
proof (induction evs arbitrary: self)
  case (Cons ev evs)
  then obtain s where s: "tcp_step api thr self ev = Inr s" "run_all (tcp_step api thr) s evs = Inr self'"
    by (auto simp: fault_simps)
  from tcp_step_inv [OF Cons.prems(1) s(1)] have "tcp_inv s" "listen s = listen self" by auto
  with Cons.IH [OF _ s(2)] show ?case by (simp add: listening_def)
qed simp

lemma demo_close_wait_listening:
  "\<exists>s :: (u64 \<times> u64) option tcpImpl. tcp_inv s \<and> listening s \<and> conns s = [demo_client \<mapsto> (TCP_STATE_CLOSE_WAIT, 5)]"
  using demo_close_wait run_listening [of demo_server demo_timer 1] by fastforce

section \<open>Properties\<close>

text \<open>
  Property (C21). On a timer service that refuses every start, a listening server does to the client of
  a segment exactly what \<open>refused_packet\<close> says: a new client is never kept, a FIN leaves an
  ESTABLISHED client where it is, and a client in CLOSE\_WAIT is dropped on its acknowledgement.
  The one exception is, as ever, a SYN of a new client that the table aborts on.
\<close>

theorem tcp_refused_refines:
  assumes "tcp_inv self" and "timer_refuses api" and "listening self"
    and "sport h = Some sp" and "seqno h = Some sq" and "k = makeClientId (saddr4 (ipHeader h)) sp"
  shows "(\<exists>self'. tcp_step api thr self (EvRx h) = Inr self' \<and> tcp_inv self' \<and> listening self' \<and>
      conns self' = (conns self)(k := refused_packet (has_flag h tcp_ACK) sq (conns self k))) \<or>
    (conns self k = None \<and> has_flag h tcp_SYN \<and>
      (\<exists>f. fd_emplace (tcbTable self) k (tcb_new api k) = Inl f \<and> tcp_step api thr self (EvRx h) = Inl f))"
proof -
  have key: "event_key (EvRx h) = Some k" using assms(4,6) by simp
  have result: ?thesis if c: "conn_step api thr self k (EvRx h) = Inr t"
    and u: "map_option conn_of t = refused_packet (has_flag h tcp_ACK) sq (conns self k)" for t
  proof -
    obtain self' where s: "tcp_step api thr self (EvRx h) = Inr self'"
      using tcp_step_refines [OF assms(1) key, of api thr] unfolding c refines_at_def by auto
    have "tcp_inv self'" "clients self' = (clients self)(k := t)" "listen self' = listen self"
      using tcp_step_inv [OF assms(1) s] key c by auto
    with s u assms(3) conns_upd [of self' self k t] show ?thesis by (simp add: listening_def)
  qed
  show ?thesis
  proof (cases "clients self k")
    case (Some tcb)
    then have "conn_ok k tcb" using assms(1) by (simp add: tcp_inv_clients)
    then obtain t where "conn_rx api thr h tcb = Inr t"
      "map_option conn_of t = refused_packet (has_flag h tcp_ACK) sq (Some (conn_of tcb))"
      using conn_rx_refused [OF _ assms(2,5)] by blast
    with Some show ?thesis by (intro result [of t]) (simp_all add: conns_def)
  next
    case None
    have c: "conn_step api thr self k (EvRx h) = accept_result api thr h k self" using None by simp
    from accept_result_cases [OF assms(5), of api thr k self] assms(3)
    consider t where "accept_result api thr h k self = Inr t"
      | f where "has_flag h tcp_SYN" "fd_emplace (tcbTable self) k (tcb_new api k) = Inl f"
          "accept_result api thr h k self = Inl f"
      by blast
    then show ?thesis
    proof cases
      case 1
      then have "t = None" using conn_accept_refused [OF assms(2)] assms(5)
        by (auto simp: accept_result_def fault_simps split: if_splits)
      with 1 c None show ?thesis by (intro result [of None]) (simp_all add: conns_def)
    next
      case 2
      with c tcp_step_refines [OF assms(1) key, of api thr] None show ?thesis
        by (simp add: refines_at_def conns_def)
    qed
  qed
qed

theorem tcp_refused_refines_witness:
  "\<exists>s self'. conns s = [demo_client \<mapsto> (TCP_STATE_CLOSE_WAIT, 5)] \<and>
     tcp_step broken_timer 1 s (EvRx (demo_fsm_header tcp_ACK 5)) = Inr self' \<and> conns self' = Map.empty"
proof -
  obtain s :: "(u64 \<times> u64) option tcpImpl" where s: "tcp_inv s" "listening s"
    "conns s = [demo_client \<mapsto> (TCP_STATE_CLOSE_WAIT, 5)]"
    using demo_close_wait_listening by blast
  have h: "sport (demo_fsm_header tcp_ACK 5) = Some 9" "seqno (demo_fsm_header tcp_ACK 5) = Some 5"
    "demo_client = makeClientId (saddr4 (ipHeader (demo_fsm_header tcp_ACK 5))) 9"
    by (simp_all add: demo_fsm_header_def demo_header_def demo_client_def)
  from tcp_refused_refines [OF s(1) broken_timer_refuses s(2) h, of 1] s(3)
  have "\<exists>self'. tcp_step broken_timer 1 s (EvRx (demo_fsm_header tcp_ACK 5)) = Inr self' \<and> conns self' = Map.empty"
    by auto
  with s(3) show ?thesis by blast
qed

text \<open>
  Property (C13). Without timers the server keeps nobody: from a listening context without clients,
  every run of segments and timer events succeeds and ends without clients. Every SYN is accepted, its
  connection timer is refused, and the client is removed in the same step.
\<close>

theorem no_timers_no_clients:
  assumes "tcp_inv self" and "listening self" and "conns self = Map.empty"
    and "1 < length (fd_data (tcbTable self))" and "timer_refuses api"
    and "\<And>h. EvRx h \<in> set evs \<Longrightarrow> sport h \<noteq> None \<and> seqno h \<noteq> None"
  shows "\<exists>self'. run_all (tcp_step api thr) self evs = Inr self' \<and> tcp_inv self' \<and> conns self' = Map.empty"
proof -
  have "idle self" using assms(1-4) by (simp add: idle_def conns_def fun_eq_iff)
  then have "\<exists>self'. run_all (tcp_step api thr) self evs = Inr self' \<and> idle self'" using assms(6)
  proof (induction evs arbitrary: self)
    case (Cons ev evs)
    obtain s where "tcp_step api thr self ev = Inr s" "idle s"
      using idle_step [OF Cons.prems(1) assms(5), of ev thr] Cons.prems(2) by auto
    with Cons.IH [of s] Cons.prems(2) show ?case by simp
  qed simp
  then show ?thesis by (auto simp: idle_def conns_def fun_eq_iff)
qed

theorem no_timers_no_clients_witness:
  "\<exists>s. run_all (tcp_step broken_timer 1) demo_server
       [EvRx (demo_fsm_header tcp_SYN 77), EvTimer 5, EvRx (demo_fsm_header tcp_ACK 78)] = Inr s \<and>
     conns s = Map.empty"
proof -
  have "\<exists>s. run_all (tcp_step broken_timer 1) demo_server
       [EvRx (demo_fsm_header tcp_SYN 77), EvTimer 5, EvRx (demo_fsm_header tcp_ACK 78)] = Inr s \<and>
     tcp_inv s \<and> conns s = Map.empty"
    by (rule no_timers_no_clients)
      (use idle_demo broken_timer_refuses in \<open>auto simp: idle_def demo_fsm_header_def demo_header_def\<close>)
  then show ?thesis by blast
qed

end
