(* ===== verification/Exit.thy ===== *)
theory Exit
  imports TcpSpec Reactor
begin

text \<open>
  The exit of the process. After \<^verbatim>\<open>main\<close> returns, the static objects \<^verbatim>\<open>gl_tcpCtxt\<close>
  and \<^verbatim>\<open>g_threads\<close> are destroyed: a context destroys its listening block and then its table
  from the last slot to the first, each block its timers. (The message rings of a block stay empty, and
  their destructors do nothing.)
\<close>

definition tcpImpl_destroy :: "'t timer_api \<Rightarrow> 't tcpImpl \<Rightarrow> 't tcpImpl" where
  "tcpImpl_destroy api self =
     fold (\<lambda>s. tcb_retire api (Some s)) (rev [0..<length (fd_data (tcbTable self))])
       (self\<lparr>retired := tcb_destroy api (listen self) # retired self\<rparr>)"

definition world_destroy :: "'t timer_api \<Rightarrow> 't world \<Rightarrow> 't world" where
  "world_destroy api w =
     w\<lparr>g_threads := map thread_destroy (g_threads w), gl_tcpCtxt := map (tcpImpl_destroy api) (gl_tcpCtxt w)\<rparr>"

section \<open>Lemmas\<close>

text \<open>The destructor calls for some slots.\<close>

lemma retire_slots:
  "\<exists>bs. retired (fold (\<lambda>s. tcb_retire api (Some s)) ss self) = map (tcb_destroy api) bs @ retired self \<and>
     set bs = (\<Union>s \<in> set ss. set_option (fd_at (tcbTable self) s))"
proof (induction ss arbitrary: self)
  case (Cons s ss)
  from Cons [of "tcb_retire api (Some s) self"] obtain bs where
    "retired (fold (\<lambda>s. tcb_retire api (Some s)) (s # ss) self) =
       map (tcb_destroy api) bs @ retired (tcb_retire api (Some s) self)"
    "set bs = (\<Union>s \<in> set ss. set_option (fd_at (tcbTable self) s))" by auto
  moreover have "retired (tcb_retire api (Some s) self) =
      (case fd_at (tcbTable self) s of None \<Rightarrow> retired self | Some tcb \<Rightarrow> tcb_destroy api tcb # retired self)"
    by (simp add: tcb_retire_def split: option.split)
  ultimately show ?case
    by (cases "fd_at (tcbTable self) s")
      (simp, intro exI [of _ bs], simp, intro exI [of _ "bs @ [the (fd_at (tcbTable self) s)]"], simp)
qed simp

lemma destroy_retired:
  "\<exists>bs. retired (tcpImpl_destroy api self) = map (tcb_destroy api) bs @ retired self \<and>
     set bs = insert (listen self) (\<Union>s < length (fd_data (tcbTable self)). set_option (fd_at (tcbTable self) s))"
proof -
  obtain bs where "retired (tcpImpl_destroy api self) = map (tcb_destroy api) bs @ tcb_destroy api (listen self) # retired self"
    "set bs = (\<Union>s < length (fd_data (tcbTable self)). set_option (fd_at (tcbTable self) s))"
    using retire_slots [of api "rev [0..<length (fd_data (tcbTable self))]"
        "self\<lparr>retired := tcb_destroy api (listen self) # retired self\<rparr>"]
    by (auto simp: tcpImpl_destroy_def atLeast0LessThan)
  then show ?thesis by (intro exI [of _ "bs @ [listen self]"]) simp
qed

text \<open>The destructor calls of a run: a client that was removed on the way is among them.\<close>

lemma run_destroys:
  assumes "tcp_inv self" and "run_all (tcp_step api thr) self evs = Inr self'"
  shows "\<exists>bs. retired self' = map (tcb_destroy api) bs @ retired self \<and>
    list_all (\<lambda>b. length (tmrs (tmr b)) = TCP_MAX_TMR) bs \<and>
    (\<forall>k. clients self k \<noteq> None \<and> clients self' k = None \<longrightarrow> k \<in> tcb_clientId ` set bs)"
  using assms
proof (induction evs arbitrary: self)
  case (Cons ev evs)
  then obtain s where s: "tcp_step api thr self ev = Inr s" "run_all (tcp_step api thr) s evs = Inr self'"
    by (auto simp: fault_simps)
  obtain k0 t where t: "tcp_inv s" "clients s = (clients self)(k0 := t)" "destroys api self k0 t s"
    using tcp_step_inv [OF Cons.prems(1) s(1)] by blast
  from Cons.IH [OF t(1) s(2)] obtain bs where bs: "retired self' = map (tcb_destroy api) bs @ retired s"
    "list_all (\<lambda>b. length (tmrs (tmr b)) = TCP_MAX_TMR) bs"
    "\<forall>k. clients s k \<noteq> None \<and> clients self' k = None \<longrightarrow> k \<in> tcb_clientId ` set bs" by blast
  from t(3) obtain cs where cs: "retired s = map (tcb_destroy api) cs @ retired self"
    "list_all (\<lambda>b. tcb_clientId b = k0 \<and> length (tmrs (tmr b)) = TCP_MAX_TMR) cs"
    "t = None \<and> clients self k0 \<noteq> None \<longrightarrow> length cs = 1" by (auto simp: destroys_def)
  have "k \<in> tcb_clientId ` set (bs @ cs)" if "clients self k \<noteq> None" "clients self' k = None" for k
  proof (cases "clients s k = None")
    case True
    with that t(2) have "k = k0" "t = None" by (auto split: if_splits)
    with cs(3) that obtain b where "cs = [b]" by (cases cs) auto
    with cs(2) \<open>k = k0\<close> show ?thesis by simp
  qed (use bs(3) that in auto)
  moreover have "list_all (\<lambda>b. length (tmrs (tmr b)) = TCP_MAX_TMR) (bs @ cs)"
    using bs(2) cs(2) by (auto simp: list_all_iff)
  ultimately show ?case using bs(1) cs(1) by (intro exI [of _ "bs @ cs"]) simp
qed (auto intro: exI [of _ "[]"])

lemma tcb_destroy_simps [simp]:
  "tcb_clientId (tcb_destroy api tcb) = tcb_clientId tcb"
  "tmrs (tmr (tcb_destroy api tcb)) = map (mtimer_destroy api) (tmrs (tmr tcb))"
  by (simp_all add: tcb_destroy_def multi_timer_destroy_def)

text \<open>Every client has a slot.\<close>

lemma client_slot:
  assumes "fd_inv (tcbTable self)" and "clients self k = Some tcb"
  shows "\<exists>s < length (fd_data (tcbTable self)). fd_at (tcbTable self) s = Some tcb"
  using assms fd_lookup_slot [OF assms(1), of k tcb] by (auto simp: clients_def fd_at_def)

text \<open>\<^verbatim>\<open>deinit\<close> runs a second time in the destructor, without an effect.\<close>

lemma world_destroy_threads [simp]: "g_threads (world_destroy api w) = g_threads w"
  by (simp add: world_destroy_def thread_destroy_def thread_deinit_def map_idI)

section \<open>Properties\<close>

text \<open>
  Property (C32). Whoever is a client at some moment is destroyed in the end with all timers stopped.
  On every run of segments and timer events from a state in which \<open>k\<close> is a client: if \<open>k\<close> is gone at
  the end, the destructor was called for a control block of \<open>k\<close> during the run; if it is still there
  when the process exits, the destructor of the context calls it then. Each destroyed block had its
  four timers, and none of them runs any more.
\<close>

theorem tcp_exit_stops_timers:
  assumes "tcp_inv self" and "timer_documented api" and "clients self k \<noteq> None"
    and "run_all (tcp_step api thr) self evs = Inr self'"
  shows "\<exists>gone late. retired self' = gone @ retired self \<and>
    retired (tcpImpl_destroy api self') = late @ gone @ retired self \<and>
    (\<exists>b \<in> set (if clients self' k = None then gone else late). tcb_clientId b = k \<and>
       length (tmrs (tmr b)) = TCP_MAX_TMR \<and> (\<forall>u \<in> set (tmrs (tmr b)). \<not> mtimer_isRunning api u)) \<and>
    (\<forall>b \<in> set (late @ gone). \<forall>u \<in> set (tmrs (tmr b)). \<not> mtimer_isRunning api u)"
proof -
  have inv: "tcp_inv self'" using assms(1,4) by (rule tcp_run.run_inv)
  have stopped: "\<not> mtimer_isRunning api (mtimer_destroy api u)" for u
    unfolding mtimer_destroy_def by (rule mtimer_stop_stopped [OF assms(2)])
  obtain bs where bs: "retired self' = map (tcb_destroy api) bs @ retired self"
    "list_all (\<lambda>b. length (tmrs (tmr b)) = TCP_MAX_TMR) bs"
    "clients self' k = None \<longrightarrow> k \<in> tcb_clientId ` set bs"
    using run_destroys [OF assms(1,4)] assms(3) by blast
  obtain cs where cs: "retired (tcpImpl_destroy api self') = map (tcb_destroy api) cs @ retired self'"
    "set cs = insert (listen self') (\<Union>s < length (fd_data (tcbTable self')). set_option (fd_at (tcbTable self') s))"
    using destroy_retired [of api self'] by blast
  have "\<exists>b \<in> set (if clients self' k = None then bs else cs). tcb_clientId b = k \<and> length (tmrs (tmr b)) = TCP_MAX_TMR"
  proof (cases "clients self' k")
    case None
    with bs show ?thesis by (auto simp: list_all_iff)
  next
    case (Some tcb)
    then have "conn_ok k tcb" "tcb \<in> set cs"
      using inv client_slot [of self' k tcb] cs(2) by (auto simp: tcp_inv_clients)
    with Some show ?thesis by (auto simp: conn_ok_def)
  qed
  then obtain b where b: "b \<in> set (if clients self' k = None then bs else cs)" "tcb_clientId b = k"
    "length (tmrs (tmr b)) = TCP_MAX_TMR" by blast
  let ?gone = "map (tcb_destroy api) bs" and ?late = "map (tcb_destroy api) cs"
  have "\<exists>b \<in> set (if clients self' k = None then ?gone else ?late). tcb_clientId b = k \<and>
      length (tmrs (tmr b)) = TCP_MAX_TMR \<and> (\<forall>u \<in> set (tmrs (tmr b)). \<not> mtimer_isRunning api u)"
    by (rule bexI [of _ "tcb_destroy api b"]) (use b stopped in \<open>auto split: if_splits\<close>)
  then show ?thesis using bs(1) cs(1) stopped by (intro exI [of _ ?gone] exI [of _ ?late]) auto
qed

text \<open>
  A client that is in CLOSE\_WAIT at the exit, and one that a FIN and two acknowledgements remove.
\<close>

theorem tcp_exit_stops_timers_witness:
  "\<exists>s. conns s = [demo_client \<mapsto> (TCP_STATE_CLOSE_WAIT, 5)] \<and>
     (\<exists>late. retired (tcpImpl_destroy demo_timer s) = late @ retired s \<and> (\<exists>b \<in> set late. tcb_clientId b = demo_client)) \<and>
     (\<exists>s' gone. run_all (tcp_step demo_timer 1) s [EvRx (demo_fsm_header tcp_ACK 5), EvRx (demo_fsm_header tcp_ACK 6)] = Inr s' \<and>
       retired s' = gone @ retired s \<and> (\<exists>b \<in> set gone. tcb_clientId b = demo_client))"
proof -
  obtain s :: "(u64 \<times> u64) option tcpImpl" where s: "tcp_inv s" "conns s = [demo_client \<mapsto> (TCP_STATE_CLOSE_WAIT, 5)]"
    using demo_close_wait by blast
  have c: "clients s demo_client \<noteq> None" using s(2) by (auto simp: conns_def fun_eq_iff split: if_splits)
  have "\<exists>s'. run_all (tcp_step demo_timer 1) s (map EvRx [demo_fsm_header tcp_ACK 5, demo_fsm_header tcp_ACK 6]) = Inr s' \<and>
      conns s' demo_client = None"
    unfolding list.map
    apply (rule run_packet [OF s(1) demo_timer_documented, of demo_client 5])
    subgoal by simp
    subgoal using s(2) by simp
    apply (rule run_packet [OF _ demo_timer_documented, of _ demo_client 6], assumption)
    subgoal by simp
    subgoal using s(2) by simp
    subgoal using s(2) by simp
    done
  then obtain s' where s': "run_all (tcp_step demo_timer 1) s [EvRx (demo_fsm_header tcp_ACK 5), EvRx (demo_fsm_header tcp_ACK 6)] = Inr s'"
    "clients s' demo_client = None" by (auto simp: conns_def)
  from tcp_exit_stops_timers [OF s(1) demo_timer_documented c, of 1 "[]" s] c
  have "\<exists>late. retired (tcpImpl_destroy demo_timer s) = late @ retired s \<and> (\<exists>b \<in> set late. tcb_clientId b = demo_client)"
    by auto
  moreover from tcp_exit_stops_timers [OF s(1) demo_timer_documented c s'(1)] s'(2)
  have "\<exists>gone. retired s' = gone @ retired s \<and> (\<exists>b \<in> set gone. tcb_clientId b = demo_client)"
    by auto
  ultimately show ?thesis using s(2) s'(1) by blast
qed

end
