(* ===== verification/Spec2Isabelle.thy ===== *)
theory Spec2Isabelle
  imports WireApp DevSetup BusOrders ProbeLoops TcpNoTimers Exit
begin

text \<open>
  A model of reactdpdk, a small TCP server on DPDK, and the properties that make it correct.

  \<^bold>\<open>The program.\<close> Every worker core runs an \<^verbatim>\<open>internal_thread\<close> (\<^verbatim>\<open>core/plugin.cc\<close>) that polls
  its network ports and gives each packet to \<^verbatim>\<open>processRx\<close>. An IPv4 packet with protocol 6 is posted
  with \<^verbatim>\<open>reactorPost\<close> to the TCP service of the same thread; a post to another thread would go into
  that thread's message ring (\<^verbatim>\<open>core/circular.hxx\<close>). The service (\<^verbatim>\<open>tcp/tcp_plugin.cc\<close>) calls
  \<^verbatim>\<open>handleTcpRx\<close> (\<^verbatim>\<open>tcp/tcp_rx.cc\<close>), which parses the headers with an \<^verbatim>\<open>RteMbufReader\<close>
  (\<^verbatim>\<open>core/buffer.hxx\<close>), looks the client up in a fixed-capacity table
  (\<^verbatim>\<open>core/fixedtable.hxx\<close>) and calls the handler of the state of its control block
  (\<^verbatim>\<open>tcp/fsm/*.cc\<close>), which may start one of the timers (\<^verbatim>\<open>core/multi_timer.hxx\<close>). The expiry of
  a timer finds the client by the tag of the timer and calls the timer handler of its state. Packets
  are owned by reference-counted pointers (\<^verbatim>\<open>aroop_autobuf\<close>).

  \<^bold>\<open>The theories and the code.\<close>
  \<^item> \<^verbatim>\<open>Prelude\<close>: machine integers, faults, the result type \<open>fault + 'a\<close> and its sequencing, runs of
    steps, and the locale \<open>kept_invariant\<close>: an invariant kept by every step holds after every run.
  \<^item> \<^verbatim>\<open>FixedTable\<close>: \<^verbatim>\<open>FixedDict\<close> for every capacity. The three probe loops are \<open>fd_probe\<close>
    (recursion on the number of slots left), the search for a free slot is \<open>fd_free\<close>. The
    invariant \<open>fd_inv\<close> says that the counters are exact and the keys distinct; \<open>fd_lookup\<close> is
    the partial map a table stands for. The locale \<open>client_table\<close> is the contract its clients use.
    \<^verbatim>\<open>ProbeLoops\<close>: the loops with their loop variables, as \<open>while_option\<close> loops that end and agree
    with the recursive functions.
  \<^item> \<^verbatim>\<open>Circular\<close>: \<^verbatim>\<open>bus_mp_sc\<close> operation by operation, against the locale \<open>bounded_queue\<close>;
    \<^verbatim>\<open>BusSteps\<close>: the same code access by access, producers and the consumer interleaved in any
    order, under sequential consistency; \<^verbatim>\<open>BusOrders\<close>: the accesses of one producer and one
    consumer with the memory orders of the code. There a position is the list of the stores to it, a
    load takes any store that is not older than what its thread has seen, and a slot that one thread
    accesses without knowing of the other's last access is a data race, which is a fault.
  \<^item> \<^verbatim>\<open>Autobuf\<close>: \<^verbatim>\<open>aroop_autobuf\<close> over any callbacks, against the locale \<open>refcounted\<close>, with
    the default callbacks; \<^verbatim>\<open>MbufPool\<close>: the instance \<^verbatim>\<open>rte_autobuf\<close>, whose counts are kept by
    DPDK. The callbacks are logged with the object they touch, newest first. \<^verbatim>\<open>Autobuf\<close> also
    has the text buffer \<^verbatim>\<open>aroop_txt_t\<close>, which nothing uses.
  \<^item> \<^verbatim>\<open>Mbuf\<close>: packets as lists of segments, \<^verbatim>\<open>RteMbufIterator\<close>, \<^verbatim>\<open>RteMbufReader\<close> and
    its extraction operators. What a reader delivers is the list \<open>itr_stream\<close>: the data, and after
    each segment the byte of the buffer behind it. \<^verbatim>\<open>Arr\<close>: the array \<^verbatim>\<open>Arr\<close>.
  \<^item> \<^verbatim>\<open>Timer\<close>: \<^verbatim>\<open>mtimer_unit\<close> and \<^verbatim>\<open>multi_timer\<close> over a record of the functions of
    \<^verbatim>\<open>rte_timer\<close>.
  \<^item> \<^verbatim>\<open>TcpHeader\<close>: \<^verbatim>\<open>tcp/inc/tcp_header.hxx\<close>, \<^verbatim>\<open>makeClientId\<close> and the parsing part of
    \<^verbatim>\<open>handleTcpRx\<close>.
  \<^item> \<^verbatim>\<open>Tcb\<close>: control blocks and the context \<^verbatim>\<open>tcpImpl\<close> of a thread; \<^verbatim>\<open>TcpFsm\<close>: the packet
    and timer handlers, their tables, \<^verbatim>\<open>onTcpCbTimerExpire\<close>, and \<open>tcp_deliver\<close>, the part of
    \<^verbatim>\<open>handleTcpRx\<close> after the parsing; \<^verbatim>\<open>TcpServer\<close>: the invariant \<open>tcp_inv\<close> of a context, the
    handlers case by case, steps and runs; \<^verbatim>\<open>TcpSpec\<close>: what a server promises its clients;
    \<^verbatim>\<open>TcpLive\<close>: where a step can fail, which timers run in which state, and who gets stuck;
    \<^verbatim>\<open>TcpNoTimers\<close>: the server when no timer can be started, \<open>refused_packet\<close> instead of
    \<open>spec_packet\<close>; \<^verbatim>\<open>Exit\<close>: the destructors of the static objects when the process exits.
  \<^item> \<^verbatim>\<open>TcpRx\<close>: \<^verbatim>\<open>handleTcpRx\<close> and \<^verbatim>\<open>TCP_REACTOR\<close> with the packet's reference count.
  \<^item> \<^verbatim>\<open>Reactor\<close>: \<^verbatim>\<open>internal_thread\<close>, \<^verbatim>\<open>processRx\<close>, \<^verbatim>\<open>txrxBurst\<close>, \<^verbatim>\<open>run\<close>,
    \<^verbatim>\<open>reactorPost\<close> and the registration of services; \<^verbatim>\<open>ReactorSpec\<close>: its properties;
    \<^verbatim>\<open>Boot\<close>: \<^verbatim>\<open>pm::init\<close>, \<^verbatim>\<open>port_init\<close> and \<^verbatim>\<open>main\<close> until the workers are launched;
    \<^verbatim>\<open>DevSetup\<close>: the same \<^verbatim>\<open>pm::init\<close> and \<^verbatim>\<open>port_init\<close> with the arguments of the device calls,
    the descriptor counts and the size of the buffer pool;
    \<^verbatim>\<open>Workers\<close>: \<^verbatim>\<open>lcore_launch\<close> on every worker core, their interleaving, and the end of
    \<^verbatim>\<open>main\<close>.
  \<^item> \<^verbatim>\<open>WireSpec\<close>: the specification from the bytes of a frame to the clients (\<open>wire_spec\<close>), and
    that \<^verbatim>\<open>processRx\<close> and a turn of the loop implement it; \<^verbatim>\<open>WireApp\<close>: the same for all
    workers under any schedule.

  \<^bold>\<open>Conventions.\<close> A C++ class is a record, and an operation takes the object and returns it changed.
  Integers are words of their width where the code can wrap; indices and counters that the invariants
  bound are natural numbers. A failed \<^verbatim>\<open>assert\<close> (the makefiles do not define \<^verbatim>\<open>NDEBUG\<close>), an
  access outside an array, through a null pointer or to a variable that was never written, a call of
  an empty function object and \<^verbatim>\<open>rte_panic\<close> are the faults of the result type. A control block is
  reached through a reference (\<open>tcb_ref\<close>: the listening block or a slot of the table), as in the code.

  \<^bold>\<open>What the properties show.\<close>
  \<^item> Containers: table, ring and array refine a partial map, a bounded queue and a list as long as no
    boundary case is met. The boundary cases are stated exactly: the last slot and the wrapped address
    of \<^verbatim>\<open>emplace\<close>, \<^verbatim>\<open>front\<close>, a pop of an empty ring, overlapping producers, \<^verbatim>\<open>back\<close> of a full
    array. The memory orders of the ring are strong enough for one producer and one consumer, which
    may call \<^verbatim>\<open>empty\<close>, \<^verbatim>\<open>front\<close> and \<^verbatim>\<open>pop_front\<close> in any order that tests before it pops. The
    loops of the table are shown to end, with the exact condition under which each goes on.
  \<^item> Packets: the reader decodes and skips exactly, the parser delivers the fields of a packet whose
    headers lie in its first segment, and where the size checks are too weak the over-read is exhibited.
    Any header is parsed as the stream of the reader has it; in a header that a segment boundary cuts,
    the byte behind the segment is taken for data and the rest comes one byte late. The
    reference count of a packet is followed from the device to the free.
  \<^item> Connections: each parsed segment and each timer expiry changes one client as an abstract
    specification over connections says (\<open>conn\<close>, \<open>tcp_edge\<close>), the context invariant is kept by
    every step whatever the timers do, and a connection opens and closes when the acknowledgement flags
    reach the handlers, but stays half-open with the flags that the parser passes on. What the server does on
    packets from the wire, where the acknowledgement flag is masked out, is stated apart. A step fails
    only while it accepts a client, and a client that a timer takes to LAST\_ACK stays for ever. Without a timer service a client is
    removed in the step that accepts it. The control block of every client is destroyed with its timers
    stopped, when it is removed or at the exit of the process.
  \<^item> Reactor: a turn of the loop accounts the packets of each port and changes only its own thread;
    posting to another thread; the start of the application and its limits: the device calls follow
    DPDK's protocol on every port, and the buffer pool is smaller than the receive rings.
  \<^item> The whole program: for every schedule, a worker does what it would do alone, \<^verbatim>\<open>main\<close> returns
    once all workers were told to quit, and the application as it is started never gets a client. From
    the frames on the wire to the clients, a running application whose threads listen does on each
    worker what \<open>wire_spec\<close> says of that worker's frames.

  \<^bold>\<open>Loops, fuel and bounds.\<close> No definition uses fuel. The probe loops recurse on the number of slots
  left, at most the capacity; \<open>skip_loop\<close> on the segments; the search for a core has the measure
  \<^verbatim>\<open>MAX_THREADS - i\<close>; the receive loop of \<^verbatim>\<open>run\<close>, which ends when \<^verbatim>\<open>g_quit\<close> is set, takes
  the list of its turns, of any length, with what the clock and the device deliver in each; a schedule
  of the workers is a list of any length in which each step says whether \<^verbatim>\<open>g_quit\<close> was read as set.

  \<^bold>\<open>Parameters.\<close> DPDK is not part of the sources. Its functions are the fields of \<open>net_api\<close>
  (layout and byte order of headers), \<open>timer_api\<close>, \<open>refcnt_fun\<close> (reference counts of the buffer
  pool), \<open>env\<close> and \<open>boot_env\<close> (return codes, cores, ports) and \<open>dev_api\<close> (device calls); what its documentation promises is in
  \<open>net_documented\<close>, \<open>timer_documented\<close>, \<open>refcnt_documented\<close> and \<open>prepend_documented\<close>. Each has a
  concrete instance in the development. \<open>timer_documented\<close> is about a timer service that was
  initialised. No source file initialises it or runs its expired timers, so the properties that rest on
  \<open>timer_documented\<close> or speak of expiries are about the handlers as they are written for a working
  service; \<open>timer_refuses\<close> is the other case.

  \<^bold>\<open>Interfaces.\<close> \<open>kept_invariant\<close> is interpreted for runs of the table, of
  the TCP context (its invariant, and with it the running timers), of packets from the wire, of the
  receive loop, of the application and of the ring with its memory orders; \<open>context_property\<close> (what \<^verbatim>\<open>handleTcpRx\<close> keeps of a
  context, every turn keeps) for new contexts and for half-open clients; \<open>client_table\<close> for
  \<^verbatim>\<open>FixedDict\<close>; \<open>bounded_queue\<close> for \<^verbatim>\<open>bus_mp_sc\<close>; \<open>refcounted\<close> for the default callbacks
  of \<^verbatim>\<open>aroop_autobuf\<close> and those of \<^verbatim>\<open>rte_autobuf\<close>.

  \<^bold>\<open>Not modelled.\<close> Logging; \<^verbatim>\<open>reactdpdk_config.h\<close> and the addresses
  \<^verbatim>\<open>laddr\<close>, \<^verbatim>\<open>raddr\<close>, which nothing uses; \<^verbatim>\<open>multi_timer::stop\<close> and
  \<^verbatim>\<open>multi_timer::isRunning\<close>, which do not compile when instantiated; the code under \<^verbatim>\<open>#if 0\<close>;
  several producers under weaker memory orders (two of them already lose messages under sequential
  consistency). The order of the \<^verbatim>\<open>release\<close> load in \<^verbatim>\<open>pop_front\<close>, which C++ does not
  define, is a parameter: the results hold for any. The steps of a worker are whole turns: that
  they may be interleaved as such follows from the isolation of the workers, who share the rings
  only, and nothing takes messages out of a ring or, after the start, puts one in (every caller of
  \<^verbatim>\<open>reactorPost\<close> names its own thread). After a use after free or a double free, which the log of
  calls on buffers shows, the model goes on as if the memory were intact.

  \<^bold>\<open>Next.\<close> The other states of the state machine and the sending functions once the code fills in
  their bodies; a consumer of the message rings once the code has one.
\<close>

end
